(* ===== verification/Prelude.thy ===== *)
theory Prelude
  imports Main "HOL-Library.Word"
begin

text \<open>
  Shared vocabulary of the development: the machine types of the Go sources, errors as values, the
  byte reader (\<^verbatim>\<open>bytes.Reader\<close>) as a state-passing parser that may fail, the byte buffer
  (\<^verbatim>\<open>bytes.Buffer\<close>) as the list of bytes a writer appends, wrap-around of \<^verbatim>\<open>int64\<close>, and
  the generic lemmas on words and lists that the component theories rely on.
\<close>

unbundle bit_operations_syntax

section \<open>Machine types\<close>

type_synonym byte = "8 word"
type_synonym u16 = "16 word"
type_synonym u32 = "32 word"
type_synonym u64 = "64 word"

type_synonym PacketNumber = u64
type_synonym ByteCount = u64
type_synonym ConnectionID = u64
type_synonym StreamID = u32
type_synonym PathID = byte
type_synonym ErrorCode = u32

section \<open>Errors as values\<close>

text \<open>
  A Go call that may fail returns a value of the sum type. \<open>QErr\<close> is a
  \<^verbatim>\<open>qerr.QuicError\<close> (or a bare \<^verbatim>\<open>qerr.ErrorCode\<close> used as an error), \<open>Errorf\<close> an error made by
  \<^verbatim>\<open>errors.New\<close> or \<^verbatim>\<open>fmt.Errorf\<close>, identified by its text, \<open>EOF\<close> an error of the
  byte reader, and \<open>Panic\<close> a run-time or explicit panic.
\<close>

datatype gerror =
    EOF
  | Errorf string
  | QErr ErrorCode
  | Panic string

type_synonym 'a result = "gerror + 'a"
type_synonym 'a parser = "byte list \<Rightarrow> gerror + ('a \<times> byte list)"
type_synonym wresult = "gerror + byte list"

definition rbind :: "'a result \<Rightarrow> ('a \<Rightarrow> 'b result) \<Rightarrow> 'b result" where
  "rbind m f = (case m of Inl e \<Rightarrow> Inl e | Inr x \<Rightarrow> f x)"

lemma rbind_simps [simp]:
  "rbind (Inl e) f = Inl e"
  "rbind (Inr x) f = f x"
  by (simp_all add: rbind_def)

lemma rbind_eq_Inr [simp]: "rbind m f = Inr y \<longleftrightarrow> (\<exists>x. m = Inr x \<and> f x = Inr y)"
  by (cases m) auto

subsection \<open>The byte reader\<close>

definition pbind :: "'a parser \<Rightarrow> ('a \<Rightarrow> 'b parser) \<Rightarrow> 'b parser" where
  "pbind m f bs = (case m bs of Inl e \<Rightarrow> Inl e | Inr (x, r) \<Rightarrow> f x r)"

definition preturn :: "'a \<Rightarrow> 'a parser" where
  "preturn x bs = Inr (x, bs)"

definition pfail :: "gerror \<Rightarrow> 'a parser" where
  "pfail e bs = Inl e"

definition pcheck :: "bool \<Rightarrow> gerror \<Rightarrow> unit parser" where
  "pcheck bad e bs = (if bad then Inl e else Inr ((), bs))"

definition ReadByte :: "byte parser" where
  "ReadByte bs = (case bs of [] \<Rightarrow> Inl EOF | b # r \<Rightarrow> Inr (b, r))"

text \<open>\<^verbatim>\<open>io.ReadFull\<close> on a buffer of \<open>n\<close> bytes, and the reader's \<^verbatim>\<open>Len\<close>.\<close>

definition ReadFull :: "nat \<Rightarrow> byte list parser" where
  "ReadFull n bs = (if n \<le> length bs then Inr (take n bs, drop n bs) else Inl EOF)"

definition RLen :: "nat parser" where
  "RLen bs = Inr (length bs, bs)"

lemma pbind_Inr [simp]: "m bs = Inr (x, r) \<Longrightarrow> pbind m f bs = f x r"
  by (simp add: pbind_def)

lemma pbind_Inl [simp]: "m bs = Inl e \<Longrightarrow> pbind m f bs = Inl e"
  by (simp add: pbind_def)

lemma pbind_eq_Inr:
  "pbind m f bs = Inr y \<longleftrightarrow> (\<exists>x r. m bs = Inr (x, r) \<and> f x r = Inr y)"
  by (auto simp: pbind_def split: sum.splits prod.splits)

lemma preturn_simp [simp]: "preturn x bs = Inr (x, bs)"
  by (simp add: preturn_def)

lemma pfail_simp [simp]: "pfail e bs = Inl e"
  by (simp add: pfail_def)

lemma pcheck_simp [simp]: "pcheck bad e bs = (if bad then Inl e else Inr ((), bs))"
  by (simp add: pcheck_def)

lemma ReadByte_Cons [simp]: "ReadByte (b # r) = Inr (b, r)"
  by (simp add: ReadByte_def)

lemma ReadByte_Nil [simp]: "ReadByte [] = Inl EOF"
  by (simp add: ReadByte_def)

lemma ReadFull_append [simp]: "length xs = n \<Longrightarrow> ReadFull n (xs @ r) = Inr (xs, r)"
  by (simp add: ReadFull_def)

lemma RLen_simp [simp]: "RLen bs = Inr (length bs, bs)"
  by (simp add: RLen_def)

text \<open>A parser that only moves forward: what it leaves is a suffix of what it was given.\<close>

definition consumes :: "'a parser \<Rightarrow> bool" where
  "consumes m \<longleftrightarrow> (\<forall>bs x r. m bs = Inr (x, r) \<longrightarrow> (\<exists>p. bs = p @ r))"

named_theorems consuming

lemma consumesD: "consumes m \<Longrightarrow> m bs = Inr (x, r) \<Longrightarrow> length r \<le> length bs"
  by (fastforce simp: consumes_def)

lemma consumes_preturn [consuming]: "consumes (preturn x)"
  by (auto simp: consumes_def)

lemma consumes_pfail [consuming]: "consumes (pfail e)"
  by (auto simp: consumes_def)

lemma consumes_pcheck [consuming]: "consumes (pcheck b e)"
  by (auto simp: consumes_def)

lemma consumes_ReadByte [consuming]: "consumes ReadByte"
  by (auto simp: consumes_def ReadByte_def split: list.splits)

lemma consumes_ReadFull [consuming]: "consumes (ReadFull n)"
  unfolding consumes_def ReadFull_def by (metis Inl_Inr_False Inr_inject append_take_drop_id prod.inject)

lemma consumes_RLen [consuming]: "consumes RLen"
  by (auto simp: consumes_def)

lemma consumes_pbind [consuming]:
  assumes "consumes m" and "\<And>x. consumes (f x)"
  shows "consumes (pbind m f)"
  unfolding consumes_def
proof (intro allI impI)
  fix bs y r assume "pbind m f bs = Inr (y, r)"
  then obtain x r' where *: "m bs = Inr (x, r')" "f x r' = Inr (y, r)"
    unfolding pbind_eq_Inr by blast
  obtain p where p: "bs = p @ r'" using assms(1) *(1) unfolding consumes_def by blast
  obtain q where q: "r' = q @ r" using assms(2) *(2) unfolding consumes_def by blast
  from p q show "\<exists>p. bs = p @ r" by (intro exI [of _ "p @ q"]) simp
qed

lemma consumes_if [consuming]: "consumes m \<Longrightarrow> consumes n \<Longrightarrow> consumes (if b then m else n)"
  by simp

subsection \<open>The byte buffer\<close>

text \<open>
  \<open>wseq\<close> runs writers one after the other on the same buffer and stops at the first error.
\<close>

fun wseq :: "wresult list \<Rightarrow> wresult" where
  "wseq [] = Inr []"
| "wseq (w # ws) =
     (case w of Inl e \<Rightarrow> Inl e
      | Inr bs \<Rightarrow> (case wseq ws of Inl e \<Rightarrow> Inl e | Inr cs \<Rightarrow> Inr (bs @ cs)))"

definition WriteByte :: "byte \<Rightarrow> wresult" where
  "WriteByte b = Inr [b]"

definition WriteBytes :: "byte list \<Rightarrow> wresult" where
  "WriteBytes bs = Inr bs"

lemma WriteByte_simp [simp]: "WriteByte b = Inr [b]"
  by (simp add: WriteByte_def)

lemma WriteBytes_simp [simp]: "WriteBytes bs = Inr bs"
  by (simp add: WriteBytes_def)

lemma wseq_append:
  "wseq (xs @ ys) =
     (case wseq xs of Inl e \<Rightarrow> Inl e
      | Inr bs \<Rightarrow> (case wseq ys of Inl e \<Rightarrow> Inl e | Inr cs \<Rightarrow> Inr (bs @ cs)))"
  by (induction xs) (auto split: sum.splits)

lemma wseq_Inr_Cons:
  "wseq (w # ws) = Inr bs \<longleftrightarrow> (\<exists>b c. w = Inr b \<and> wseq ws = Inr c \<and> bs = b @ c)"
  by (auto split: sum.splits)

section \<open>64-bit signed arithmetic\<close>

text \<open>
  \<^verbatim>\<open>time.Duration\<close> is an \<^verbatim>\<open>int64\<close>; arithmetic on it wraps around. A duration is an
  \<^typ>\<open>int\<close> here and every operation that may leave the range passes its result through \<open>i64\<close>.
\<close>

definition i64 :: "int \<Rightarrow> int" where
  "i64 x = signed_take_bit 63 x"

lemma i64_id: "- (2 ^ 63) \<le> x \<Longrightarrow> x < 2 ^ 63 \<Longrightarrow> i64 x = x"
  by (simp add: i64_def signed_take_bit_int_eq_self)

lemma i64_bounds: "- (2 ^ 63) \<le> i64 x" "i64 x < 2 ^ 63"
  unfolding i64_def
  using signed_take_bit_int_greater_eq_minus_exp [of 63 x] signed_take_bit_int_less_exp [of 63 x]
  by auto

text \<open>Go's integer division and shift on signed values truncate towards zero / drop high bits.\<close>

definition quot :: "int \<Rightarrow> int \<Rightarrow> int" where
  "quot a b = sgn a * sgn b * (\<bar>a\<bar> div \<bar>b\<bar>)"

lemma quot_nonneg: "0 \<le> a \<Longrightarrow> 0 < b \<Longrightarrow> quot a b = a div b"
  by (cases "a = 0") (auto simp: quot_def)

section \<open>Words\<close>

lemma unat_less_64 [simp]: "unat (x :: u64) < 18446744073709551616"
  using unsigned_less [of x, where 'a = nat] by simp

lemma word64_eq_iff: "(x :: u64) = y \<longleftrightarrow> unat x = unat y"
  by (simp add: word_unat_eq_iff)

lemma unat_minus_le: "y \<le> (x :: 'a::len word) \<Longrightarrow> unat (x - y) = unat x - unat y"
  by (simp add: unat_sub_if' word_le_nat_alt)

lemma unat_plus_less: "unat (x :: 'a::len word) + unat y < 2 ^ LENGTH('a) \<Longrightarrow> unat (x + y) = unat x + unat y"
  by (simp add: unat_add_lem)

lemma unat_succ: "x < y \<Longrightarrow> unat ((x :: 'a::len word) + 1) = Suc (unat x)"
proof -
  assume "x < y"
  then have "unat x < unat y" by (simp add: word_less_nat_alt)
  then have "unat x + 1 < 2 ^ LENGTH('a)" using unsigned_less [of y, where 'a = nat] by linarith
  then have "unat (x + 1) = unat x + unat (1 :: 'a word)"
    by (intro unat_plus_less) simp
  then show ?thesis by simp
qed

lemma word_less_succ_le: "x < y \<Longrightarrow> (z :: 'a::len word) \<le> x \<longleftrightarrow> z < x + 1"
  by (simp add: word_less_nat_alt word_le_nat_alt unat_succ less_Suc_eq_le)

lemma word_succ_le: "x < y \<Longrightarrow> (x :: 'a::len word) + 1 \<le> z \<longleftrightarrow> x < z"
  by (simp add: word_less_nat_alt word_le_nat_alt unat_succ Suc_le_eq)

end
