(* ===== verification/Protocol.thy ===== *)
theory Protocol
  imports Prelude
begin

text \<open>
  The package \<^verbatim>\<open>internal/protocol\<close>: constants, version numbers and their tags, the
  choice of a packet number length by the sender and the inference of the full packet number
  by the receiver. The main result is that the two agree: a packet number truncated by the
  sender is recovered exactly.
\<close>

section \<open>Versions and perspectives\<close>

datatype Perspective = PerspectiveServer | PerspectiveClient

datatype EncryptionLevel =
  EncryptionUnspecified | EncryptionUnencrypted | EncryptionSecure | EncryptionForwardSecure

primrec enc_level_num :: "EncryptionLevel \<Rightarrow> nat" where
  "enc_level_num EncryptionUnspecified = 0"
| "enc_level_num EncryptionUnencrypted = 1"
| "enc_level_num EncryptionSecure = 2"
| "enc_level_num EncryptionForwardSecure = 3"

text \<open>\<^verbatim>\<open>VersionNumber\<close> is a Go \<^verbatim>\<open>int\<close>.\<close>

type_synonym VersionNumber = int

definition Version37 :: VersionNumber where "Version37 = 37"
definition Version38 :: VersionNumber where "Version38 = 38"
definition Version39 :: VersionNumber where "Version39 = 39"
definition VersionTLS :: VersionNumber where "VersionTLS = 101"
definition VersionWhatever :: VersionNumber where "VersionWhatever = 0"
definition VersionUnsupported :: VersionNumber where "VersionUnsupported = -1"
definition VersionUnknown :: VersionNumber where "VersionUnknown = -2"
definition VersionMP :: VersionNumber where "VersionMP = 512"

lemmas version_defs =
  Version37_def Version38_def Version39_def VersionTLS_def VersionWhatever_def
  VersionUnsupported_def VersionUnknown_def VersionMP_def

definition SupportedVersions :: "VersionNumber list" where
  "SupportedVersions = [VersionMP, Version39, Version38, Version37]"

definition UsesTLS :: "VersionNumber \<Rightarrow> bool" where
  "UsesTLS vn \<longleftrightarrow> vn = VersionTLS"

text \<open>The characters \<^verbatim>\<open>'Q'\<close> and \<^verbatim>\<open>'0'\<close> are 81 and 48; the arithmetic is on \<^verbatim>\<open>uint32\<close>.\<close>

definition VersionNumberToTag :: "VersionNumber \<Rightarrow> u32" where
  "VersionNumberToTag vn =
     (let v = word_of_int vn :: u32 in
      81 + push_bit 8 ((v div 100) mod 10 + 48) + push_bit 16 ((v div 10) mod 10 + 48)
         + push_bit 24 (v mod 10 + 48))"

definition VersionTagToNumber :: "u32 \<Rightarrow> VersionNumber" where
  "VersionTagToNumber v =
     uint (((drop_bit 8 v AND 255) - 48) * 100 + ((drop_bit 16 v AND 255) - 48) * 10
           + ((drop_bit 24 v AND 255) - 48))"

primrec IsSupportedVersion :: "VersionNumber list \<Rightarrow> VersionNumber \<Rightarrow> bool" where
  "IsSupportedVersion [] v = False"
| "IsSupportedVersion (t # ts) v = (if t = v then True else IsSupportedVersion ts v)"

primrec ChooseSupportedVersion :: "VersionNumber list \<Rightarrow> VersionNumber list \<Rightarrow> VersionNumber" where
  "ChooseSupportedVersion [] theirs = VersionUnsupported"
| "ChooseSupportedVersion (v # ours) theirs =
     (if IsSupportedVersion theirs v then v else ChooseSupportedVersion ours theirs)"

section \<open>Packet numbers\<close>

type_synonym PacketNumberLen = byte

abbreviation PacketNumberLenInvalid :: PacketNumberLen where "PacketNumberLenInvalid \<equiv> (0 :: PacketNumberLen)"
abbreviation PacketNumberLen1 :: PacketNumberLen where "PacketNumberLen1 \<equiv> (1 :: PacketNumberLen)"
abbreviation PacketNumberLen2 :: PacketNumberLen where "PacketNumberLen2 \<equiv> (2 :: PacketNumberLen)"
abbreviation PacketNumberLen4 :: PacketNumberLen where "PacketNumberLen4 \<equiv> (4 :: PacketNumberLen)"
abbreviation PacketNumberLen6 :: PacketNumberLen where "PacketNumberLen6 \<equiv> (6 :: PacketNumberLen)"

definition delta :: "PacketNumber \<Rightarrow> PacketNumber \<Rightarrow> PacketNumber" where
  "delta a b = (if a < b then b - a else a - b)"

definition closestTo :: "PacketNumber \<Rightarrow> PacketNumber \<Rightarrow> PacketNumber \<Rightarrow> PacketNumber" where
  "closestTo target a b = (if delta target a < delta target b then a else b)"

definition InferPacketNumber ::
  "PacketNumberLen \<Rightarrow> PacketNumber \<Rightarrow> PacketNumber \<Rightarrow> PacketNumber" where
  "InferPacketNumber packetNumberLength lastPacketNumber wirePacketNumber =
     (let epochDelta = push_bit (unat (packetNumberLength * 8)) (1 :: PacketNumber);
          epoch = lastPacketNumber AND NOT (epochDelta - 1);
          prevEpochBegin = epoch - epochDelta;
          nextEpochBegin = epoch + epochDelta
      in closestTo (lastPacketNumber + 1) (epoch + wirePacketNumber)
           (closestTo (lastPacketNumber + 1) (prevEpochBegin + wirePacketNumber)
              (nextEpochBegin + wirePacketNumber)))"

definition GetPacketNumberLengthForPublicHeader ::
  "PacketNumber \<Rightarrow> PacketNumber \<Rightarrow> PacketNumberLen" where
  "GetPacketNumberLengthForPublicHeader packetNumber leastUnacked =
     (let diff = packetNumber - leastUnacked in
      if diff < push_bit (2 * 8 - 2) 2 then PacketNumberLen2
      else if diff < push_bit (4 * 8 - 2) 2 then PacketNumberLen4
      else PacketNumberLen6)"

definition GetPacketNumberLength :: "PacketNumber \<Rightarrow> PacketNumberLen" where
  "GetPacketNumberLength packetNumber =
     (if packetNumber < push_bit (1 * 8) 1 then PacketNumberLen1
      else if packetNumber < push_bit (2 * 8) 1 then PacketNumberLen2
      else if packetNumber < push_bit (4 * 8) 1 then PacketNumberLen4
      else PacketNumberLen6)"


section \<open>Version negotiation\<close>

lemma IsSupportedVersion_set: "IsSupportedVersion vs v \<longleftrightarrow> v \<in> set vs"
  by (induction vs) auto

text \<open>The tag of every three-digit version number decodes to that number.\<close>

lemma version_tag_bytes:
  fixes a b c :: u32
  assumes "a < 256" "b < 256" "c < 256"
  defines "t \<equiv> 81 + push_bit 8 a + push_bit 16 b + push_bit 24 c"
  shows "drop_bit 8 t AND 255 = a" "drop_bit 16 t AND 255 = b" "drop_bit 24 t AND 255 = c"
proof -
  have lt: "unat a < 256" "unat b < 256" "unat c < 256"
    using assms by (simp_all add: word_less_nat_alt)
  have u: "unat t = 81 + 256 * (unat a + 256 * (unat b + 256 * unat c))"
    using lt by (simp add: t_def push_bit_eq_mult unat_word_ariths)
  have q1: "unat t div 256 = unat a + 256 * (unat b + 256 * unat c)"
    unfolding u by simp
  have q2: "unat t div 65536 = unat b + 256 * unat c"
    using lt div_mult2_eq [of "unat t" 256 256] by (simp only: q1 div_mult_self2) simp
  have q3: "unat t div 16777216 = unat c"
    using lt div_mult2_eq [of "unat t" 65536 256] by (simp only: q2 div_mult_self2) simp
  have r: "unat t div 256 mod 256 = unat a" "unat t div 65536 mod 256 = unat b"
      "unat t div 16777216 mod 256 = unat c"
    using lt by (simp_all only: q1 q2 q3 mod_mult_self2 mod_less)
  have m: "x AND 255 = take_bit 8 x" for x :: u32
    by (simp add: take_bit_eq_mask mask_eq_exp_minus_1)
  show "drop_bit 8 t AND 255 = a" "drop_bit 16 t AND 255 = b" "drop_bit 24 t AND 255 = c"
    using lt unfolding m
    by (simp_all add: word_unat_eq_iff unsigned_take_bit_eq unat_drop_bit_eq drop_bit_eq_div
        take_bit_eq_mod r unat_div unat_mod)
qed

lemma version_tag_inverse:
  assumes "0 \<le> v" "v < 1000"
  shows "VersionTagToNumber (VersionNumberToTag v) = v"
proof -
  define w where "w = (word_of_int v :: u32)"
  have uw: "unat w = nat v" using assms by (simp add: w_def unat_eq_nat_uint uint_word_of_int)
  have lt: "x mod 10 + 48 < (256 :: u32)" for x :: u32
    by (simp add: word_less_nat_alt unat_word_ariths)
  have *: "VersionTagToNumber (VersionNumberToTag v) =
      uint ((w div 100 mod 10 + 48 - 48) * 100 + (w div 10 mod 10 + 48 - 48) * 10 + (w mod 10 + 48 - 48))"
    unfolding VersionTagToNumber_def VersionNumberToTag_def Let_def w_def [symmetric]
    by (simp only: version_tag_bytes [OF lt lt lt])
  also have "\<dots> = int (unat (w div 100 mod 10 * 100 + w div 10 mod 10 * 10 + w mod 10))"
    by simp
  also have "unat (w div 100 mod 10 * 100 + w div 10 mod 10 * 10 + w mod 10) = nat v"
  proof -
    have "n div 100 * 100 + n div 10 mod 10 * 10 + n mod 10 = n" for n :: nat
    proof -
      have "n div 100 = n div 10 div 10" by (simp add: div_mult2_eq [symmetric])
      then show ?thesis
        using div_mult_mod_eq [of n 10] div_mult_mod_eq [of "n div 10" 10] by linarith
    qed
    then show ?thesis using assms by (simp add: unat_word_ariths uw)
  qed
  finally show ?thesis using assms by simp
qed

lemma ChooseSupportedVersion_in:
  "set ours \<inter> set theirs \<noteq> {} \<Longrightarrow>
     ChooseSupportedVersion ours theirs \<in> set ours \<inter> set theirs"
  by (induction ours) (auto simp: IsSupportedVersion_set)

lemma ChooseSupportedVersion_best:
  "sorted_wrt (>) ours \<Longrightarrow> v \<in> set ours \<inter> set theirs \<Longrightarrow>
     v \<le> ChooseSupportedVersion ours theirs"
  by (induction ours) (auto simp: IsSupportedVersion_set dest: ChooseSupportedVersion_in)

lemma ChooseSupportedVersion_none:
  "set ours \<inter> set theirs = {} \<Longrightarrow> ChooseSupportedVersion ours theirs = VersionUnsupported"
  by (induction ours) (auto simp: IsSupportedVersion_set)

section \<open>Inference of a truncated packet number\<close>

lemma uint_delta: "uint (delta a b) = \<bar>uint a - uint b\<bar>"
  by (auto simp: delta_def uint_sub_if' word_less_def word_le_def)

lemma closestTo_three:
  assumes "x \<in> {a, b, c}"
    and "\<And>y. y \<in> {a, b, c} \<Longrightarrow> y \<noteq> x \<Longrightarrow> delta t x < delta t y"
  shows "closestTo t a (closestTo t b c) = x"
proof -
  have *: "closestTo t u v = x" if "u = x \<or> v = x" "u \<in> {a, b, c}" "v \<in> {a, b, c}" for u v
    using that assms(2) [of u] assms(2) [of v] order_less_asym unfolding closestTo_def by metis
  have "closestTo t b c \<in> {b, c}" by (simp add: closestTo_def)
  then show ?thesis
    using assms(1) * [of a "closestTo t b c"] * [of b c] by blast
qed

text \<open>
  Two numbers that are equal modulo the epoch and different are at least an epoch apart; one
  closer than half an epoch to the target is therefore the closest.
\<close>

lemma closest_by_congruence:
  assumes cong: "uint x mod e = uint y mod e" and ne: "y \<noteq> x"
    and near: "2 * \<bar>uint t - uint x\<bar> < e"
  shows "delta t x < delta t y"
proof -
  have "e dvd uint y - uint x"
    using cong by (metis mod_eq_dvd_iff)
  then have "e \<le> \<bar>uint y - uint x\<bar>"
    using ne by (intro zdvd_imp_le) (auto simp: dvd_abs_iff word_uint_eq_iff)
  then have "uint (delta t x) < uint (delta t y)"
    using near unfolding uint_delta by arith
  then show ?thesis by (simp add: word_less_def)
qed

lemma uint_and_not_mask:
  fixes x :: u64
  assumes "k < 64"
  shows "uint (x AND NOT (2 ^ k - 1)) = uint x - uint x mod 2 ^ k"
proof -
  have "(2 ^ k - 1 :: u64) = mask k"
    by (simp add: mask_eq_exp_minus_1 push_bit_of_1)
  then have "x AND NOT (2 ^ k - 1) = push_bit k (drop_bit k x)"
    by (auto intro!: bit_word_eqI simp: bit_simps)
  then have "x AND NOT (2 ^ k - 1) = x - take_bit k x"
    by (metis add_diff_cancel_right' bits_ident)
  moreover have "take_bit k x \<le> x"
    by (simp add: word_le_def unsigned_take_bit_eq take_bit_int_less_eq_self_iff)
  ultimately show ?thesis
    by (simp add: uint_sub_if' word_le_def unsigned_take_bit_eq take_bit_eq_mod [where 'a = int])
qed

lemma uint_pow2_64: "k < 64 \<Longrightarrow> uint (2 ^ k :: u64) = 2 ^ k"
proof -
  assume "k < 64"
  then have "(2 :: int) ^ k < 2 ^ 64" by (intro power_strict_increasing) auto
  then have "uint (of_int (2 ^ k) :: u64) = 2 ^ k"
    by (simp only: uint_word_of_int len_num1 len_bit0 take_bit_eq_mod) simp
  then show ?thesis by simp
qed

lemma uint_mod_word:
  fixes a b c :: u64
  assumes "k < 64"
  shows "uint (a + c) mod 2 ^ k = (uint a + uint c) mod 2 ^ k"
    and "uint (a + b + c) mod 2 ^ k = (uint a + uint b + uint c) mod 2 ^ k"
    and "uint (a - b + c) mod 2 ^ k = (uint a - uint b + uint c) mod 2 ^ k"
proof -
  have dvd: "(2 :: int) ^ k dvd 2 ^ 64" using assms by (intro le_imp_power_dvd) simp
  have "uint (a + c) = (uint a + uint c) mod 2 ^ 64"
    "uint (a + b + c) = (uint a + uint b + uint c) mod 2 ^ 64"
    "uint (a - b + c) = (uint a - uint b + uint c) mod 2 ^ 64"
    by (simp_all add: uint_word_ariths mod_simps)
  then show "uint (a + c) mod 2 ^ k = (uint a + uint c) mod 2 ^ k"
    "uint (a + b + c) mod 2 ^ k = (uint a + uint b + uint c) mod 2 ^ k"
    "uint (a - b + c) mod 2 ^ k = (uint a - uint b + uint c) mod 2 ^ k"
    by (simp_all only: mod_mod_cancel [OF dvd])
qed

text \<open>
  The receiver expects the packet after the largest one it has seen. Any packet number closer
  than half an epoch to it is recovered from its low-order bits.
\<close>

lemma InferPacketNumber_near:
  fixes pn lastpn :: PacketNumber
  assumes len: "unat (l * 8) = k" "k < 62" "0 < k"
    and small: "uint lastpn < 2 ^ 62" "uint pn < 2 ^ 62"
    and near: "2 * \<bar>uint lastpn + 1 - uint pn\<bar> < 2 ^ k"
  shows "InferPacketNumber l lastpn (take_bit k pn) = pn"
proof -
  define ed where "ed = (push_bit k 1 :: u64)"
  define ep where "ep = lastpn AND NOT (ed - 1)"
  define w where "w = take_bit k pn"
  have pow: "(2::int) ^ k \<le> 2 ^ 61" using len by (intro power_increasing) auto
  have ued: "uint ed = 2 ^ k"
    using len by (simp add: ed_def push_bit_of_1 uint_pow2_64)
  have uep: "uint ep = uint lastpn - uint lastpn mod 2 ^ k"
    using len by (simp add: ep_def ed_def uint_and_not_mask)
  have uw: "uint w = uint pn mod 2 ^ k"
    by (simp add: w_def unsigned_take_bit_eq take_bit_eq_mod [where 'a = int])
  have ut: "uint (lastpn + 1) = uint lastpn + 1"
    using small by (simp add: uint_word_ariths)
  define q where "q = uint lastpn div 2 ^ k"
  define p where "p = uint pn div 2 ^ k"
  define r where "r = uint lastpn mod 2 ^ k"
  define v where "v = uint pn mod 2 ^ k"
  define E where "E = (2 :: int) ^ k"
  have L: "uint lastpn = E * q + r" "0 \<le> r" "r < E" "0 \<le> q"
    by (simp_all add: E_def q_def r_def pos_imp_zdiv_nonneg_iff)
  have P: "uint pn = E * p + v" "0 \<le> v" "v < E" "0 \<le> p"
    by (simp_all add: E_def p_def v_def pos_imp_zdiv_nonneg_iff)
  have ep: "uint ep = E * q" and w: "uint w = v"
    by (simp_all add: uep uw E_def q_def v_def minus_mod_eq_mult_div)
  have cong: "uint y mod 2 ^ k = uint pn mod 2 ^ k" if y: "y \<in> {ep + w, ep - ed + w, ep + ed + w}" for y
  proof -
    have k64: "k < 64" using len by simp
    consider "y = ep + w" | "y = ep - ed + w" | "y = ep + ed + w" using y by blast
    then have "\<exists>c. uint y mod E = (E * c + v) mod E"
    proof cases
      case 1
      have "uint y mod E = (E * q + v) mod E"
        unfolding 1 E_def uint_mod_word(1) [OF k64] by (simp only: ep w E_def)
      then show ?thesis ..
    next
      case 2
      have "uint y mod E = (E * (q - 1) + v) mod E"
        unfolding 2 E_def uint_mod_word(3) [OF k64] by (simp only: ep w ued E_def right_diff_distrib mult_1_right)
      then show ?thesis ..
    next
      case 3
      have "uint y mod E = (E * (q + 1) + v) mod E"
        unfolding 3 E_def uint_mod_word(2) [OF k64] by (simp only: ep w ued E_def distrib_left mult_1_right)
      then show ?thesis ..
    qed
    then show ?thesis using P(1) by (auto simp only: E_def mod_mult_self4)
  qed
  have Epos: "0 < E" "E \<le> 2 ^ 61" using pow by (simp_all add: E_def)
  have "2 * \<bar>E * q + r + 1 - (E * p + v)\<bar> < E"
    using near unfolding L(1) P(1) by (simp only: E_def)
  then have "E * q - E * p < E * 2" "E * - 2 < E * q - E * p"
    using L(2,3) P(2,3) Epos by (simp_all add: abs_if split: if_splits)
  then have "E * (q - p) < E * 2" "E * - 2 < E * (q - p)" by (simp_all only: right_diff_distrib)
  then have "q - p < 2" "- 2 < q - p"
    using mult_less_cancel_left_pos [OF Epos(1)] by blast+
  then consider "p = q" | "p = q - 1" | "p = q + 1" by linarith
  then have "pn \<in> {ep + w, ep - ed + w, ep + ed + w}"
  proof cases
    case 1
    then have "uint pn = uint ep + uint w" using P ep w by simp
    then have "of_int (uint pn) = (of_int (uint ep + uint w) :: u64)" by (simp only:)
    then show ?thesis by simp
  next
    case 2
    then have "uint pn = uint ep - uint ed + uint w"
      using P ep w ued by (simp add: E_def [symmetric] right_diff_distrib)
    then have "of_int (uint pn) = (of_int (uint ep - uint ed + uint w) :: u64)" by (simp only:)
    then show ?thesis by simp
  next
    case 3
    then have "uint pn = uint ep + uint ed + uint w"
      using P ep w ued by (simp add: E_def [symmetric] distrib_left)
    then have "of_int (uint pn) = (of_int (uint ep + uint ed + uint w) :: u64)" by (simp only:)
    then show ?thesis by simp
  qed
  then have "closestTo (lastpn + 1) (ep + w) (closestTo (lastpn + 1) (ep - ed + w) (ep + ed + w)) = pn"
  proof (rule closestTo_three)
    fix y assume "y \<in> {ep + w, ep - ed + w, ep + ed + w}" "y \<noteq> pn"
    then show "delta (lastpn + 1) pn < delta (lastpn + 1) y"
      using near by (intro closest_by_congruence [where e = "2 ^ k"]) (simp_all add: cong ut)
  qed
  then show ?thesis
    by (simp add: InferPacketNumber_def Let_def len ed_def ep_def w_def)
qed

lemma GetPacketNumberLengthForPublicHeader_cases:
  "GetPacketNumberLengthForPublicHeader pn lu \<in> {PacketNumberLen2, PacketNumberLen4, PacketNumberLen6}"
  by (simp add: GetPacketNumberLengthForPublicHeader_def Let_def)

lemma GetPacketNumberLengthForPublicHeader_room:
  assumes "lu \<le> pn" "uint pn - uint lu < 2 ^ 47"
    and k: "k = unat (GetPacketNumberLengthForPublicHeader pn lu * 8)"
  shows "uint pn - uint lu < 2 ^ (k - 1)" "k \<in> {16, 32, 48}"
  using assms
  by (auto simp: GetPacketNumberLengthForPublicHeader_def Let_def word_less_def uint_sub_if' word_le_def)

lemma truncated_number_inferred:
  fixes pn leastUnacked largestRcvd :: PacketNumber
  defines "l \<equiv> GetPacketNumberLengthForPublicHeader pn leastUnacked"
  assumes "leastUnacked \<le> pn" "uint pn - uint leastUnacked < 2 ^ 47"
    and "uint leastUnacked \<le> uint largestRcvd + 1"
    and "uint largestRcvd + 1 < uint pn + 2 ^ (unat (l * 8) - 1)"
    and "uint pn < 2 ^ 62" "uint largestRcvd < 2 ^ 62"
  shows "InferPacketNumber l largestRcvd (take_bit (unat (l * 8)) pn) = pn"
proof (rule InferPacketNumber_near)
  show "unat (l * 8) = unat (l * 8)" ..
  note room = GetPacketNumberLengthForPublicHeader_room [OF assms(2,3), of "unat (l * 8)", folded l_def, OF refl]
  show "unat (l * 8) < 62" "0 < unat (l * 8)" using room(2) by auto
  then have "2 * 2 ^ (unat (l * 8) - 1) = (2 :: int) ^ unat (l * 8)"
    by (metis power_Suc Suc_diff_1)
  moreover have "\<bar>uint largestRcvd + 1 - uint pn\<bar> < 2 ^ (unat (l * 8) - 1)"
    using room(1) assms(4,5) by linarith
  then have near: "2 * \<bar>uint largestRcvd + 1 - uint pn\<bar> < 2 * 2 ^ (unat (l * 8) - 1)" by simp
  ultimately show "2 * \<bar>uint largestRcvd + 1 - uint pn\<bar> < 2 ^ unat (l * 8)" using near by (simp only:)
qed (use assms in auto)

text \<open>
  C11: Packet number compression is lossless. The sender truncates the packet number to the
  length it chooses from its least unacknowledged packet (\<^verbatim>\<open>getPublicHeader\<close>,
  \<^verbatim>\<open>PublicHeader.Write\<close>); a receiver that has seen every packet below that one, and whose
  largest received packet number is less than half an epoch ahead of the packet, infers exactly the
  packet number that was sent. The hypotheses bound the packet numbers below 2^62 (no wrap-around of the
  64-bit arithmetic) and the packets in flight below 2^47, as the code assumes.
\<close>

theorem packet_number_compression_lossless:
  fixes pn leastUnacked largestRcvd :: PacketNumber
  defines "l \<equiv> GetPacketNumberLengthForPublicHeader pn leastUnacked"
  assumes "leastUnacked \<le> pn" "uint pn - uint leastUnacked < 2 ^ 47"
    and "uint leastUnacked \<le> uint largestRcvd + 1"
    and "uint largestRcvd + 1 < uint pn + 2 ^ (unat (l * 8) - 1)"
    and "uint pn < 2 ^ 62" "uint largestRcvd < 2 ^ 62"
  shows "InferPacketNumber l largestRcvd (take_bit (unat (l * 8)) pn) = pn"
  unfolding l_def
  using assms(6,7) by (intro truncated_number_inferred [OF assms(2-4)] assms(5) [unfolded l_def])

theorem packet_number_compression_lossless_witness:
  "InferPacketNumber 2 40000 (take_bit 16 70000) = 70000"
  using packet_number_compression_lossless [of 40001 70000 40000]
  by (simp add: GetPacketNumberLengthForPublicHeader_def Let_def)

end
