(* ===== verification/ByteOrder.thy ===== *)
theory ByteOrder
  imports Protocol
begin

text \<open>
  The package \<^verbatim>\<open>internal/utils\<close>, byte order part: \<^verbatim>\<open>byteorder.go\<close>,
  \<^verbatim>\<open>byteorder_little_endian.go\<close>, \<^verbatim>\<open>byteorder_big_endian.go\<close> and the 16-bit floating point
  format of \<^verbatim>\<open>float16.go\<close>. The Go interface \<^verbatim>\<open>ByteOrder\<close> is the locale
  \<open>byte_order\<close>: what a reader returns after a writer. Both implementations interpret it.
\<close>

section \<open>Little endian\<close>

text \<open>The loop variable and the shift are \<^verbatim>\<open>uint8\<close> in the source, hence the \<open>mod 256\<close>.\<close>

fun leReadUintN_loop :: "nat \<Rightarrow> nat \<Rightarrow> u64 \<Rightarrow> u64 parser" where
  "leReadUintN_loop 0 i res = preturn res"
| "leReadUintN_loop (Suc n) i res =
     pbind ReadByte (\<lambda>bt. leReadUintN_loop n (Suc i) (res XOR push_bit (i * 8 mod 256) (ucast bt)))"

definition leReadUintN :: "byte \<Rightarrow> u64 parser" where
  "leReadUintN len = leReadUintN_loop (unat len) 0 0"

definition leReadUint64 :: "u64 parser" where
  "leReadUint64 =
     pbind ReadByte (\<lambda>b1. pbind ReadByte (\<lambda>b2. pbind ReadByte (\<lambda>b3. pbind ReadByte (\<lambda>b4.
     pbind ReadByte (\<lambda>b5. pbind ReadByte (\<lambda>b6. pbind ReadByte (\<lambda>b7. pbind ReadByte (\<lambda>b8.
       preturn (ucast b1 + push_bit 8 (ucast b2) + push_bit 16 (ucast b3) + push_bit 24 (ucast b4)
         + push_bit 32 (ucast b5) + push_bit 40 (ucast b6) + push_bit 48 (ucast b7)
         + push_bit 56 (ucast b8))))))))))"

definition leReadUint32 :: "u32 parser" where
  "leReadUint32 =
     pbind ReadByte (\<lambda>b1. pbind ReadByte (\<lambda>b2. pbind ReadByte (\<lambda>b3. pbind ReadByte (\<lambda>b4.
       preturn (ucast b1 + push_bit 8 (ucast b2) + push_bit 16 (ucast b3) + push_bit 24 (ucast b4))))))"

definition leReadUint16 :: "u16 parser" where
  "leReadUint16 =
     pbind ReadByte (\<lambda>b1. pbind ReadByte (\<lambda>b2. preturn (ucast b1 + push_bit 8 (ucast b2))))"

definition leWriteUint64 :: "u64 \<Rightarrow> wresult" where
  "leWriteUint64 i = WriteBytes
     [ucast i, ucast (drop_bit 8 i), ucast (drop_bit 16 i), ucast (drop_bit 24 i),
      ucast (drop_bit 32 i), ucast (drop_bit 40 i), ucast (drop_bit 48 i), ucast (drop_bit 56 i)]"

definition leWriteUint56 :: "u64 \<Rightarrow> wresult" where
  "leWriteUint56 i = (if i \<ge> push_bit 56 1 then Inl (Panic ''doesn't fit into 56 bits'') else WriteBytes
     [ucast i, ucast (drop_bit 8 i), ucast (drop_bit 16 i), ucast (drop_bit 24 i),
      ucast (drop_bit 32 i), ucast (drop_bit 40 i), ucast (drop_bit 48 i)])"

definition leWriteUint48 :: "u64 \<Rightarrow> wresult" where
  "leWriteUint48 i = (if i \<ge> push_bit 48 1 then Inl (Panic ''doesn't fit into 48 bits'') else WriteBytes
     [ucast i, ucast (drop_bit 8 i), ucast (drop_bit 16 i), ucast (drop_bit 24 i),
      ucast (drop_bit 32 i), ucast (drop_bit 40 i)])"

definition leWriteUint40 :: "u64 \<Rightarrow> wresult" where
  "leWriteUint40 i = (if i \<ge> push_bit 40 1 then Inl (Panic ''doesn't fit into 40 bits'') else WriteBytes
     [ucast i, ucast (drop_bit 8 i), ucast (drop_bit 16 i), ucast (drop_bit 24 i),
      ucast (drop_bit 32 i)])"

definition leWriteUint32 :: "u32 \<Rightarrow> wresult" where
  "leWriteUint32 i = WriteBytes
     [ucast i, ucast (drop_bit 8 i), ucast (drop_bit 16 i), ucast (drop_bit 24 i)]"

definition leWriteUint24 :: "u32 \<Rightarrow> wresult" where
  "leWriteUint24 i = (if i \<ge> push_bit 24 1 then Inl (Panic ''doesn't fit into 24 bits'') else WriteBytes
     [ucast i, ucast (drop_bit 8 i), ucast (drop_bit 16 i)])"

definition leWriteUint16 :: "u16 \<Rightarrow> wresult" where
  "leWriteUint16 i = WriteBytes [ucast i, ucast (drop_bit 8 i)]"

section \<open>Big endian\<close>

fun beReadUintN_loop :: "nat \<Rightarrow> nat \<Rightarrow> nat \<Rightarrow> u64 \<Rightarrow> u64 parser" where
  "beReadUintN_loop len 0 i res = preturn res"
| "beReadUintN_loop len (Suc n) i res =
     pbind ReadByte (\<lambda>bt.
       beReadUintN_loop len n (Suc i) (res XOR push_bit ((len - 1 - i) * 8 mod 256) (ucast bt)))"

definition beReadUintN :: "byte \<Rightarrow> u64 parser" where
  "beReadUintN len = beReadUintN_loop (unat len) (unat len) 0 0"

definition beReadUint64 :: "u64 parser" where
  "beReadUint64 =
     pbind ReadByte (\<lambda>b8. pbind ReadByte (\<lambda>b7. pbind ReadByte (\<lambda>b6. pbind ReadByte (\<lambda>b5.
     pbind ReadByte (\<lambda>b4. pbind ReadByte (\<lambda>b3. pbind ReadByte (\<lambda>b2. pbind ReadByte (\<lambda>b1.
       preturn (ucast b1 + push_bit 8 (ucast b2) + push_bit 16 (ucast b3) + push_bit 24 (ucast b4)
         + push_bit 32 (ucast b5) + push_bit 40 (ucast b6) + push_bit 48 (ucast b7)
         + push_bit 56 (ucast b8))))))))))"

definition beReadUint32 :: "u32 parser" where
  "beReadUint32 =
     pbind ReadByte (\<lambda>b4. pbind ReadByte (\<lambda>b3. pbind ReadByte (\<lambda>b2. pbind ReadByte (\<lambda>b1.
       preturn (ucast b1 + push_bit 8 (ucast b2) + push_bit 16 (ucast b3) + push_bit 24 (ucast b4))))))"

definition beReadUint16 :: "u16 parser" where
  "beReadUint16 =
     pbind ReadByte (\<lambda>b2. pbind ReadByte (\<lambda>b1. preturn (ucast b1 + push_bit 8 (ucast b2))))"

definition beWriteUint64 :: "u64 \<Rightarrow> wresult" where
  "beWriteUint64 i = WriteBytes
     [ucast (drop_bit 56 i), ucast (drop_bit 48 i), ucast (drop_bit 40 i), ucast (drop_bit 32 i),
      ucast (drop_bit 24 i), ucast (drop_bit 16 i), ucast (drop_bit 8 i), ucast i]"

definition beWriteUint56 :: "u64 \<Rightarrow> wresult" where
  "beWriteUint56 i = (if i \<ge> push_bit 56 1 then Inl (Panic ''doesn't fit into 56 bits'') else WriteBytes
     [ucast (drop_bit 48 i), ucast (drop_bit 40 i), ucast (drop_bit 32 i),
      ucast (drop_bit 24 i), ucast (drop_bit 16 i), ucast (drop_bit 8 i), ucast i])"

definition beWriteUint48 :: "u64 \<Rightarrow> wresult" where
  "beWriteUint48 i = (if i \<ge> push_bit 48 1 then Inl (Panic ''doesn't fit into 48 bits'') else WriteBytes
     [ucast (drop_bit 40 i), ucast (drop_bit 32 i),
      ucast (drop_bit 24 i), ucast (drop_bit 16 i), ucast (drop_bit 8 i), ucast i])"

definition beWriteUint40 :: "u64 \<Rightarrow> wresult" where
  "beWriteUint40 i = (if i \<ge> push_bit 40 1 then Inl (Panic ''doesn't fit into 40 bits'') else WriteBytes
     [ucast (drop_bit 32 i),
      ucast (drop_bit 24 i), ucast (drop_bit 16 i), ucast (drop_bit 8 i), ucast i])"

definition beWriteUint32 :: "u32 \<Rightarrow> wresult" where
  "beWriteUint32 i = WriteBytes
     [ucast (drop_bit 24 i), ucast (drop_bit 16 i), ucast (drop_bit 8 i), ucast i]"

definition beWriteUint24 :: "u32 \<Rightarrow> wresult" where
  "beWriteUint24 i = (if i \<ge> push_bit 24 1 then Inl (Panic ''doesn't fit into 24 bits'') else WriteBytes
     [ucast (drop_bit 16 i), ucast (drop_bit 8 i), ucast i])"

definition beWriteUint16 :: "u16 \<Rightarrow> wresult" where
  "beWriteUint16 i = WriteBytes [ucast (drop_bit 8 i), ucast i]"

section \<open>The interface\<close>

datatype ByteOrder = LittleEndian | BigEndian

definition GetByteOrder :: "VersionNumber \<Rightarrow> ByteOrder" where
  "GetByteOrder v = (if v < Version39 then LittleEndian else BigEndian)"

primrec ReadUintN :: "ByteOrder \<Rightarrow> byte \<Rightarrow> u64 parser" where
  "ReadUintN LittleEndian = leReadUintN" | "ReadUintN BigEndian = beReadUintN"

primrec ReadUint64 :: "ByteOrder \<Rightarrow> u64 parser" where
  "ReadUint64 LittleEndian = leReadUint64" | "ReadUint64 BigEndian = beReadUint64"

primrec ReadUint32 :: "ByteOrder \<Rightarrow> u32 parser" where
  "ReadUint32 LittleEndian = leReadUint32" | "ReadUint32 BigEndian = beReadUint32"

primrec ReadUint16 :: "ByteOrder \<Rightarrow> u16 parser" where
  "ReadUint16 LittleEndian = leReadUint16" | "ReadUint16 BigEndian = beReadUint16"

primrec WriteUint64 :: "ByteOrder \<Rightarrow> u64 \<Rightarrow> wresult" where
  "WriteUint64 LittleEndian = leWriteUint64" | "WriteUint64 BigEndian = beWriteUint64"

primrec WriteUint56 :: "ByteOrder \<Rightarrow> u64 \<Rightarrow> wresult" where
  "WriteUint56 LittleEndian = leWriteUint56" | "WriteUint56 BigEndian = beWriteUint56"

primrec WriteUint48 :: "ByteOrder \<Rightarrow> u64 \<Rightarrow> wresult" where
  "WriteUint48 LittleEndian = leWriteUint48" | "WriteUint48 BigEndian = beWriteUint48"

primrec WriteUint40 :: "ByteOrder \<Rightarrow> u64 \<Rightarrow> wresult" where
  "WriteUint40 LittleEndian = leWriteUint40" | "WriteUint40 BigEndian = beWriteUint40"

primrec WriteUint32 :: "ByteOrder \<Rightarrow> u32 \<Rightarrow> wresult" where
  "WriteUint32 LittleEndian = leWriteUint32" | "WriteUint32 BigEndian = beWriteUint32"

primrec WriteUint24 :: "ByteOrder \<Rightarrow> u32 \<Rightarrow> wresult" where
  "WriteUint24 LittleEndian = leWriteUint24" | "WriteUint24 BigEndian = beWriteUint24"

primrec WriteUint16 :: "ByteOrder \<Rightarrow> u16 \<Rightarrow> wresult" where
  "WriteUint16 LittleEndian = leWriteUint16" | "WriteUint16 BigEndian = beWriteUint16"

section \<open>The 16-bit floating point format\<close>

abbreviation uFloat16MaxExponent :: nat where "uFloat16MaxExponent \<equiv> (30 :: nat)"
abbreviation uFloat16MantissaBits :: nat where "uFloat16MantissaBits \<equiv> (11 :: nat)"
abbreviation uFloat16MantissaEffectiveBits :: nat where "uFloat16MantissaEffectiveBits \<equiv> (12 :: nat)"

definition uFloat16MaxValue :: u64 where
  "uFloat16MaxValue = push_bit uFloat16MaxExponent (push_bit uFloat16MantissaEffectiveBits 1 - 1)"

text \<open>The conversion done by \<^verbatim>\<open>readUfloat16\<close> on the 16 bits read, and the whole function.\<close>

definition ufloat16_decode :: "u16 \<Rightarrow> u64" where
  "ufloat16_decode val =
     (let res = ucast val :: u64 in
      if res < push_bit uFloat16MantissaEffectiveBits 1 then res
      else let exponent = drop_bit uFloat16MantissaBits val - 1
           in push_bit (unat exponent) (res - push_bit uFloat16MantissaBits (ucast exponent)))"

definition readUfloat16 :: "ByteOrder \<Rightarrow> u64 parser" where
  "readUfloat16 bo = pbind (ReadUint16 bo) (\<lambda>val. preturn (ufloat16_decode val))"

fun writeUfloat16_loop :: "nat \<Rightarrow> u64 \<Rightarrow> u16 \<Rightarrow> u64 \<times> u16" where
  "writeUfloat16_loop offset value exponent =
     (if offset = 0 then (value, exponent)
      else if value \<ge> push_bit (uFloat16MantissaBits + offset) 1
           then writeUfloat16_loop (offset div 2) (drop_bit offset value) (exponent + of_nat offset)
           else writeUfloat16_loop (offset div 2) value exponent)"

declare writeUfloat16_loop.simps [simp del]

definition ufloat16_encode :: "u64 \<Rightarrow> u16" where
  "ufloat16_encode value =
     (if value < push_bit uFloat16MantissaEffectiveBits 1 then ucast value
      else if value \<ge> uFloat16MaxValue then 65535
      else let (v, exponent) = writeUfloat16_loop 16 value 0
           in ucast v + push_bit uFloat16MantissaBits exponent)"

definition writeUfloat16 :: "ByteOrder \<Rightarrow> u64 \<Rightarrow> wresult" where
  "writeUfloat16 bo value = WriteUint16 bo (ufloat16_encode value)"

section \<open>Bytes of a word\<close>

text \<open>The bytes of a number, least significant first, and how they add up again.\<close>

definition le_bytes :: "nat \<Rightarrow> u64 \<Rightarrow> byte list" where
  "le_bytes n w = map (\<lambda>j. ucast (drop_bit (8 * j) w)) [0..<n]"

lemma length_le_bytes [simp]: "length (le_bytes n w) = n"
  by (simp add: le_bytes_def)

lemma byte_step_xor:
  fixes w :: u64
  shows "take_bit m w XOR push_bit m (ucast (ucast (drop_bit m w) :: byte)) = take_bit (m + 8) w"
  by (rule bit_word_eqI) (auto simp: bit_simps not_less)

lemma byte_step_xor_high:
  fixes w :: u64
  shows "push_bit (m + 8) (drop_bit (m + 8) w) XOR push_bit m (ucast (ucast (drop_bit m w) :: byte))
    = push_bit m (drop_bit m w)"
  by (rule bit_word_eqI) (auto simp: bit_simps not_less)

lemma byte_step_add:
  fixes w :: "'a::len word"
  shows "take_bit m w + push_bit m (ucast (ucast (drop_bit m w) :: byte)) = take_bit (m + 8) w"
proof -
  have "take_bit m w + push_bit m (ucast (ucast (drop_bit m w) :: byte)) =
        take_bit m w OR push_bit m (ucast (ucast (drop_bit m w) :: byte))"
    by (rule disjunctive_add) (auto simp: bit_simps)
  also have "\<dots> = take_bit (m + 8) w"
    by (rule bit_word_eqI) (auto simp: bit_simps not_less)
  finally show ?thesis .
qed

lemma byte_first: "ucast (ucast (w :: 'a::len word) :: byte) = take_bit 8 w"
  by (rule bit_word_eqI) (auto simp: bit_simps)

lemmas byte_sums = byte_first
  byte_step_add [of 8, unfolded byte_first, simplified] byte_step_add [of 16, unfolded byte_first, simplified] byte_step_add [of 24, unfolded byte_first, simplified]
  byte_step_add [of 32, unfolded byte_first, simplified] byte_step_add [of 40, unfolded byte_first, simplified] byte_step_add [of 48, unfolded byte_first, simplified]
  byte_step_add [of 56, unfolded byte_first, simplified]

lemma take_bit_full: "take_bit 64 (w :: u64) = w" "take_bit 32 (v :: u32) = v" "take_bit 16 (u :: u16) = u"
  by (simp_all add: take_bit_word_eq_self)

lemma take_bit_small: "uint (w :: 'a::len word) < 2 ^ n \<Longrightarrow> take_bit n w = w"
  by (simp add: word_uint_eq_iff unsigned_take_bit_eq take_bit_int_eq_self)

lemma ucast_ucast_byte [simp]: "ucast (ucast (b :: byte) :: u64) = b"
  by (rule bit_word_eqI) (auto simp: bit_simps)

lemma uint_ucast_up [simp]: "uint (ucast (j :: u32) :: u64) = uint j" "uint (ucast (k :: u16) :: u64) = uint k"
    "uint (ucast (b :: byte) :: u64) = uint b"
  by (simp_all add: uint_up_ucast is_up)

named_theorems codec

lemma le_roundtrip [codec]:
  "leReadUint64 (ucast i # ucast (drop_bit 8 i) # ucast (drop_bit 16 i) # ucast (drop_bit 24 i)
      # ucast (drop_bit 32 i) # ucast (drop_bit 40 i) # ucast (drop_bit 48 i)
      # ucast (drop_bit 56 i) # r) = Inr (i, r)"
  "leReadUint32 (ucast j # ucast (drop_bit 8 j) # ucast (drop_bit 16 j) # ucast (drop_bit 24 j) # r)
      = Inr (j, r)"
  "leReadUint16 (ucast k # ucast (drop_bit 8 k) # r) = Inr (k, r)"
  by (simp_all add: leReadUint64_def leReadUint32_def leReadUint16_def byte_sums take_bit_full)

lemma be_roundtrip [codec]:
  "beReadUint64 (ucast (drop_bit 56 i) # ucast (drop_bit 48 i) # ucast (drop_bit 40 i)
      # ucast (drop_bit 32 i) # ucast (drop_bit 24 i) # ucast (drop_bit 16 i)
      # ucast (drop_bit 8 i) # ucast i # r) = Inr (i, r)"
  "beReadUint32 (ucast (drop_bit 24 j) # ucast (drop_bit 16 j) # ucast (drop_bit 8 j) # ucast j # r)
      = Inr (j, r)"
  "beReadUint16 (ucast (drop_bit 8 k) # ucast k # r) = Inr (k, r)"
  by (simp_all add: beReadUint64_def beReadUint32_def beReadUint16_def byte_sums take_bit_full)

lemma leReadUintN_loop_bytes:
  "i + n \<le> 8 \<Longrightarrow>
   leReadUintN_loop n i (take_bit (8 * i) w) (map (\<lambda>j. ucast (drop_bit (8 * j) w)) [i..<i + n] @ r)
     = Inr (take_bit (8 * (i + n)) w, r)"
proof (induction n arbitrary: i)
  case 0
  then show ?case by simp
next
  case (Suc n)
  have m: "i * 8 mod 256 = 8 * i" using Suc.prems by simp
  have "[i..<i + Suc n] = i # [Suc i..<Suc i + n]" by (simp add: upt_conv_Cons)
  then show ?case using Suc.IH [of "Suc i"] Suc.prems
    by (simp add: m byte_step_xor add.commute)
qed

lemma leReadUintN_bytes:
  "n \<le> 8 \<Longrightarrow> leReadUintN (of_nat n) (le_bytes n w @ r) = Inr (take_bit (8 * n) w, r)"
  using leReadUintN_loop_bytes [of 0 n w r]
  by (simp add: leReadUintN_def le_bytes_def unat_of_nat)

lemma beReadUintN_loop_bytes:
  "i + n = len \<Longrightarrow> len \<le> 8 \<Longrightarrow>
   beReadUintN_loop len n i (push_bit (8 * n) (drop_bit (8 * n) (take_bit (8 * len) w)))
     (rev (map (\<lambda>j. ucast (drop_bit (8 * j) w)) [0..<n]) @ r)
     = Inr (take_bit (8 * len) w, r)"
proof (induction n arbitrary: i)
  case 0
  then show ?case by simp
next
  case (Suc n)
  have m: "len - Suc i = n" using Suc.prems by auto
  have b: "ucast (drop_bit (8 * n) w) = (ucast (drop_bit (8 * n) (take_bit (8 * len) w)) :: byte)"
    using Suc.prems by (auto intro!: bit_word_eqI simp: bit_simps)
  show ?case using Suc.IH [of "Suc i"] Suc.prems byte_step_xor_high [of "8 * n" "take_bit (8 * len) w"]
    by (simp add: m b add.commute mult.commute [of n])
qed

lemma beReadUintN_bytes:
  "n \<le> 8 \<Longrightarrow> beReadUintN (of_nat n) (rev (le_bytes n w) @ r) = Inr (take_bit (8 * n) w, r)"
  using beReadUintN_loop_bytes [of 0 n n w r]
  by (simp add: beReadUintN_def le_bytes_def unat_of_nat drop_bit_take_bit)

section \<open>The byte order contract\<close>

text \<open>
  The contract of the Go interface \<^verbatim>\<open>ByteOrder\<close>. \<open>enc n w\<close> is the encoding of the \<open>n\<close>
  low-order bytes of \<open>w\<close>; every writer appends such an encoding, or panics when the value does not
  fit, and every reader inverts it and leaves the rest of the input alone.
\<close>

locale byte_order =
  fixes readN :: "byte \<Rightarrow> u64 parser" and read64 :: "u64 parser" and read32 :: "u32 parser"
    and read16 :: "u16 parser"
    and write64 write56 write48 write40 :: "u64 \<Rightarrow> wresult"
    and write32 write24 :: "u32 \<Rightarrow> wresult" and write16 :: "u16 \<Rightarrow> wresult"
    and enc :: "nat \<Rightarrow> u64 \<Rightarrow> byte list"
  assumes enc_len: "length (enc n w) = n"
    and enc_one: "enc 1 w = [ucast w]"
    and readN_enc: "n \<le> 8 \<Longrightarrow> readN (of_nat n) (enc n w @ r) = Inr (take_bit (8 * n) w, r)"
    and read64_enc: "read64 (enc 8 i @ r) = Inr (i, r)"
    and read32_enc: "read32 (enc 4 (ucast j) @ r) = Inr (j, r)"
    and read16_enc: "read16 (enc 2 (ucast k) @ r) = Inr (k, r)"
    and write64_enc: "write64 i = Inr (enc 8 i)"
    and write56_enc: "write56 i = (if i < 2 ^ 56 then Inr (enc 7 i) else Inl (Panic ''doesn't fit into 56 bits''))"
    and write48_enc: "write48 i = (if i < 2 ^ 48 then Inr (enc 6 i) else Inl (Panic ''doesn't fit into 48 bits''))"
    and write40_enc: "write40 i = (if i < 2 ^ 40 then Inr (enc 5 i) else Inl (Panic ''doesn't fit into 40 bits''))"
    and write32_enc: "write32 j = Inr (enc 4 (ucast j))"
    and write24_enc: "write24 j = (if j < 2 ^ 24 then Inr (enc 3 (ucast j)) else Inl (Panic ''doesn't fit into 24 bits''))"
    and write16_enc: "write16 k = Inr (enc 2 (ucast k))"
begin

lemmas readN_numeral =
  readN_enc [of 1, simplified] readN_enc [of 2, simplified] readN_enc [of 3, simplified]
  readN_enc [of 4, simplified] readN_enc [of 5, simplified] readN_enc [of 6, simplified]
  readN_enc [of 7, simplified] readN_enc [of 8, simplified]

lemma readN_zero: "readN 0 r = Inr (0, r)"
  using readN_enc [of 0 0 r] enc_len [of 0 0] by simp

lemma readN_byte: "readN 1 (b # r) = Inr (ucast b, r)"
  using readN_enc [of 1 "ucast b" r] enc_one [of "ucast b"]
  by (simp add: take_bit_small uint_lt2p [of b, simplified])

lemmas writers = write64_enc write56_enc write48_enc write40_enc write32_enc write24_enc write16_enc
lemmas readers = read64_enc read32_enc read16_enc

text \<open>A value that fits is read back by the reader of the same width, whatever follows it.\<close>

lemma readN_write:
  "write16 k = Inr bs \<Longrightarrow> readN 2 (bs @ r) = Inr (ucast k, r)"
  "write24 j = Inr bs \<Longrightarrow> readN 3 (bs @ r) = Inr (ucast j, r)"
  "write32 j = Inr bs \<Longrightarrow> readN 4 (bs @ r) = Inr (ucast j, r)"
  "write40 i = Inr bs \<Longrightarrow> readN 5 (bs @ r) = Inr (i, r)"
  "write48 i = Inr bs \<Longrightarrow> readN 6 (bs @ r) = Inr (i, r)"
  "write56 i = Inr bs \<Longrightarrow> readN 7 (bs @ r) = Inr (i, r)"
  "write64 i = Inr bs \<Longrightarrow> readN 8 (bs @ r) = Inr (i, r)"
  using uint_lt2p [of k] uint_lt2p [of j]
  by (auto simp: writers readN_numeral word_less_def take_bit_small take_bit_full split: if_splits)

end

lemma le_bytes_numerals:
  "le_bytes (Suc 0) w = [ucast w]"
  "le_bytes 2 w = [ucast w, ucast (drop_bit 8 w)]"
  "le_bytes 3 w = [ucast w, ucast (drop_bit 8 w), ucast (drop_bit 16 w)]"
  "le_bytes 4 w = [ucast w, ucast (drop_bit 8 w), ucast (drop_bit 16 w), ucast (drop_bit 24 w)]"
  "le_bytes 5 w = [ucast w, ucast (drop_bit 8 w), ucast (drop_bit 16 w), ucast (drop_bit 24 w),
     ucast (drop_bit 32 w)]"
  "le_bytes 6 w = [ucast w, ucast (drop_bit 8 w), ucast (drop_bit 16 w), ucast (drop_bit 24 w),
     ucast (drop_bit 32 w), ucast (drop_bit 40 w)]"
  "le_bytes 7 w = [ucast w, ucast (drop_bit 8 w), ucast (drop_bit 16 w), ucast (drop_bit 24 w),
     ucast (drop_bit 32 w), ucast (drop_bit 40 w), ucast (drop_bit 48 w)]"
  "le_bytes 8 w = [ucast w, ucast (drop_bit 8 w), ucast (drop_bit 16 w), ucast (drop_bit 24 w),
     ucast (drop_bit 32 w), ucast (drop_bit 40 w), ucast (drop_bit 48 w), ucast (drop_bit 56 w)]"
  by (simp_all add: le_bytes_def upt_rec numeral_eq_Suc)

lemma byte_of_ucast:
  "ucast (drop_bit n (ucast (j :: u32) :: u64)) = (ucast (drop_bit n j) :: byte)"
  "ucast (drop_bit n (ucast (k :: u16) :: u64)) = (ucast (drop_bit n k) :: byte)"
  "ucast (ucast (j :: u32) :: u64) = (ucast j :: byte)"
  "ucast (ucast (k :: u16) :: u64) = (ucast k :: byte)"
  using bit_imp_le_length [of j] bit_imp_le_length [of k]
  by (auto intro!: bit_word_eqI simp: bit_simps) (fastforce+)?

lemmas le_write_defs = leWriteUint64_def leWriteUint56_def leWriteUint48_def leWriteUint40_def
  leWriteUint32_def leWriteUint24_def leWriteUint16_def
lemmas be_write_defs = beWriteUint64_def beWriteUint56_def beWriteUint48_def beWriteUint40_def
  beWriteUint32_def beWriteUint24_def beWriteUint16_def

interpretation le: byte_order leReadUintN leReadUint64 leReadUint32 leReadUint16
  leWriteUint64 leWriteUint56 leWriteUint48 leWriteUint40 leWriteUint32 leWriteUint24 leWriteUint16
  le_bytes
  by unfold_locales
    (simp_all add: leReadUintN_bytes le_bytes_numerals le_roundtrip byte_of_ucast le_write_defs not_less)

interpretation be: byte_order beReadUintN beReadUint64 beReadUint32 beReadUint16
  beWriteUint64 beWriteUint56 beWriteUint48 beWriteUint40 beWriteUint32 beWriteUint24 beWriteUint16
  "\<lambda>n w. rev (le_bytes n w)"
  by unfold_locales
    (simp_all add: beReadUintN_bytes le_bytes_numerals be_roundtrip byte_of_ucast be_write_defs not_less)

primrec enc_bytes :: "ByteOrder \<Rightarrow> nat \<Rightarrow> u64 \<Rightarrow> byte list" where
  "enc_bytes LittleEndian = le_bytes"
| "enc_bytes BigEndian = (\<lambda>n w. rev (le_bytes n w))"

interpretation bo: byte_order "ReadUintN b" "ReadUint64 b" "ReadUint32 b" "ReadUint16 b"
  "WriteUint64 b" "WriteUint56 b" "WriteUint48 b" "WriteUint40 b" "WriteUint32 b" "WriteUint24 b"
  "WriteUint16 b" "enc_bytes b" for b
  by (cases b) (simp_all add: le.byte_order_axioms be.byte_order_axioms)

declare bo.enc_len [simp] bo.readers [codec] bo.writers [codec] bo.readN_numeral [codec]
  bo.readN_zero [codec] bo.readN_byte [codec]

section \<open>Accuracy of the floating point format\<close>

lemma unat_pow2: "k < LENGTH('a) \<Longrightarrow> unat (2 ^ k :: 'a::len word) = 2 ^ k"
proof -
  assume "k < LENGTH('a)"
  then have "(2 :: nat) ^ k < 2 ^ LENGTH('a)" by (intro power_strict_increasing) auto
  then have "unat (of_nat (2 ^ k) :: 'a word) = 2 ^ k"
    by (simp only: unat_of_nat mod_less)
  then show ?thesis by simp
qed

lemma unat_drop_bit_div: "unat (drop_bit n (w :: 'a::len word)) = unat w div 2 ^ n"
  by (simp only: unat_drop_bit_eq drop_bit_eq_div [where 'a = nat])

lemma unat_ucast_up: "unat (ucast (k :: u16) :: u64) = unat k"
  by (simp only: unat_eq_nat_uint uint_ucast_up)

lemma unat_ucast_down: "unat (ucast (w :: u64) :: u16) = unat w mod 65536"
  by (simp add: unsigned_ucast_eq take_bit_eq_mod [where 'a = nat])

text \<open>One step of the binary search: the value is shifted down or left alone.\<close>

lemma writeUfloat16_loop_step:
  assumes "0 < offset" "offset \<le> 16"
  shows "writeUfloat16_loop offset value exponent =
    (if 2 ^ (11 + offset) \<le> unat value
     then writeUfloat16_loop (offset div 2) (drop_bit offset value) (exponent + of_nat offset)
     else writeUfloat16_loop (offset div 2) value exponent)"
proof -
  have "unat (push_bit (11 + offset) 1 :: u64) = 2 ^ (11 + offset)"
    using assms unat_pow2 [of "11 + offset", where 'a = 64] by simp
  then have "value \<ge> push_bit (11 + offset) 1 \<longleftrightarrow> 2 ^ (11 + offset) \<le> unat value"
    by (simp only: word_le_nat_alt)
  then show ?thesis
    using assms by (subst writeUfloat16_loop.simps) simp
qed

text \<open>
  The loop normalises the value to twelve significant bits and counts the bits it drops: whenever
  the value is below \<open>2 ^ (11 + 2 * offset)\<close> the search over the offsets that remain succeeds.
\<close>

lemma writeUfloat16_loop_spec:
  assumes "offset = 2 ^ m" "m \<le> 4" "unat val < 2 ^ (11 + 2 * offset)" "2 ^ 11 \<le> unat val"
  shows "\<exists>e. writeUfloat16_loop offset val ex = (drop_bit e val, ex + of_nat e) \<and> e < 2 * offset
    \<and> 2 ^ 11 \<le> unat val div 2 ^ e \<and> unat val div 2 ^ e < 2 ^ 12"
  using assms
proof (induction m arbitrary: offset val ex)
  case 0
  have z: "writeUfloat16_loop 0 v x = (v, x)" for v x by (simp add: writeUfloat16_loop.simps)
  show ?case
  proof (cases "2 ^ 12 \<le> unat val")
    case True
    with 0 show ?thesis
      by (intro exI [of _ 1]) (simp add: writeUfloat16_loop_step z, arith)
  next
    case False
    with 0 show ?thesis
      by (intro exI [of _ 0]) (simp add: writeUfloat16_loop_step z)
  qed
next
  case (Suc m)
  let ?h = "2 ^ m :: nat"
  have off: "offset = 2 * ?h" "offset div 2 = ?h" using Suc.prems by auto
  have m4: "m \<le> 3" using Suc.prems by simp
  then have "?h \<le> 2 ^ 3" by (intro power_increasing) auto
  then have o16: "offset \<le> 16" "0 < offset" using off by auto
  show ?case
  proof (cases "2 ^ (11 + offset) \<le> unat val")
    case True
    let ?v = "drop_bit offset val"
    have uv: "unat ?v = unat val div 2 ^ offset"
      by (rule unat_drop_bit_div)
    have "(2 :: nat) ^ (11 + 2 * offset) = 2 ^ (11 + offset) * 2 ^ offset"
      by (metis power_add add.assoc mult_2)
    then have "unat val < 2 ^ (11 + offset) * 2 ^ offset"
      using Suc.prems(3) by simp
    then have "unat ?v < 2 ^ (11 + 2 * ?h)"
      unfolding uv off(1) [symmetric] by (intro less_mult_imp_div_less)
    moreover have "2 ^ 11 \<le> unat ?v"
      unfolding uv using True
      by (simp add: less_eq_div_iff_mult_less_eq power_add)
    ultimately obtain e where e: "writeUfloat16_loop ?h ?v (ex + of_nat offset) = (drop_bit e ?v, ex + of_nat offset + of_nat e)"
      "e < 2 * ?h" "2 ^ 11 \<le> unat ?v div 2 ^ e" "unat ?v div 2 ^ e < 2 ^ 12"
      using Suc.IH [of ?h ?v "ex + of_nat offset"] m4 by auto
    have "unat ?v div 2 ^ e = unat val div 2 ^ (offset + e)"
      by (simp add: uv div_mult2_eq power_add)
    moreover have "writeUfloat16_loop offset val ex = (drop_bit (offset + e) val, ex + of_nat (offset + e))"
      using True writeUfloat16_loop_step [OF o16(2,1), of val ex] e(1) off(2)
      by (simp add: add.assoc add.commute [of e])
    ultimately show ?thesis
      using e(2,3,4) off(1) by (intro exI [of _ "offset + e"]) simp
  next
    case False
    then have "unat val < 2 ^ (11 + 2 * ?h)" using off by simp
    then obtain e where e: "writeUfloat16_loop ?h val ex = (drop_bit e val, ex + of_nat e)"
      "e < 2 * ?h" "2 ^ 11 \<le> unat val div 2 ^ e" "unat val div 2 ^ e < 2 ^ 12"
      using Suc.IH [of ?h val ex] Suc.prems(4) m4 by auto
    moreover have "writeUfloat16_loop offset val ex = (drop_bit e val, ex + of_nat e)"
      using False writeUfloat16_loop_step [OF o16(2,1), of val ex] e(1) off(2) by simp
    ultimately show ?thesis
      using off(1) by (intro exI [of _ e]) simp
  qed
qed


lemma ufloat16_decode_normal:
  assumes "unat val = q + 2048 * e" "2048 \<le> q" "q < 4096" "1 \<le> e" "e \<le> 30"
  shows "unat (ufloat16_decode val) = q * 2 ^ e"
proof -
  define res where "res = (ucast val :: u64)"
  define ex where "ex = drop_bit 11 val - 1"
  have ures: "unat res = q + 2048 * e" using assms(1) by (simp only: res_def unat_ucast_up)
  have "unat (drop_bit 11 val) = e + 1"
    using assms by (simp add: unat_drop_bit_div)
  then have uex: "unat ex = e"
    by (simp add: ex_def unat_sub_if' unat_1)
  have ush: "unat (push_bit 11 (ucast ex) :: u64) = 2048 * e"
    using assms(5) by (simp add: push_bit_eq_mult unat_mult_lem [THEN iffD1] unat_ucast_up uex)
  have "push_bit 11 (ucast ex) \<le> res" by (simp add: word_le_nat_alt ures ush)
  then have uq: "unat (res - push_bit 11 (ucast ex)) = q" by (simp add: unat_minus_le ures ush)
  have "(2 :: nat) ^ e \<le> 2 ^ 30" using assms(5) by (intro power_increasing) auto
  then have "q * 2 ^ e < 2 ^ 12 * 2 ^ 30"
    using assms(2,3) by (intro mult_less_le_imp_less) auto
  then have "unat (res - push_bit 11 (ucast ex)) * unat (2 ^ e :: u64) < 2 ^ 64"
    using assms(5) by (simp only: uq unat_pow2 len_num1 len_bit0) simp
  then have "unat ((res - push_bit 11 (ucast ex)) * 2 ^ e) = q * unat (2 ^ e :: u64)"
    by (simp add: unat_word_ariths uq)
  then have "unat (push_bit e (res - push_bit 11 (ucast ex))) = q * 2 ^ e"
    using assms(5) by (simp add: push_bit_eq_mult unat_pow2)
  moreover have "\<not> res < push_bit 12 1"
    using assms by (simp add: word_less_nat_alt ures)
  ultimately show ?thesis
    by (simp add: ufloat16_decode_def Let_def res_def ex_def uex [unfolded ex_def])
qed

lemma ufloat16_roundtrip_normal:
  assumes "4096 \<le> unat v" "v < uFloat16MaxValue"
  shows "\<exists>e. 2048 \<le> unat v div 2 ^ e \<and> unat (ufloat16_decode (ufloat16_encode v)) = unat v div 2 ^ e * 2 ^ e"
proof -
  have max: "unat v < 4095 * 2 ^ 30" using assms(2) by (simp add: uFloat16MaxValue_def word_less_nat_alt)
  obtain e where e: "writeUfloat16_loop 16 v 0 = (drop_bit e v, of_nat e)" "e < 32"
    "2 ^ 11 \<le> unat v div 2 ^ e" "unat v div 2 ^ e < 2 ^ 12"
    using writeUfloat16_loop_spec [of 16 4 v 0] assms(1) max by auto
  define q where "q = unat v div 2 ^ e"
  have "e \<noteq> 0" using e(4) assms(1) by (intro notI) simp
  then have e1: "1 \<le> e" by simp
  have "\<not> 31 \<le> e"
  proof
    assume "31 \<le> e"
    then have "(2 :: nat) ^ 31 \<le> 2 ^ e" by (intro power_increasing) auto
    then have "unat v div 2 ^ e \<le> unat v div 2 ^ 31" by (intro div_le_mono2) auto
    also have "\<dots> < 2 ^ 11" using max by (simp add: less_mult_imp_div_less)
    finally show False using e(3) by simp
  qed
  then have e30: "e \<le> 30" by simp
  have uq: "unat (ucast (drop_bit e v) :: u16) = q"
    using e(4) by (simp add: unat_ucast_down unat_drop_bit_div q_def)
  have ue: "unat (push_bit 11 (of_nat e) :: u16) = 2048 * e"
    using e30 by (simp add: push_bit_eq_mult unat_mult_lem [THEN iffD1] unat_of_nat)
  have "unat (ucast (drop_bit e v) + push_bit 11 (of_nat e) :: u16) = q + 2048 * e"
    using e(4) e30 by (subst unat_plus_less) (simp_all add: uq ue q_def)
  moreover have "ufloat16_encode v = ucast (drop_bit e v) + push_bit 11 (of_nat e)"
    using assms by (simp add: ufloat16_encode_def word_less_nat_alt word_le_nat_alt e(1))
  ultimately have "unat (ufloat16_decode (ufloat16_encode v)) = q * 2 ^ e"
    using e(3,4) e1 e30 by (intro ufloat16_decode_normal) (simp_all add: q_def)
  then show ?thesis using e(3) by (intro exI [of _ e]) (simp add: q_def)
qed


text \<open>
  C18: Accuracy of the ACK delay and remote RTT encoding. Whatever the byte order, a 64-bit value
  written with \<^verbatim>\<open>WriteUfloat16\<close> and read back with \<^verbatim>\<open>ReadUfloat16\<close> comes back unchanged when it is below
  4096, is clamped to the largest representable value when it is at least that value, and is
  otherwise rounded down by less than one part in 2048; the bytes that follow are untouched.
\<close>

theorem ufloat16_accuracy:
  "\<exists>bs d. writeUfloat16 b v = Inr bs \<and> readUfloat16 b (bs @ r) = Inr (d, r) \<and> length bs = 2 \<and>
     (if v < 4096 then d = v
      else if uFloat16MaxValue \<le> v then d = uFloat16MaxValue
      else unat d \<le> unat v \<and> 2048 * (unat v - unat d) < unat d)"
proof -
  define d where "d = ufloat16_decode (ufloat16_encode v)"
  have io: "writeUfloat16 b v = Inr (enc_bytes b 2 (ucast (ufloat16_encode v)))"
    "readUfloat16 b (enc_bytes b 2 (ucast (ufloat16_encode v)) @ r) = Inr (d, r)"
    by (simp_all add: writeUfloat16_def readUfloat16_def codec d_def)
  have "if v < 4096 then d = v
      else if uFloat16MaxValue \<le> v then d = uFloat16MaxValue
      else unat d \<le> unat v \<and> 2048 * (unat v - unat d) < unat d"
  proof (cases "v < 4096")
    case True
    then have u: "uint v < 4096" by (simp add: word_less_def)
    have "(ucast (ucast v :: u16) :: u64) = take_bit 16 v" by (rule bit_word_eqI) (auto simp: bit_simps)
    also have "\<dots> = v" using u by (simp add: take_bit_small)
    finally have "(ucast (ucast v :: u16) :: u64) = v" .
    with True show ?thesis by (simp add: d_def ufloat16_encode_def ufloat16_decode_def Let_def)
  next
    case False
    then have big: "4096 \<le> unat v" by (simp add: word_less_nat_alt)
    show ?thesis
    proof (cases "uFloat16MaxValue \<le> v")
      case True
      have "\<not> v < push_bit 12 1" using big by (simp add: word_less_nat_alt)
      with True False show ?thesis
        by (simp add: d_def ufloat16_encode_def ufloat16_decode_def Let_def uFloat16MaxValue_def)
    next
      case max: False
      then obtain e where e: "2048 \<le> unat v div 2 ^ e" "unat d = unat v div 2 ^ e * 2 ^ e"
        using ufloat16_roundtrip_normal [OF big] by (auto simp: d_def not_le)
      have "unat v - unat d = unat v mod 2 ^ e"
        using e(2) by (simp add: minus_div_mult_eq_mod)
      then have "unat v - unat d < 2 ^ e" by simp
      then have "2048 * (unat v - unat d) < 2048 * 2 ^ e" by simp
      also have "\<dots> \<le> unat d" unfolding e(2) by (intro mult_right_mono e(1)) simp
      finally have "2048 * (unat v - unat d) < unat d" .
      moreover have "unat d \<le> unat v" using e(2) by simp
      ultimately show ?thesis using False max by simp
    qed
  qed
  with io show ?thesis by (intro exI) auto
qed

end
