(* ===== verification/Utils.thy ===== *)
theory Utils
  imports ByteOrder "HOL-Library.AList"
begin

text \<open>
  The package \<^verbatim>\<open>internal/utils\<close>, \<^verbatim>\<open>minmax.go\<close>, and the combinators for methods that change
  their receiver and may return an error: an \<open>outcome\<close> is the error, if any, together with the
  state the method leaves behind, because Go keeps the changes made before an early return.
\<close>

section \<open>Methods that change a state and may fail\<close>

type_synonym 's outcome = "gerror option \<times> 's"

definition done_ok :: "'s \<Rightarrow> 's outcome" where
  "done_ok s = (None, s)"

definition fail_with :: "gerror \<Rightarrow> 's \<Rightarrow> 's outcome" where
  "fail_with e s = (Some e, s)"

definition obind :: "'s outcome \<Rightarrow> ('s \<Rightarrow> 's outcome) \<Rightarrow> 's outcome" where
  "obind m f = (case fst m of Some e \<Rightarrow> m | None \<Rightarrow> f (snd m))"

lemma outcome_simps [simp]:
  "obind (None, s) f = f s"
  "obind (Some e, s) f = (Some e, s)"
  "done_ok s = (None, s)"
  "fail_with e s = (Some e, s)"
  by (simp_all add: obind_def done_ok_def fail_with_def)

text \<open>An invariant of both continuations is an invariant of the sequence.\<close>

lemma obind_invariant:
  "I (snd m) \<Longrightarrow> (\<And>s. I s \<Longrightarrow> I (snd (f s))) \<Longrightarrow> I (snd (obind m f))"
  by (cases "fst m") (auto simp: obind_def)

section \<open>Minimum and maximum\<close>

definition InfDuration :: int where "InfDuration = 2 ^ 63 - 1"

definition Max_int :: "int \<Rightarrow> int \<Rightarrow> int" where
  "Max_int a b = (if a < b then b else a)"

definition MaxUint32 :: "u32 \<Rightarrow> u32 \<Rightarrow> u32" where
  "MaxUint32 a b = (if a < b then b else a)"

definition MaxUint64 :: "u64 \<Rightarrow> u64 \<Rightarrow> u64" where
  "MaxUint64 a b = (if a < b then b else a)"

definition MinUint64 :: "u64 \<Rightarrow> u64 \<Rightarrow> u64" where
  "MinUint64 a b = (if a < b then a else b)"

definition Min_int :: "int \<Rightarrow> int \<Rightarrow> int" where
  "Min_int a b = (if a < b then a else b)"

definition MinUint32 :: "u32 \<Rightarrow> u32 \<Rightarrow> u32" where
  "MinUint32 a b = (if a < b then a else b)"

definition MinInt64 :: "int \<Rightarrow> int \<Rightarrow> int" where
  "MinInt64 a b = (if a < b then a else b)"

definition MaxInt64 :: "int \<Rightarrow> int \<Rightarrow> int" where
  "MaxInt64 a b = (if a > b then a else b)"

definition MinByteCount :: "ByteCount \<Rightarrow> ByteCount \<Rightarrow> ByteCount" where
  "MinByteCount a b = (if a < b then a else b)"

definition MaxByteCount :: "ByteCount \<Rightarrow> ByteCount \<Rightarrow> ByteCount" where
  "MaxByteCount a b = (if a > b then a else b)"

definition MaxDuration :: "int \<Rightarrow> int \<Rightarrow> int" where
  "MaxDuration a b = (if a > b then a else b)"

definition MinDuration :: "int \<Rightarrow> int \<Rightarrow> int" where
  "MinDuration a b = (if a > b then b else a)"

text \<open>Negating the least \<^verbatim>\<open>int64\<close> wraps around to itself.\<close>

definition AbsDuration :: "int \<Rightarrow> int" where
  "AbsDuration d = (if d \<ge> 0 then d else i64 (- d))"

definition MinTime :: "int \<Rightarrow> int \<Rightarrow> int" where
  "MinTime a b = (if a > b then b else a)"

definition MaxTime :: "int \<Rightarrow> int \<Rightarrow> int" where
  "MaxTime a b = (if a > b then a else b)"

definition MaxPacketNumber :: "PacketNumber \<Rightarrow> PacketNumber \<Rightarrow> PacketNumber" where
  "MaxPacketNumber a b = (if a > b then a else b)"

definition MinPacketNumber :: "PacketNumber \<Rightarrow> PacketNumber \<Rightarrow> PacketNumber" where
  "MinPacketNumber a b = (if a < b then a else b)"

lemma minmax_lattice [simp]:
  "Max_int = max" "Min_int = min" "MaxUint32 = max" "MinUint32 = min" "MaxUint64 = max" "MinUint64 = min"
  "MinInt64 = min" "MaxInt64 = max" "MinByteCount = min" "MaxByteCount = max"
  "MaxDuration = max" "MinDuration = min" "MinTime = min" "MaxTime = max"
  "MaxPacketNumber = max" "MinPacketNumber = min"
  by (auto simp: fun_eq_iff min_def max_def Max_int_def Min_int_def MaxUint32_def MinUint32_def
      MaxUint64_def MinUint64_def MinInt64_def MaxInt64_def MinByteCount_def MaxByteCount_def
      MaxDuration_def MinDuration_def MinTime_def MaxTime_def MaxPacketNumber_def MinPacketNumber_def)

lemma AbsDuration_abs: "- (2 ^ 63) < d \<Longrightarrow> d < 2 ^ 63 \<Longrightarrow> AbsDuration d = \<bar>d\<bar>"
  by (simp add: AbsDuration_def i64_id)

lemma unat_min: "unat (min a b) = min (unat a) (unat (b :: 'a::len word))"
  by (simp add: min_def word_le_nat_alt)

lemma unat_max: "unat (max a b) = max (unat a) (unat (b :: 'a::len word))"
  by (simp add: max_def word_le_nat_alt)

lemma unat_plus_le:
  assumes "unat (x :: 'a::len word) + unat y \<le> unat (z :: 'a word)"
  shows "unat (x + y) = unat x + unat y"
proof (rule unat_plus_less)
  show "unat x + unat y < 2 ^ LENGTH('a)" using assms unsigned_less [of z, where 'a = nat] by linarith
qed

section \<open>Go maps as association lists\<close>

text \<open>
  Iteration over a Go map has no fixed order: the order of the list stands for the order of one
  iteration, and no result below depends on it.
\<close>

lemma map_of_update [simp]: "map_of (AList.update k v al) = (map_of al)(k \<mapsto> v)"
  by (simp add: update_conv')

lemma map_of_delete [simp]: "map_of (AList.delete k al) = (map_of al)(k := None)"
  by (simp add: delete_conv')

lemma distinct_keys_update: "distinct (map fst al) \<Longrightarrow> distinct (map fst (AList.update k v al))"
  by (rule distinct_update)

lemma distinct_keys_delete: "distinct (map fst al) \<Longrightarrow> distinct (map fst (AList.delete k al))"
  by (rule distinct_delete)

text \<open>Replacing one summand of a finite sum.\<close>

lemma sum_replace:
  fixes h :: "'a \<Rightarrow> 'b \<Rightarrow> nat"
  assumes "finite A" "k \<in> A"
  shows "(\<Sum>i\<in>A. h i ((f(k := v)) i)) + h k (f k) = (\<Sum>i\<in>A. h i (f i)) + h k v"
proof -
  have "(\<Sum>i\<in>A. h i ((f(k := v)) i)) = h k v + (\<Sum>i\<in>A - {k}. h i (f i))"
    using sum.remove [OF assms, of "\<lambda>i. h i ((f(k := v)) i)"] by simp
  moreover have "(\<Sum>i\<in>A. h i (f i)) = h k (f k) + (\<Sum>i\<in>A - {k}. h i (f i))"
    by (rule sum.remove [OF assms])
  ultimately show ?thesis by simp
qed

end
