(* ===== verification/Frames.thy ===== *)
theory Frames
  imports ByteOrder
begin

text \<open>
  The package \<^verbatim>\<open>internal/wire\<close>, frames with a fixed or simple layout: RST_STREAM, WINDOW_UPDATE,
  BLOCKED, PING, GOAWAY, CONNECTION_CLOSE, STOP_WAITING, PATHS and ADD_ADDRESS. Each has its
  \<^verbatim>\<open>Write\<close>, \<^verbatim>\<open>MinLength\<close> and parser. The Go interface \<^verbatim>\<open>Frame\<close>, together with the parser
  of the frame, is the locale \<open>frame_codec\<close>.
\<close>

section \<open>Error codes and limits\<close>

definition InternalError :: ErrorCode where "InternalError = 1"
definition StreamDataAfterTermination :: ErrorCode where "StreamDataAfterTermination = 2"
definition InvalidPacketHeader :: ErrorCode where "InvalidPacketHeader = 3"
definition InvalidFrameData :: ErrorCode where "InvalidFrameData = 4"
definition InvalidRstStreamData :: ErrorCode where "InvalidRstStreamData = 6"
definition InvalidConnectionCloseData :: ErrorCode where "InvalidConnectionCloseData = 7"
definition InvalidGoawayData :: ErrorCode where "InvalidGoawayData = 8"
definition InvalidAckData :: ErrorCode where "InvalidAckData = 9"
definition InvalidVersionNegotiationPacket :: ErrorCode where "InvalidVersionNegotiationPacket = 10"
definition DecryptionFailure :: ErrorCode where "DecryptionFailure = 12"
definition InvalidStreamID :: ErrorCode where "InvalidStreamID = 17"
definition TooManyOpenStreams :: ErrorCode where "TooManyOpenStreams = 18"
definition InvalidStreamData :: ErrorCode where "InvalidStreamData = 46"
definition MissingPayload :: ErrorCode where "MissingPayload = 48"
definition EmptyStreamFrameNoFin :: ErrorCode where "EmptyStreamFrameNoFin = 50"
definition InvalidWindowUpdateData :: ErrorCode where "InvalidWindowUpdateData = 57"
definition InvalidBlockedData :: ErrorCode where "InvalidBlockedData = 58"
definition FlowControlReceivedTooMuchData :: ErrorCode where "FlowControlReceivedTooMuchData = 59"
definition InvalidStopWaitingData :: ErrorCode where "InvalidStopWaitingData = 60"
definition UnencryptedStreamData :: ErrorCode where "UnencryptedStreamData = 61"
definition TooManyOutstandingReceivedPackets :: ErrorCode where "TooManyOutstandingReceivedPackets = 69"

text \<open>\<^verbatim>\<open>qerr.ToQuicError\<close>: any error that carries no code is an internal error.\<close>

fun ToQuicError :: "gerror \<Rightarrow> ErrorCode" where
  "ToQuicError (QErr e) = e"
| "ToQuicError _ = InternalError"

definition MaxPacketSize :: ByteCount where "MaxPacketSize = 1350"

section \<open>RST_STREAM, WINDOW_UPDATE, BLOCKED, PING\<close>

record RstStreamFrame =
  rst_StreamID :: StreamID
  rst_ErrorCode :: u32
  rst_ByteOffset :: ByteCount

definition RstStreamFrame_Write :: "RstStreamFrame \<Rightarrow> VersionNumber \<Rightarrow> wresult" where
  "RstStreamFrame_Write f version = wseq [WriteByte 1,
     WriteUint32 (GetByteOrder version) (rst_StreamID f),
     WriteUint64 (GetByteOrder version) (rst_ByteOffset f),
     WriteUint32 (GetByteOrder version) (rst_ErrorCode f)]"

definition RstStreamFrame_MinLength :: "RstStreamFrame \<Rightarrow> VersionNumber \<Rightarrow> ByteCount result" where
  "RstStreamFrame_MinLength f version = Inr (1 + 4 + 8 + 4)"

definition ParseRstStreamFrame :: "VersionNumber \<Rightarrow> RstStreamFrame parser" where
  "ParseRstStreamFrame version =
     pbind ReadByte (\<lambda>_. pbind (ReadUint32 (GetByteOrder version)) (\<lambda>sid.
     pbind (ReadUint64 (GetByteOrder version)) (\<lambda>byteOffset.
     pbind (ReadUint32 (GetByteOrder version)) (\<lambda>errorCode.
       preturn \<lparr>rst_StreamID = sid, rst_ErrorCode = errorCode, rst_ByteOffset = byteOffset\<rparr>))))"

record WindowUpdateFrame =
  wu_StreamID :: StreamID
  wu_ByteOffset :: ByteCount

definition WindowUpdateFrame_Write :: "WindowUpdateFrame \<Rightarrow> VersionNumber \<Rightarrow> wresult" where
  "WindowUpdateFrame_Write f version = wseq [WriteByte 4,
     WriteUint32 (GetByteOrder version) (wu_StreamID f),
     WriteUint64 (GetByteOrder version) (wu_ByteOffset f)]"

definition WindowUpdateFrame_MinLength :: "WindowUpdateFrame \<Rightarrow> VersionNumber \<Rightarrow> ByteCount result" where
  "WindowUpdateFrame_MinLength f version = Inr (1 + 4 + 8)"

definition ParseWindowUpdateFrame :: "VersionNumber \<Rightarrow> WindowUpdateFrame parser" where
  "ParseWindowUpdateFrame version =
     pbind ReadByte (\<lambda>_. pbind (ReadUint32 (GetByteOrder version)) (\<lambda>sid.
     pbind (ReadUint64 (GetByteOrder version)) (\<lambda>byteOffset.
       preturn \<lparr>wu_StreamID = sid, wu_ByteOffset = byteOffset\<rparr>)))"

record BlockedFrame =
  bl_StreamID :: StreamID

definition BlockedFrame_Write :: "BlockedFrame \<Rightarrow> VersionNumber \<Rightarrow> wresult" where
  "BlockedFrame_Write f version = wseq [WriteByte 5,
     WriteUint32 (GetByteOrder version) (bl_StreamID f)]"

definition BlockedFrame_MinLength :: "BlockedFrame \<Rightarrow> VersionNumber \<Rightarrow> ByteCount result" where
  "BlockedFrame_MinLength f version = Inr (1 + 4)"

definition ParseBlockedFrame :: "VersionNumber \<Rightarrow> BlockedFrame parser" where
  "ParseBlockedFrame version =
     pbind ReadByte (\<lambda>_. pbind (ReadUint32 (GetByteOrder version)) (\<lambda>sid.
       preturn \<lparr>bl_StreamID = sid\<rparr>))"

datatype PingFrame = PingFrame

definition PingFrame_Write :: "PingFrame \<Rightarrow> VersionNumber \<Rightarrow> wresult" where
  "PingFrame_Write f version = WriteByte 7"

definition PingFrame_MinLength :: "PingFrame \<Rightarrow> VersionNumber \<Rightarrow> ByteCount result" where
  "PingFrame_MinLength f version = Inr 1"

definition ParsePingFrame :: "VersionNumber \<Rightarrow> PingFrame parser" where
  "ParsePingFrame version = pbind ReadByte (\<lambda>_. preturn PingFrame)"

section \<open>GOAWAY and CONNECTION_CLOSE\<close>

text \<open>A reason phrase is a Go string, a sequence of bytes.\<close>

record GoawayFrame =
  ga_ErrorCode :: ErrorCode
  ga_LastGoodStream :: StreamID
  ga_ReasonPhrase :: "byte list"

definition ParseGoawayFrame :: "VersionNumber \<Rightarrow> GoawayFrame parser" where
  "ParseGoawayFrame version =
     pbind ReadByte (\<lambda>_. pbind (ReadUint32 (GetByteOrder version)) (\<lambda>errorCode.
     pbind (ReadUint32 (GetByteOrder version)) (\<lambda>lastGoodStream.
     pbind (ReadUint16 (GetByteOrder version)) (\<lambda>reasonPhraseLen.
     pbind (pcheck (reasonPhraseLen > ucast MaxPacketSize) (QErr InvalidGoawayData)) (\<lambda>_.
     pbind (ReadFull (unat reasonPhraseLen)) (\<lambda>reasonPhrase.
       preturn \<lparr>ga_ErrorCode = errorCode, ga_LastGoodStream = lastGoodStream,
         ga_ReasonPhrase = reasonPhrase\<rparr>))))))"

definition GoawayFrame_Write :: "GoawayFrame \<Rightarrow> VersionNumber \<Rightarrow> wresult" where
  "GoawayFrame_Write f version = wseq [WriteByte 3,
     WriteUint32 (GetByteOrder version) (ga_ErrorCode f),
     WriteUint32 (GetByteOrder version) (ga_LastGoodStream f),
     WriteUint16 (GetByteOrder version) (of_nat (length (ga_ReasonPhrase f))),
     WriteBytes (ga_ReasonPhrase f)]"

definition GoawayFrame_MinLength :: "GoawayFrame \<Rightarrow> VersionNumber \<Rightarrow> ByteCount result" where
  "GoawayFrame_MinLength f version = Inr (of_nat (1 + 4 + 4 + 2 + length (ga_ReasonPhrase f)))"

record ConnectionCloseFrame =
  cc_ErrorCode :: ErrorCode
  cc_ReasonPhrase :: "byte list"

definition ParseConnectionCloseFrame :: "VersionNumber \<Rightarrow> ConnectionCloseFrame parser" where
  "ParseConnectionCloseFrame version =
     pbind ReadByte (\<lambda>_. pbind (ReadUint32 (GetByteOrder version)) (\<lambda>errorCode.
     pbind (ReadUint16 (GetByteOrder version)) (\<lambda>reasonPhraseLen.
     pbind (pcheck (reasonPhraseLen > ucast MaxPacketSize) (QErr InvalidConnectionCloseData)) (\<lambda>_.
     pbind (ReadFull (unat reasonPhraseLen)) (\<lambda>reasonPhrase.
       preturn \<lparr>cc_ErrorCode = errorCode, cc_ReasonPhrase = reasonPhrase\<rparr>)))))"

definition ConnectionCloseFrame_MinLength ::
  "ConnectionCloseFrame \<Rightarrow> VersionNumber \<Rightarrow> ByteCount result" where
  "ConnectionCloseFrame_MinLength f version = Inr (1 + 4 + 2 + of_nat (length (cc_ReasonPhrase f)))"

definition ConnectionCloseFrame_Write :: "ConnectionCloseFrame \<Rightarrow> VersionNumber \<Rightarrow> wresult" where
  "ConnectionCloseFrame_Write f version = wseq [WriteByte 2,
     WriteUint32 (GetByteOrder version) (cc_ErrorCode f),
     (if length (cc_ReasonPhrase f) > 65535
      then Inl (Errorf ''ConnectionFrame: ReasonPhrase too long'')
      else wseq [WriteUint16 (GetByteOrder version) (of_nat (length (cc_ReasonPhrase f))),
                 WriteBytes (cc_ReasonPhrase f)])]"

section \<open>STOP_WAITING\<close>

record StopWaitingFrame =
  sw_LeastUnacked :: PacketNumber
  sw_PacketNumberLen :: PacketNumberLen
  sw_PacketNumber :: PacketNumber

abbreviation errLeastUnackedHigherThanPacketNumber :: gerror where "errLeastUnackedHigherThanPacketNumber \<equiv> Errorf ''StopWaitingFrame: LeastUnacked can't be greater than the packet number''"
abbreviation errPacketNumberNotSet :: gerror where "errPacketNumberNotSet \<equiv> Errorf ''StopWaitingFrame: PacketNumber not set''"
abbreviation errPacketNumberLenNotSet :: gerror where "errPacketNumberLenNotSet \<equiv> Errorf ''StopWaitingFrame: PacketNumberLen not set''"

definition StopWaitingFrame_Write :: "StopWaitingFrame \<Rightarrow> VersionNumber \<Rightarrow> wresult" where
  "StopWaitingFrame_Write f version =
     (if sw_PacketNumber f = 0 then Inl errPacketNumberNotSet
      else if sw_LeastUnacked f > sw_PacketNumber f then Inl errLeastUnackedHigherThanPacketNumber
      else let leastUnackedDelta = sw_PacketNumber f - sw_LeastUnacked f in
        wseq [WriteByte 6,
          (if sw_PacketNumberLen f = PacketNumberLen1 then WriteByte (ucast leastUnackedDelta)
           else if sw_PacketNumberLen f = PacketNumberLen2
             then WriteUint16 (GetByteOrder version) (ucast leastUnackedDelta)
           else if sw_PacketNumberLen f = PacketNumberLen4
             then WriteUint32 (GetByteOrder version) (ucast leastUnackedDelta)
           else if sw_PacketNumberLen f = PacketNumberLen6
             then WriteUint48 (GetByteOrder version) (leastUnackedDelta AND (push_bit 48 1 - 1))
           else Inl errPacketNumberLenNotSet)])"

definition StopWaitingFrame_MinLength :: "StopWaitingFrame \<Rightarrow> VersionNumber \<Rightarrow> ByteCount result" where
  "StopWaitingFrame_MinLength f version =
     (if sw_PacketNumberLen f = PacketNumberLenInvalid then Inl errPacketNumberLenNotSet
      else Inr (1 + ucast (sw_PacketNumberLen f)))"

definition ParseStopWaitingFrame ::
  "PacketNumber \<Rightarrow> PacketNumberLen \<Rightarrow> VersionNumber \<Rightarrow> StopWaitingFrame parser" where
  "ParseStopWaitingFrame packetNumber packetNumberLen version =
     pbind ReadByte (\<lambda>_. pbind (ReadUintN (GetByteOrder version) packetNumberLen) (\<lambda>leastUnackedDelta.
     pbind (pcheck (leastUnackedDelta \<ge> packetNumber) (QErr InvalidStopWaitingData)) (\<lambda>_.
       preturn \<lparr>sw_LeastUnacked = packetNumber - leastUnackedDelta,
         sw_PacketNumberLen = PacketNumberLenInvalid, sw_PacketNumber = 0\<rparr>)))"

section \<open>PATHS\<close>

text \<open>Durations are in nanoseconds; the wire carries microseconds.\<close>

record PathsFrame =
  pf_MaxNumPaths :: byte
  pf_NumPaths :: byte
  pf_PathIDs :: "PathID list"
  pf_RemoteRTTs :: "int list"

abbreviation Microsecond :: int where "Microsecond \<equiv> (1000 :: int)"

definition PathsFrame_Write :: "PathsFrame \<Rightarrow> VersionNumber \<Rightarrow> wresult" where
  "PathsFrame_Write f version = wseq [WriteByte 18, WriteByte (pf_MaxNumPaths f), WriteByte (pf_NumPaths f),
     (if unat (pf_NumPaths f) \<noteq> length (pf_PathIDs f)
        then Inl (Errorf ''PathsFrame: number of paths advertised and # of paths do not match'')
      else if length (pf_PathIDs f) \<noteq> length (pf_RemoteRTTs f)
        then Inl (Errorf ''PathsFrame: number of paths IDs and number of remote RTTs do not match'')
      else wseq (map (\<lambda>(pid, rtt). wseq [WriteByte pid,
             writeUfloat16 (GetByteOrder version) (word_of_int (quot rtt Microsecond))])
           (zip (pf_PathIDs f) (pf_RemoteRTTs f))))]"

fun ParsePathsFrame_loop :: "VersionNumber \<Rightarrow> nat \<Rightarrow> PathID list \<Rightarrow> int list \<Rightarrow> (PathID list \<times> int list) parser" where
  "ParsePathsFrame_loop version 0 ids rtts = preturn (ids, rtts)"
| "ParsePathsFrame_loop version (Suc n) ids rtts =
     pbind ReadByte (\<lambda>pathID. pbind (readUfloat16 (GetByteOrder version)) (\<lambda>remoteRTT.
       ParsePathsFrame_loop version n (ids @ [pathID]) (rtts @ [i64 (uint remoteRTT * Microsecond)])))"

definition ParsePathsFrame :: "VersionNumber \<Rightarrow> PathsFrame parser" where
  "ParsePathsFrame version =
     pbind ReadByte (\<lambda>_. pbind ReadByte (\<lambda>maxNum. pbind ReadByte (\<lambda>num.
     pbind (pcheck (num > maxNum) (Errorf ''PathsFrame: more paths than the maximum enabled'')) (\<lambda>_.
     pbind (ParsePathsFrame_loop version (unat num) [] []) (\<lambda>(ids, rtts).
       preturn \<lparr>pf_MaxNumPaths = maxNum, pf_NumPaths = num, pf_PathIDs = ids, pf_RemoteRTTs = rtts\<rparr>)))))"

text \<open>The length is computed in \<^verbatim>\<open>uint8\<close> and only then converted.\<close>

definition PathsFrame_MinLength :: "PathsFrame \<Rightarrow> VersionNumber \<Rightarrow> ByteCount result" where
  "PathsFrame_MinLength f version = Inr (ucast (1 + 1 + 1 + 3 * pf_NumPaths f))"

section \<open>ADD_ADDRESS\<close>

text \<open>
  The parts of \<^verbatim>\<open>net.UDPAddr\<close> and \<^verbatim>\<open>net.IP\<close> the frame uses: \<open>To4\<close> and \<open>To16\<close> convert
  between the 4-byte and the 16-byte form, \<open>IPv4\<close> builds the 16-byte form.
\<close>

record UDPAddr =
  addr_IP :: "byte list"
  addr_Port :: int

definition v4InV6Prefix :: "byte list" where
  "v4InV6Prefix = [0, 0, 0, 0, 0, 0, 0, 0, 0, 0, 255, 255]"

definition IPv4 :: "byte \<Rightarrow> byte \<Rightarrow> byte \<Rightarrow> byte \<Rightarrow> byte list" where
  "IPv4 a b c d = v4InV6Prefix @ [a, b, c, d]"

definition To4 :: "byte list \<Rightarrow> byte list option" where
  "To4 ip = (if length ip = 4 then Some ip
     else if length ip = 16 \<and> take 12 ip = v4InV6Prefix then Some (drop 12 ip) else None)"

definition To16 :: "byte list \<Rightarrow> byte list option" where
  "To16 ip = (if length ip = 4 then Some (v4InV6Prefix @ ip)
     else if length ip = 16 then Some ip else None)"

record AddAddressFrame =
  aa_IPVersion :: byte
  aa_Addr :: UDPAddr

abbreviation ErrUnknownIPVersion :: gerror where "ErrUnknownIPVersion \<equiv> Errorf ''AddAddressFrame: unknown IP version''"
abbreviation errInconsistentAddrIPVersion :: gerror where "errInconsistentAddrIPVersion \<equiv> Errorf ''internal inconsistency: Addr does not match IP version''"

definition AddAddressFrame_Write :: "AddAddressFrame \<Rightarrow> VersionNumber \<Rightarrow> wresult" where
  "AddAddressFrame_Write f version = wseq [WriteByte 16, WriteByte (aa_IPVersion f),
     (if aa_IPVersion f = 4 then
        (case To4 (addr_IP (aa_Addr f)) of None \<Rightarrow> Inl errInconsistentAddrIPVersion
         | Some ip \<Rightarrow> WriteBytes (take 4 ip))
      else if aa_IPVersion f = 6 then
        (case To16 (addr_IP (aa_Addr f)) of None \<Rightarrow> Inl errInconsistentAddrIPVersion
         | Some ip \<Rightarrow> WriteBytes (take 16 ip))
      else Inl ErrUnknownIPVersion),
     WriteUint16 (GetByteOrder version) (word_of_int (addr_Port (aa_Addr f)))]"

definition ParseAddAddressFrame :: "VersionNumber \<Rightarrow> AddAddressFrame parser" where
  "ParseAddAddressFrame version =
     pbind ReadByte (\<lambda>_. pbind ReadByte (\<lambda>ipv.
     pbind (if ipv = 4 then
              pbind ReadByte (\<lambda>a. pbind ReadByte (\<lambda>b. pbind ReadByte (\<lambda>c. pbind ReadByte (\<lambda>d.
                preturn (IPv4 a b c d)))))
            else if ipv = 6 then ReadFull 16
            else pfail ErrUnknownIPVersion) (\<lambda>ip.
     pbind (ReadUint16 (GetByteOrder version)) (\<lambda>port.
       preturn \<lparr>aa_IPVersion = ipv, aa_Addr = \<lparr>addr_IP = ip, addr_Port = uint port\<rparr>\<rparr>))))"

definition AddAddressFrame_MinLength :: "AddAddressFrame \<Rightarrow> VersionNumber \<Rightarrow> ByteCount result" where
  "AddAddressFrame_MinLength f version =
     (if aa_IPVersion f = 4 then Inr (1 + 1 + 4 + 2)
      else if aa_IPVersion f = 6 then Inr (1 + 1 + 16 + 2)
      else Inl ErrUnknownIPVersion)"

section \<open>The frame contract\<close>

text \<open>
  The contract of the Go interface \<^verbatim>\<open>Frame\<close> together with the parser of the frame type. A frame
  that is \<open>ok\<close> is written without an error; its parser returns what the peer is to see of it
  (\<open>received\<close>) and leaves exactly the bytes after it; and \<open>minlen\<close>, the size the packet packer
  reserves, is the size of what is written. A frame that is not \<open>delimited\<close> (a STREAM frame without
  a length field) extends to the end of the packet.
\<close>

locale frame_codec =
  fixes wr :: "'f \<Rightarrow> wresult" and minlen :: "'f \<Rightarrow> ByteCount result" and parse :: "'f parser"
    and ok :: "'f \<Rightarrow> bool" and delimited :: "'f \<Rightarrow> bool" and received :: "'f \<Rightarrow> 'f"
  assumes write_total: "ok f \<Longrightarrow> \<exists>bs. wr f = Inr bs"
    and parse_write: "ok f \<Longrightarrow> wr f = Inr bs \<Longrightarrow> delimited f \<or> r = [] \<Longrightarrow>
      parse (bs @ r) = Inr (received f, r)"
    and minlen_write: "ok f \<Longrightarrow> wr f = Inr bs \<Longrightarrow> minlen f = Inr (of_nat (length bs))"

interpretation rst: frame_codec "\<lambda>f. RstStreamFrame_Write f v" "\<lambda>f. RstStreamFrame_MinLength f v"
  "ParseRstStreamFrame v" "\<lambda>_. True" "\<lambda>_. True" "\<lambda>f. f" for v
  by unfold_locales
    (auto simp: RstStreamFrame_Write_def RstStreamFrame_MinLength_def ParseRstStreamFrame_def codec)

interpretation wu: frame_codec "\<lambda>f. WindowUpdateFrame_Write f v" "\<lambda>f. WindowUpdateFrame_MinLength f v"
  "ParseWindowUpdateFrame v" "\<lambda>_. True" "\<lambda>_. True" "\<lambda>f. f" for v
  by unfold_locales
    (auto simp: WindowUpdateFrame_Write_def WindowUpdateFrame_MinLength_def ParseWindowUpdateFrame_def codec)

interpretation blocked: frame_codec "\<lambda>f. BlockedFrame_Write f v" "\<lambda>f. BlockedFrame_MinLength f v"
  "ParseBlockedFrame v" "\<lambda>_. True" "\<lambda>_. True" "\<lambda>f. f" for v
  by unfold_locales
    (auto simp: BlockedFrame_Write_def BlockedFrame_MinLength_def ParseBlockedFrame_def codec)

lemma PingFrame_unique [simp]: "PingFrame = f"
  by (cases f) simp

interpretation ping: frame_codec "\<lambda>f. PingFrame_Write f v" "\<lambda>f. PingFrame_MinLength f v"
  "ParsePingFrame v" "\<lambda>_. True" "\<lambda>_. True" "\<lambda>f. f" for v
  by unfold_locales
    (auto simp: PingFrame_Write_def PingFrame_MinLength_def ParsePingFrame_def)

subsection \<open>Frames with a reason phrase\<close>

lemma reason_len:
  assumes "length xs \<le> 1350"
  shows "unat (of_nat (length xs) :: u16) = length xs"
    and "\<not> (ucast MaxPacketSize :: u16) < of_nat (length xs)"
  using assms by (simp_all add: unat_of_nat word_less_nat_alt MaxPacketSize_def)

definition reason_ok :: "byte list \<Rightarrow> bool" where
  "reason_ok reason \<longleftrightarrow> length reason \<le> unat MaxPacketSize"

interpretation goaway: frame_codec "\<lambda>f. GoawayFrame_Write f v" "\<lambda>f. GoawayFrame_MinLength f v"
  "ParseGoawayFrame v" "\<lambda>f. reason_ok (ga_ReasonPhrase f)" "\<lambda>_. True" "\<lambda>f. f" for v
  by unfold_locales
    (auto simp: GoawayFrame_Write_def GoawayFrame_MinLength_def ParseGoawayFrame_def reason_ok_def
      MaxPacketSize_def [THEN arg_cong, of unat] reason_len codec)

interpretation cc: frame_codec "\<lambda>f. ConnectionCloseFrame_Write f v"
  "\<lambda>f. ConnectionCloseFrame_MinLength f v"
  "ParseConnectionCloseFrame v" "\<lambda>f. reason_ok (cc_ReasonPhrase f)" "\<lambda>_. True" "\<lambda>f. f" for v
  by unfold_locales
    (auto simp: ConnectionCloseFrame_Write_def ConnectionCloseFrame_MinLength_def
      ParseConnectionCloseFrame_def reason_ok_def
      MaxPacketSize_def [THEN arg_cong, of unat] reason_len codec)


subsection \<open>STOP_WAITING\<close>

text \<open>
  The frame is sent with the packet whose number and number length it carries, and is read with the
  number of that packet. The receiver only keeps \<open>LeastUnacked\<close>.
\<close>

definition sw_ok :: "PacketNumber \<Rightarrow> PacketNumberLen \<Rightarrow> StopWaitingFrame \<Rightarrow> bool" where
  "sw_ok pn len f \<longleftrightarrow> sw_PacketNumber f = pn \<and> sw_PacketNumberLen f = len \<and>
     len \<in> {PacketNumberLen1, PacketNumberLen2, PacketNumberLen4, PacketNumberLen6} \<and>
     0 < sw_LeastUnacked f \<and> sw_LeastUnacked f \<le> pn \<and>
     uint (pn - sw_LeastUnacked f) < 2 ^ (8 * unat len)"

definition sw_received :: "StopWaitingFrame \<Rightarrow> StopWaitingFrame" where
  "sw_received f = \<lparr>sw_LeastUnacked = sw_LeastUnacked f, sw_PacketNumberLen = PacketNumberLenInvalid,
     sw_PacketNumber = 0\<rparr>"

lemma take_bit_ucast:
  "ucast (ucast (w :: u64) :: byte) = take_bit 8 w"
  "ucast (ucast (w :: u64) :: u16) = take_bit 16 w"
  "ucast (ucast (w :: u64) :: u32) = take_bit 32 w"
  by (rule bit_word_eqI; auto simp: bit_simps)+

lemma mask48: "(w :: u64) AND 281474976710655 = take_bit 48 w"
  by (simp add: take_bit_eq_mask mask_eq_decr_exp)

lemma fits48:
  assumes "uint (w :: u64) < 281474976710656"
  shows "take_bit 48 w = w" "w < 281474976710656" "\<not> 281474976710656 \<le> w"
  using assms by (simp_all add: take_bit_small word_less_def word_le_def)

lemma sw_delta_less:
  assumes "0 < (l :: u64)" "l \<le> pn"
  shows "pn - l < pn"
proof -
  have "unat (pn - l) = unat pn - unat l" using assms by (simp add: unat_minus_le)
  moreover have "0 < unat l" "unat l \<le> unat pn" using assms by (simp_all add: word_less_nat_alt word_le_nat_alt)
  ultimately show ?thesis by (simp add: word_less_nat_alt)
qed

lemma sw_write:
  assumes "sw_ok pn len f"
  shows "StopWaitingFrame_Write f v =
    Inr (6 # enc_bytes (GetByteOrder v) (unat len) (pn - sw_LeastUnacked f))"
proof -
  have "pn \<noteq> 0" using assms by (auto simp: sw_ok_def)
  then show ?thesis using assms
    by (auto simp: sw_ok_def StopWaitingFrame_Write_def Let_def not_less codec mask48 fits48 take_bit_small
      take_bit_ucast bo.enc_one [simplified])
qed

interpretation sw: frame_codec "\<lambda>f. StopWaitingFrame_Write f v" "\<lambda>f. StopWaitingFrame_MinLength f v"
  "ParseStopWaitingFrame pn len v" "sw_ok pn len" "\<lambda>_. True" sw_received for pn len v
proof unfold_locales
  fix f bs r assume ok: "sw_ok pn len f"
  show "\<exists>bs. StopWaitingFrame_Write f v = Inr bs"
    using sw_write [OF ok] by simp
  assume w: "StopWaitingFrame_Write f v = Inr bs"
  show "StopWaitingFrame_MinLength f v = Inr (of_nat (length bs))"
    using sw_write [OF ok] w ok by (auto simp: StopWaitingFrame_MinLength_def sw_ok_def)
  have len: "len \<in> {1, 2, 4, 6}" and le: "0 < sw_LeastUnacked f" "sw_LeastUnacked f \<le> pn"
    and fits: "uint (pn - sw_LeastUnacked f) < 2 ^ (8 * unat len)"
    using ok by (auto simp: sw_ok_def)
  have "ReadUintN (GetByteOrder v) len (enc_bytes (GetByteOrder v) (unat len) (pn - sw_LeastUnacked f) @ r)
    = Inr (pn - sw_LeastUnacked f, r)"
    using len fits by (auto simp: codec take_bit_small)
  then show "ParseStopWaitingFrame pn len v (bs @ r) = Inr (sw_received f, r)"
    using sw_write [OF ok, of v] w sw_delta_less [OF le]
    by (simp add: ParseStopWaitingFrame_def sw_received_def not_le [symmetric])
qed


subsection \<open>PATHS\<close>

text \<open>
  The remote round-trip times are sent in microseconds and in the 16-bit floating point format. The
  length the packer reserves is computed in eight bits, so it is only right up to 84 paths.
\<close>

definition wire_rtt :: "int \<Rightarrow> int" where
  "wire_rtt rtt = i64 (uint (ufloat16_decode (ufloat16_encode (word_of_int (quot rtt Microsecond)))) * Microsecond)"

definition paths_ok :: "PathsFrame \<Rightarrow> bool" where
  "paths_ok f \<longleftrightarrow> length (pf_PathIDs f) = unat (pf_NumPaths f) \<and> length (pf_RemoteRTTs f) = unat (pf_NumPaths f)
     \<and> pf_NumPaths f \<le> pf_MaxNumPaths f \<and> unat (pf_NumPaths f) \<le> 84"

definition paths_received :: "PathsFrame \<Rightarrow> PathsFrame" where
  "paths_received f = f\<lparr>pf_RemoteRTTs := map wire_rtt (pf_RemoteRTTs f)\<rparr>"

definition paths_entries :: "VersionNumber \<Rightarrow> (PathID \<times> int) list \<Rightarrow> byte list" where
  "paths_entries v ps = concat (map (\<lambda>(pid, rtt). pid # enc_bytes (GetByteOrder v) 2
     (ucast (ufloat16_encode (word_of_int (quot rtt Microsecond))))) ps)"

lemma wseq_all_Inr: "wseq (map (\<lambda>(a, b). Inr (g a b)) xs) = Inr (concat (map (\<lambda>(a, b). g a b) xs))"
  by (induction xs) auto

lemma length_paths_entries [simp]: "length (paths_entries v ps) = 3 * length ps"
  by (induction ps) (auto simp: paths_entries_def)

lemma paths_write:
  assumes "length (pf_PathIDs f) = unat (pf_NumPaths f)" "length (pf_RemoteRTTs f) = unat (pf_NumPaths f)"
  shows "PathsFrame_Write f v = Inr (18 # pf_MaxNumPaths f # pf_NumPaths f
    # paths_entries v (zip (pf_PathIDs f) (pf_RemoteRTTs f)))"
  using assms
  by (simp add: PathsFrame_Write_def writeUfloat16_def codec paths_entries_def wseq_all_Inr)

lemma ParsePathsFrame_loop_entries:
  "length pids = n \<Longrightarrow> length rs = n \<Longrightarrow>
   ParsePathsFrame_loop v n ids rtts (paths_entries v (zip pids rs) @ r)
     = Inr ((ids @ pids, rtts @ map wire_rtt rs), r)"
proof (induction n arbitrary: pids rs ids rtts)
  case 0
  then show ?case by (simp add: paths_entries_def)
next
  case (Suc n)
  then obtain p ps q qs where [simp]: "pids = p # ps" "rs = q # qs"
    by (metis length_Suc_conv)
  show ?case using Suc.IH [of ps qs "ids @ [p]" "rtts @ [wire_rtt q]"] Suc.prems
    by (simp add: paths_entries_def readUfloat16_def codec wire_rtt_def)
qed

interpretation paths: frame_codec "\<lambda>f. PathsFrame_Write f v" "\<lambda>f. PathsFrame_MinLength f v"
  "ParsePathsFrame v" paths_ok "\<lambda>_. True" paths_received for v
proof unfold_locales
  fix f :: PathsFrame and bs r assume ok: "paths_ok f"
  note w = paths_write [of f v] ok [unfolded paths_ok_def]
  show "\<exists>bs. PathsFrame_Write f v = Inr bs" using w by simp
  assume bs: "PathsFrame_Write f v = Inr bs"
  show "ParsePathsFrame v (bs @ r) = Inr (paths_received f, r)"
    using bs w ParsePathsFrame_loop_entries [of "pf_PathIDs f" "unat (pf_NumPaths f)" "pf_RemoteRTTs f" v "[]" "[]" r]
    by (auto simp: ParsePathsFrame_def paths_received_def not_less)
  have "unat (1 + 1 + 1 + 3 * pf_NumPaths f) = 3 + 3 * unat (pf_NumPaths f)"
    using w(2) by (simp add: unat_word_ariths)
  then have "ucast (1 + 1 + 1 + 3 * pf_NumPaths f) = (of_nat (3 + 3 * unat (pf_NumPaths f)) :: u64)"
    by (metis of_nat_unat)
  then show "PathsFrame_MinLength f v = Inr (of_nat (length bs))"
    using bs w by (auto simp: PathsFrame_MinLength_def)
qed

subsection \<open>ADD_ADDRESS\<close>

definition aa_ok :: "AddAddressFrame \<Rightarrow> bool" where
  "aa_ok f \<longleftrightarrow> (aa_IPVersion f = 4 \<and> To4 (addr_IP (aa_Addr f)) \<noteq> None \<or>
     aa_IPVersion f = 6 \<and> To16 (addr_IP (aa_Addr f)) \<noteq> None) \<and>
     0 \<le> addr_Port (aa_Addr f) \<and> addr_Port (aa_Addr f) < 2 ^ 16"

text \<open>The receiver sees the 16-byte form of the address, also of an IPv4 address.\<close>

definition aa_received :: "AddAddressFrame \<Rightarrow> AddAddressFrame" where
  "aa_received f = f\<lparr>aa_Addr := (aa_Addr f)\<lparr>addr_IP := the (To16 (addr_IP (aa_Addr f)))\<rparr>\<rparr>"

lemma length_To4: "To4 ip = Some x \<Longrightarrow> length x = 4"
  by (auto simp: To4_def split: if_splits)

lemma length_To16: "To16 ip = Some x \<Longrightarrow> length x = 16"
  by (auto simp: To16_def v4InV6Prefix_def split: if_splits)

lemma To16_of_To4: "To4 ip = Some x \<Longrightarrow> To16 ip = Some (v4InV6Prefix @ x)"
  by (auto simp: To4_def To16_def split: if_splits) (metis append_take_drop_id)

lemma length_four: "length xs = 4 \<longleftrightarrow> (\<exists>a b c d. xs = [a, b, c, d])"
  by (auto simp: numeral_eq_Suc length_Suc_conv)

lemma port_wire: "0 \<le> p \<Longrightarrow> p < 2 ^ 16 \<Longrightarrow> uint (word_of_int p :: u16) = p"
  by (simp add: uint_word_of_int)

interpretation aa: frame_codec "\<lambda>f. AddAddressFrame_Write f v" "\<lambda>f. AddAddressFrame_MinLength f v"
  "ParseAddAddressFrame v" aa_ok "\<lambda>_. True" aa_received for v
proof unfold_locales
  fix f :: AddAddressFrame and bs r assume ok: "aa_ok f"
  show "\<exists>bs. AddAddressFrame_Write f v = Inr bs"
    using ok by (auto simp: aa_ok_def AddAddressFrame_Write_def codec)
  assume bs: "AddAddressFrame_Write f v = Inr bs"
  show "AddAddressFrame_MinLength f v = Inr (of_nat (length bs))"
    using ok bs by (auto simp: aa_ok_def AddAddressFrame_Write_def AddAddressFrame_MinLength_def codec
      length_To4 length_To16)
  show "ParseAddAddressFrame v (bs @ r) = Inr (aa_received f, r)"
    using ok bs length_To4 [of "addr_IP (aa_Addr f)"] To16_of_To4 [of "addr_IP (aa_Addr f)"]
    by (auto simp: aa_ok_def AddAddressFrame_Write_def ParseAddAddressFrame_def codec length_To16
      length_four IPv4_def aa_received_def port_wire)
qed

end
