(* ===== verification/StreamFrames.thy ===== *)
theory StreamFrames
  imports Frames
begin

text \<open>
  The STREAM frame, \<^verbatim>\<open>internal/wire/stream_frame.go\<close>: the type byte carries the FIN bit, whether a
  length field is present, and the widths of the offset and of the stream number.
\<close>

section \<open>The frame and its operations\<close>

record StreamFrame =
  sf_StreamID :: StreamID
  sf_FinBit :: bool
  sf_DataLenPresent :: bool
  sf_Offset :: ByteCount
  sf_Data :: "byte list"

definition StreamFrame_DataLen :: "StreamFrame \<Rightarrow> ByteCount" where
  "StreamFrame_DataLen f = of_nat (length (sf_Data f))"

definition calculateStreamIDLength :: "StreamFrame \<Rightarrow> byte" where
  "calculateStreamIDLength f =
     (if sf_StreamID f < push_bit 8 1 then 1
      else if sf_StreamID f < push_bit 16 1 then 2
      else if sf_StreamID f < push_bit 24 1 then 3
      else 4)"

definition getOffsetLength :: "StreamFrame \<Rightarrow> ByteCount" where
  "getOffsetLength f =
     (if sf_Offset f = 0 then 0
      else if sf_Offset f < push_bit 16 1 then 2
      else if sf_Offset f < push_bit 24 1 then 3
      else if sf_Offset f < push_bit 32 1 then 4
      else if sf_Offset f < push_bit 40 1 then 5
      else if sf_Offset f < push_bit 48 1 then 6
      else if sf_Offset f < push_bit 56 1 then 7
      else 8)"

text \<open>What follows the type byte, given the flags and widths decoded from it; then the whole parser.\<close>

definition ParseStreamFrame_fields ::
  "VersionNumber \<Rightarrow> bool \<Rightarrow> bool \<Rightarrow> byte \<Rightarrow> byte \<Rightarrow> StreamFrame parser" where
  "ParseStreamFrame_fields version finBit dataLenPresent offsetLen streamIDLen =
     pbind (ReadUintN (GetByteOrder version) streamIDLen) (\<lambda>sid.
     pbind (ReadUintN (GetByteOrder version) offsetLen) (\<lambda>offset.
     pbind (if dataLenPresent then ReadUint16 (GetByteOrder version) else preturn 0) (\<lambda>dataLen0.
     pbind (pcheck (dataLen0 > ucast MaxPacketSize) (QErr InvalidStreamData)) (\<lambda>_.
     pbind (if dataLenPresent then preturn dataLen0 else pbind RLen (\<lambda>n. preturn (of_nat n))) (\<lambda>dataLen.
     pbind (if dataLen \<noteq> 0 then ReadFull (unat dataLen) else preturn []) (\<lambda>dat.
       let frame = \<lparr>sf_StreamID = ucast sid, sf_FinBit = finBit, sf_DataLenPresent = dataLenPresent,
                    sf_Offset = offset, sf_Data = dat\<rparr>
       in
     pbind (pcheck (sf_Offset frame + StreamFrame_DataLen frame < sf_Offset frame) (QErr InvalidStreamData)) (\<lambda>_.
     pbind (pcheck (\<not> sf_FinBit frame \<and> StreamFrame_DataLen frame = 0) (QErr EmptyStreamFrameNoFin)) (\<lambda>_.
       preturn frame))))))))"

definition ParseStreamFrame :: "VersionNumber \<Rightarrow> StreamFrame parser" where
  "ParseStreamFrame version =
     pbind ReadByte (\<lambda>typeByte.
       let finBit = typeByte AND 0x40 > 0;
           dataLenPresent = typeByte AND 0x20 > 0;
           offsetLen = drop_bit 2 (typeByte AND 0x1c);
           offsetLen' = (if offsetLen \<noteq> 0 then offsetLen + 1 else offsetLen);
           streamIDLen = (typeByte AND 0x3) + 1
       in ParseStreamFrame_fields version finBit dataLenPresent offsetLen' streamIDLen)"

text \<open>The type byte and the two fields of variable width, as the source writes them.\<close>

definition StreamFrame_typeByte :: "StreamFrame \<Rightarrow> byte" where
  "StreamFrame_typeByte f =
     (let t0 = 0x80 :: byte;
          t1 = (if sf_FinBit f then t0 XOR 0x40 else t0);
          t2 = (if sf_DataLenPresent f then t1 XOR 0x20 else t1);
          offsetLength = getOffsetLength f;
          t3 = (if offsetLength > 0 then t2 XOR push_bit 2 (ucast offsetLength - 1) else t2)
      in t3 XOR (calculateStreamIDLength f - 1))"

definition StreamFrame_writeStreamID :: "StreamFrame \<Rightarrow> VersionNumber \<Rightarrow> wresult" where
  "StreamFrame_writeStreamID f version =
     (let streamIDLen = calculateStreamIDLength f; bo = GetByteOrder version; sid = sf_StreamID f in
      if streamIDLen = 1 then WriteByte (ucast sid)
      else if streamIDLen = 2 then WriteUint16 bo (ucast sid)
      else if streamIDLen = 3 then WriteUint24 bo sid
      else if streamIDLen = 4 then WriteUint32 bo sid
      else Inl (Errorf ''StreamFrame: Invalid StreamID length''))"

definition StreamFrame_writeOffset :: "StreamFrame \<Rightarrow> VersionNumber \<Rightarrow> wresult" where
  "StreamFrame_writeOffset f version =
     (let offsetLength = getOffsetLength f; bo = GetByteOrder version; off = sf_Offset f in
      if offsetLength = 0 then Inr []
      else if offsetLength = 2 then WriteUint16 bo (ucast off)
      else if offsetLength = 3 then WriteUint24 bo (ucast off)
      else if offsetLength = 4 then WriteUint32 bo (ucast off)
      else if offsetLength = 5 then WriteUint40 bo off
      else if offsetLength = 6 then WriteUint48 bo off
      else if offsetLength = 7 then WriteUint56 bo off
      else if offsetLength = 8 then WriteUint64 bo off
      else Inl (Errorf ''StreamFrame: Invalid offset length''))"

definition StreamFrame_Write :: "StreamFrame \<Rightarrow> VersionNumber \<Rightarrow> wresult" where
  "StreamFrame_Write f version =
     (if length (sf_Data f) = 0 \<and> \<not> sf_FinBit f
      then Inl (Errorf ''StreamFrame: attempting to write empty frame without FIN'')
      else wseq [WriteByte (StreamFrame_typeByte f), StreamFrame_writeStreamID f version,
        StreamFrame_writeOffset f version,
        (if sf_DataLenPresent f
         then WriteUint16 (GetByteOrder version) (of_nat (length (sf_Data f))) else Inr []),
        WriteBytes (sf_Data f)])"

text \<open>\<open>MinLength\<close> is the length of the header only.\<close>

definition StreamFrame_MinLength :: "StreamFrame \<Rightarrow> VersionNumber \<Rightarrow> ByteCount result" where
  "StreamFrame_MinLength f version =
     Inr (let l = 1 + ucast (calculateStreamIDLength f) + getOffsetLength f
          in if sf_DataLenPresent f then l + 2 else l)"

section \<open>Widths\<close>

text \<open>The widths chosen are the ones the value fits, and the type byte carries them.\<close>

lemma streamIDLength_cases:
  "(calculateStreamIDLength f, uint (sf_StreamID f) < 2 ^ 8) = (1, True) \<or>
   (calculateStreamIDLength f, uint (sf_StreamID f) < 2 ^ 16) = (2, True) \<or>
   (calculateStreamIDLength f, uint (sf_StreamID f) < 2 ^ 24) = (3, True) \<or>
   calculateStreamIDLength f = 4"
  by (auto simp: calculateStreamIDLength_def word_less_def)

lemma offsetLength_cases:
  "(getOffsetLength f, sf_Offset f = 0) = (0, True) \<or>
   (getOffsetLength f, uint (sf_Offset f) < 2 ^ 16) = (2, True) \<or>
   (getOffsetLength f, uint (sf_Offset f) < 2 ^ 24) = (3, True) \<or>
   (getOffsetLength f, uint (sf_Offset f) < 2 ^ 32) = (4, True) \<or>
   (getOffsetLength f, uint (sf_Offset f) < 2 ^ 40) = (5, True) \<or>
   (getOffsetLength f, uint (sf_Offset f) < 2 ^ 48) = (6, True) \<or>
   (getOffsetLength f, uint (sf_Offset f) < 2 ^ 56) = (7, True) \<or>
   getOffsetLength f = 8"
  by (auto simp: getOffsetLength_def word_less_def)

lemma typeByte_fields:
  "(StreamFrame_typeByte f AND 0x40 > 0) = sf_FinBit f"
  "(StreamFrame_typeByte f AND 0x20 > 0) = sf_DataLenPresent f"
  "(StreamFrame_typeByte f AND 0x3) + 1 = calculateStreamIDLength f"
  "drop_bit 2 (StreamFrame_typeByte f AND 0x1c) =
     (if getOffsetLength f = 0 then 0 else ucast (getOffsetLength f) - 1)"
  "StreamFrame_typeByte f AND 0x80 = 0x80"
  using streamIDLength_cases [of f] offsetLength_cases [of f]
  by (cases "sf_FinBit f"; cases "sf_DataLenPresent f"; force simp: StreamFrame_typeByte_def Let_def)+

lemma enc_bytes_0 [simp]: "enc_bytes b 0 w = []"
  by (cases b) (simp_all add: le_bytes_def)

lemma writeStreamID_enc:
  "StreamFrame_writeStreamID f v =
     Inr (enc_bytes (GetByteOrder v) (unat (calculateStreamIDLength f)) (ucast (sf_StreamID f)))"
proof -
  have sid: "uint (sf_StreamID f) < 2 ^ 24 \<Longrightarrow> sf_StreamID f < 16777216"
    by (simp add: word_less_def)
  have trunc2: "ucast (ucast (sf_StreamID f) :: u16) = (ucast (sf_StreamID f) :: u64)" if "uint (sf_StreamID f) < 2 ^ 16"
    using that by (simp add: word_uint_eq_iff unsigned_ucast_eq take_bit_small)
  show ?thesis
    using streamIDLength_cases [of f] sid trunc2
    by (auto simp: StreamFrame_writeStreamID_def Let_def codec byte_of_ucast bo.enc_one [simplified])
qed

lemma readStreamID_enc:
  "ReadUintN (GetByteOrder v) (calculateStreamIDLength f)
     (enc_bytes (GetByteOrder v) (unat (calculateStreamIDLength f)) (ucast (sf_StreamID f)) @ r)
   = Inr (ucast (sf_StreamID f), r)"
  using streamIDLength_cases [of f] uint_lt2p [of "sf_StreamID f"]
  by (auto simp: codec take_bit_small)

lemma writeOffset_enc:
  "StreamFrame_writeOffset f v = Inr (enc_bytes (GetByteOrder v) (unat (getOffsetLength f)) (sf_Offset f))"
proof -
  note le = word_less_def [of "sf_Offset f"]
  have u: "uint (sf_Offset f) < 2 ^ 24 \<Longrightarrow> (ucast (sf_Offset f) :: u32) < 16777216"
    by (simp add: word_less_def unsigned_ucast_eq take_bit_int_eq_self)
  have t: "uint (sf_Offset f) < 2 ^ 24 \<Longrightarrow> ucast (ucast (sf_Offset f) :: u32) = sf_Offset f"
    by (simp add: take_bit_ucast take_bit_small)
  show ?thesis
    using offsetLength_cases [of f] u t
    by (auto simp: StreamFrame_writeOffset_def Let_def codec le take_bit_ucast take_bit_small)
qed

lemma readOffset_enc:
  "ReadUintN (GetByteOrder v) (ucast (getOffsetLength f))
     (enc_bytes (GetByteOrder v) (unat (getOffsetLength f)) (sf_Offset f) @ r)
   = Inr (sf_Offset f, r)"
  using offsetLength_cases [of f]
  by (auto simp: codec take_bit_small take_bit_full)

lemma offsetLen_decoded:
  "(if (if getOffsetLength f = 0 then 0 else ucast (getOffsetLength f) - 1) \<noteq> (0 :: byte)
    then (if getOffsetLength f = 0 then 0 else ucast (getOffsetLength f) - 1) + 1
    else (if getOffsetLength f = 0 then 0 else ucast (getOffsetLength f) - 1)) = (ucast (getOffsetLength f) :: byte)"
  using offsetLength_cases [of f] by auto

lemmas empty_rest = readOffset_enc [where r = "[]", simplified] bo.read16_enc [where k = 0, simplified]
  ReadFull_append [where r = "[]", simplified]

lemma pbind_ReadByte: "pbind ReadByte g (b # r) = g b r"
  by simp

lemma ucast_sid [simp]: "ucast (ucast (s :: u32) :: u64) = s"
  by (rule bit_word_eqI) (auto simp: bit_simps)

lemma ParseStreamFrame_typeByte:
  "ParseStreamFrame v (StreamFrame_typeByte f # r) =
     ParseStreamFrame_fields v (sf_FinBit f) (sf_DataLenPresent f) (ucast (getOffsetLength f))
       (calculateStreamIDLength f) r"
  unfolding ParseStreamFrame_def Let_def
  by (subst pbind_ReadByte) (simp only: typeByte_fields offsetLen_decoded)

section \<open>The contract\<close>

definition sf_ok :: "StreamFrame \<Rightarrow> bool" where
  "sf_ok f \<longleftrightarrow> (sf_Data f \<noteq> [] \<or> sf_FinBit f) \<and> length (sf_Data f) \<le> unat MaxPacketSize
     \<and> unat (sf_Offset f) + length (sf_Data f) < 2 ^ 64"

definition StreamFrame_size :: "StreamFrame \<Rightarrow> VersionNumber \<Rightarrow> ByteCount result" where
  "StreamFrame_size f v = rbind (StreamFrame_MinLength f v) (\<lambda>l. Inr (l + StreamFrame_DataLen f))"

lemma unat_MaxPacketSize [simp]: "unat MaxPacketSize = 1350"
  by (simp add: MaxPacketSize_def)

lemma sf_write:
  assumes "sf_ok f"
  shows "StreamFrame_Write f v = Inr (StreamFrame_typeByte f #
      enc_bytes (GetByteOrder v) (unat (calculateStreamIDLength f)) (ucast (sf_StreamID f)) @
      enc_bytes (GetByteOrder v) (unat (getOffsetLength f)) (sf_Offset f) @
      (if sf_DataLenPresent f then enc_bytes (GetByteOrder v) 2 (ucast (of_nat (length (sf_Data f)) :: u16)) else []) @
      sf_Data f)"
  using assms by (auto simp: sf_ok_def StreamFrame_Write_def writeStreamID_enc writeOffset_enc codec)

lemma dataLen_checks:
  assumes "sf_ok f"
  shows "\<not> sf_Offset f + StreamFrame_DataLen f < sf_Offset f"
    and "\<not> (\<not> sf_FinBit f \<and> StreamFrame_DataLen f = 0)"
    and "unat (of_nat (length (sf_Data f)) :: u16) = length (sf_Data f)"
    and "\<not> of_nat (length (sf_Data f)) > (ucast MaxPacketSize :: u16)"
proof -
  have l: "length (sf_Data f) \<le> 1350" using assms by (simp add: sf_ok_def)
  then have d: "unat (StreamFrame_DataLen f) = length (sf_Data f)"
    by (simp add: StreamFrame_DataLen_def unat_of_nat)
  then have "unat (sf_Offset f + StreamFrame_DataLen f) = unat (sf_Offset f) + length (sf_Data f)"
    using assms by (subst unat_plus_less) (simp_all add: sf_ok_def)
  then show "\<not> sf_Offset f + StreamFrame_DataLen f < sf_Offset f"
    by (simp add: word_less_nat_alt)
  show "\<not> (\<not> sf_FinBit f \<and> StreamFrame_DataLen f = 0)"
    using d assms by (auto simp: sf_ok_def)
  show "unat (of_nat (length (sf_Data f)) :: u16) = length (sf_Data f)"
    and "\<not> of_nat (length (sf_Data f)) > (ucast MaxPacketSize :: u16)"
    using reason_len [OF l] by simp_all
qed

interpretation sf: frame_codec "\<lambda>f. StreamFrame_Write f v" "\<lambda>f. StreamFrame_size f v"
  "ParseStreamFrame v" sf_ok sf_DataLenPresent "\<lambda>f. f" for v
proof unfold_locales
  fix f bs and r :: "byte list" assume ok: "sf_ok f"
  show "\<exists>bs. StreamFrame_Write f v = Inr bs" using sf_write [OF ok] by blast
  assume w: "StreamFrame_Write f v = Inr bs"
  have "unat (calculateStreamIDLength f) + 0 = unat (ucast (calculateStreamIDLength f) :: u64)"
    using streamIDLength_cases [of f] by auto
  then show "StreamFrame_size f v = Inr (of_nat (length bs))"
    using w sf_write [OF ok, of v]
    by (auto simp: StreamFrame_size_def StreamFrame_MinLength_def StreamFrame_DataLen_def Let_def algebra_simps)
  assume d: "sf_DataLenPresent f \<or> r = []"
  have z: "(of_nat (length (sf_Data f)) :: u16) = 0 \<longleftrightarrow> sf_Data f = []"
    using dataLen_checks(3) [OF ok] by (auto simp: word_unat_eq_iff)
  note chk = dataLen_checks [OF ok] z
  note bs = w [unfolded sf_write [OF ok, of v], THEN Inr_inject, symmetric]
  show "ParseStreamFrame v (bs @ r) = Inr (f, r)"
    using chk d unfolding bs append_Cons ParseStreamFrame_typeByte
    by (cases "sf_DataLenPresent f"; cases "sf_Data f = []")
      (auto simp: ParseStreamFrame_fields_def Let_def readStreamID_enc readOffset_enc empty_rest codec
        StreamFrame_DataLen_def)
qed

section \<open>What the parser accepts\<close>

lemma pcheck_eq_Inr: "pcheck bad e bs = Inr (u, r) \<longleftrightarrow> \<not> bad \<and> r = bs"
  by auto

lemma ReadFull_eq_Inr: "ReadFull n bs = Inr (xs, r) \<longleftrightarrow> n \<le> length bs \<and> xs = take n bs \<and> r = drop n bs"
  by (auto simp: ReadFull_def)

lemma no_overflow_word:
  assumes "\<not> x + of_nat n < (x :: u64)" "n < 2 ^ 16"
  shows "unat x + n < 2 ^ 64"
proof -
  have "unat (of_nat n :: u64) = n" using assms(2) by (simp add: unat_of_nat)
  then show ?thesis using assms(1) no_olen_add_nat [of x "of_nat n"] by (simp add: not_less)
qed

lemma ParseStreamFrame_fields_accepted:
  assumes "ParseStreamFrame_fields v fin dlp ol sl bs = Inr (f, r)"
  shows "(sf_Data f \<noteq> [] \<or> sf_FinBit f) \<and> length (sf_Data f) < 2 ^ 16
    \<and> unat (sf_Offset f) + length (sf_Data f) < 2 ^ 64
    \<and> (sf_DataLenPresent f \<longrightarrow> length (sf_Data f) \<le> unat MaxPacketSize)"
proof -
  obtain dataLen r1 r2 where
    dl: "dlp \<longrightarrow> \<not> dataLen > ucast MaxPacketSize"
    and dat: "(if dataLen \<noteq> 0 then ReadFull (unat (dataLen :: u16)) else preturn []) r1 = Inr (sf_Data f, r2)"
    and fin: "\<not> (\<not> sf_FinBit f \<and> StreamFrame_DataLen f = 0)"
    and off: "\<not> sf_Offset f + StreamFrame_DataLen f < sf_Offset f"
    and dlp: "sf_DataLenPresent f = dlp"
    using assms unfolding ParseStreamFrame_fields_def Let_def pbind_eq_Inr pcheck_eq_Inr
    by (cases dlp) (auto simp: pbind_eq_Inr)
  have len: "length (sf_Data f) \<le> unat dataLen"
    using dat by (auto simp: ReadFull_eq_Inr split: if_splits)
  have l16: "length (sf_Data f) < 2 ^ 16"
    using len unsigned_less [of dataLen, where 'a = nat] by simp
  have "dlp \<longrightarrow> length (sf_Data f) \<le> unat MaxPacketSize"
    using len dl by (auto simp: word_less_nat_alt MaxPacketSize_def)
  moreover have "unat (sf_Offset f) + length (sf_Data f) < 2 ^ 64"
    using off l16 by (intro no_overflow_word) (simp_all add: StreamFrame_DataLen_def)
  ultimately show ?thesis
    using fin l16 dlp by (auto simp: StreamFrame_DataLen_def)
qed

text \<open>
  C19: A STREAM frame that is accepted, whatever bytes the peer sends, carries data or the FIN bit,
  ends below \<open>2 ^ 64\<close> (the end of its data does not overflow the offset type), and carries at most a
  packet's worth of data when its length is explicit.
\<close>

theorem stream_frame_accepted_in_range:
  assumes "ParseStreamFrame v bs = Inr (f, r)"
  shows "(sf_Data f \<noteq> [] \<or> sf_FinBit f) \<and> length (sf_Data f) < 2 ^ 16
    \<and> unat (sf_Offset f) + length (sf_Data f) < 2 ^ 64
    \<and> (sf_DataLenPresent f \<longrightarrow> length (sf_Data f) \<le> unat MaxPacketSize)"
  using assms ParseStreamFrame_fields_accepted
  unfolding ParseStreamFrame_def Let_def pbind_eq_Inr by blast

theorem stream_frame_accepted_in_range_witness:
  "ParseStreamFrame Version39 [0xe4, 5, 1, 2, 0, 2, 7, 8] =
     Inr (\<lparr>sf_StreamID = 5, sf_FinBit = True, sf_DataLenPresent = True, sf_Offset = 258, sf_Data = [7, 8]\<rparr>, [])
   \<and> unat (258 :: u64) + length [7 :: byte, 8] < 2 ^ 64"
proof -
  have p: "ParseStreamFrame Version39 [0xe4, 5, 1, 2, 0, 2, 7, 8] =
     Inr (\<lparr>sf_StreamID = 5, sf_FinBit = True, sf_DataLenPresent = True, sf_Offset = 258, sf_Data = [7, 8]\<rparr>, [])"
    by code_simp
  show ?thesis using p stream_frame_accepted_in_range [OF p] by simp
qed

end
