(* ===== verification/StreamSorter.thy ===== *)
theory StreamSorter
  imports Utils StreamFrames
begin

text \<open>
  Reassembly of a stream from STREAM frames (\<^verbatim>\<open>stream_frame_sorter.go\<close>): the list of gaps in the data
  received so far, the frames waiting to be read, and the read position. The linked list of gaps is a
  list from front to back; an element the code holds a pointer to is the list split at that element.
\<close>

section \<open>The sorter\<close>

record ByteInterval =
  bi_Start :: ByteCount
  bi_End :: ByteCount

record streamFrameSorter =
  sfs_queuedFrames :: "(ByteCount \<times> StreamFrame) list"
  sfs_readPosition :: ByteCount
  sfs_gaps :: "ByteInterval list"

definition protocol_MaxByteCount :: ByteCount where "protocol_MaxByteCount = 0xFFFFFFFFFFFFFFFF"
definition MaxStreamFrameSorterGaps :: nat where "MaxStreamFrameSorterGaps = 2500"

abbreviation errTooManyGapsInReceivedStreamData :: gerror where "errTooManyGapsInReceivedStreamData \<equiv> Errorf ''Too many gaps in received StreamFrame data''"
abbreviation errDuplicateStreamData :: gerror where "errDuplicateStreamData \<equiv> Errorf ''Duplicate Stream Data''"
abbreviation errEmptyStreamData :: gerror where "errEmptyStreamData \<equiv> Errorf ''Stream Data empty''"
abbreviation errNoGap :: gerror where "errNoGap \<equiv> Errorf ''StreamFrameSorter BUG: no gap found''"
abbreviation errNoEndGap :: gerror where "errNoEndGap \<equiv> Errorf ''StreamFrameSorter BUG: no end gap found''"
abbreviation errSliceBounds :: gerror where "errSliceBounds \<equiv> Panic ''slice bounds out of range''"

definition newStreamFrameSorter :: streamFrameSorter where
  "newStreamFrameSorter = \<lparr>sfs_queuedFrames = [], sfs_readPosition = 0,
     sfs_gaps = [\<lparr>bi_Start = 0, bi_End = protocol_MaxByteCount\<rparr>]\<rparr>"

text \<open>The gaps before the frame are skipped; the list is split at the gap that is found.\<close>

fun findGap :: "ByteCount \<Rightarrow> ByteCount \<Rightarrow> ByteInterval list
    \<Rightarrow> (ByteInterval list \<times> ByteInterval \<times> ByteInterval list) result" where
  "findGap start end' [] = Inl errNoGap"
| "findGap start end' (gap # gs) =
     (if end' \<le> bi_Start gap then Inl errDuplicateStreamData
      else if end' > bi_Start gap \<and> start \<le> bi_End gap then Inr ([], gap, gs)
      else rbind (findGap start end' gs) (\<lambda>(before, g, after). Inr (gap # before, g, after)))"

text \<open>
  The loop that looks for the last gap the frame reaches. \<open>same\<close>: \<open>endGap\<close> is still the first gap, which
  the loop never removes; otherwise \<open>kept\<close> says whether \<open>endGap\<close> is still an element of the list. \<open>rest\<close> are
  the elements behind it.
\<close>

record endGapResult =
  eg_found :: bool
  eg_endGap :: ByteInterval
  eg_same :: bool
  eg_kept :: bool
  eg_rest :: "ByteInterval list"
  eg_queued :: "(ByteCount \<times> StreamFrame) list"

fun endGap_loop :: "ByteCount \<Rightarrow> ByteInterval \<Rightarrow> bool \<Rightarrow> ByteInterval list \<Rightarrow> (ByteCount \<times> StreamFrame) list \<Rightarrow> endGapResult" where
  "endGap_loop end' endGap same [] queued =
     \<lparr>eg_found = (\<not> end' \<ge> bi_End endGap), eg_endGap = endGap, eg_same = same, eg_kept = True,
      eg_rest = [], eg_queued = queued\<rparr>"
| "endGap_loop end' endGap same (next # rest) queued =
     (if end' \<ge> bi_End endGap then
        if end' \<le> bi_Start next
        then \<lparr>eg_found = True, eg_endGap = endGap, eg_same = same, eg_kept = same,
              eg_rest = next # rest, eg_queued = queued\<rparr>
        else endGap_loop end' next False rest (AList.delete (bi_End endGap) queued)
      else \<lparr>eg_found = True, eg_endGap = endGap, eg_same = same, eg_kept = True,
            eg_rest = next # rest, eg_queued = queued\<rparr>)"

text \<open>The elements of the list that stand for \<open>gap\<close> and \<open>endGap\<close> afterwards.\<close>

definition adjustGaps :: "ByteCount \<Rightarrow> ByteCount \<Rightarrow> ByteInterval \<Rightarrow> endGapResult \<Rightarrow> ByteInterval list" where
  "adjustGaps start end' gap r =
     (let endGap = eg_endGap r; same = eg_same r; kept = eg_kept r in
      if start = bi_Start gap then
        if same then
          (if end' \<ge> bi_End gap then []
           else if end' < bi_End endGap then [gap\<lparr>bi_Start := end'\<rparr>] else [gap])
        else
          (if end' \<ge> bi_End gap then [] else [gap])
          @ (if kept then [if end' < bi_End endGap then endGap\<lparr>bi_Start := end'\<rparr> else endGap] else [])
      else if end' = bi_End endGap then
        gap\<lparr>bi_End := start\<rparr> # (if \<not> same \<and> kept then [endGap] else [])
      else if same then [gap\<lparr>bi_End := start\<rparr>, \<lparr>bi_Start = end', bi_End = bi_End gap\<rparr>]
      else gap\<lparr>bi_End := start\<rparr> # (if kept then [endGap\<lparr>bi_Start := end'\<rparr>] else []))"

text \<open>
  The last part of \<^verbatim>\<open>Push\<close>: the frame, which starts at its offset, is cut at its end, the gaps are adjusted and
  the frame is stored. A slice expression out of range is a panic.
\<close>

definition storeFrame :: "StreamFrame \<Rightarrow> ByteCount \<Rightarrow> ByteInterval list \<Rightarrow> ByteInterval \<Rightarrow> endGapResult
    \<Rightarrow> streamFrameSorter \<Rightarrow> streamFrameSorter outcome" where
  "storeFrame frame end' before gap r s =
     (let cutLen = (if end' > bi_End (eg_endGap r) then end' - bi_End (eg_endGap r) else 0);
          len = StreamFrame_DataLen frame - cutLen in
      if unat len > length (sf_Data frame)
      then fail_with errSliceBounds (s\<lparr>sfs_queuedFrames := eg_queued r,
             sfs_gaps := before @ gap # (if \<not> eg_same r \<and> eg_kept r then [eg_endGap r] else []) @ eg_rest r\<rparr>)
      else
        let frame' = frame\<lparr>sf_Data := take (unat len) (sf_Data frame)\<rparr>;
            gaps = before @ adjustGaps (sf_Offset frame) (end' - cutLen) gap r @ eg_rest r in
        if length gaps > MaxStreamFrameSorterGaps
        then fail_with errTooManyGapsInReceivedStreamData (s\<lparr>sfs_queuedFrames := eg_queued r, sfs_gaps := gaps\<rparr>)
        else done_ok (s\<lparr>sfs_queuedFrames := AList.update (sf_Offset frame') frame' (eg_queued r),
                        sfs_gaps := gaps\<rparr>))"

text \<open>Dropping the first \<open>k\<close> bytes of a frame.\<close>

definition cutFront :: "ByteCount \<Rightarrow> StreamFrame \<Rightarrow> StreamFrame" where
  "cutFront k frame = frame\<lparr>sf_Offset := sf_Offset frame + k, sf_Data := drop (unat k) (sf_Data frame)\<rparr>"

text \<open>The part between: the frame is cut at its front, and the last gap it reaches is looked for.\<close>

definition insertFrame :: "StreamFrame \<Rightarrow> ByteCount \<Rightarrow> ByteInterval list \<Rightarrow> ByteInterval \<Rightarrow> ByteInterval list
    \<Rightarrow> streamFrameSorter \<Rightarrow> streamFrameSorter outcome" where
  "insertFrame frame end' before gap after s =
     (let add = (if sf_Offset frame < bi_Start gap then bi_Start gap - sf_Offset frame else 0) in
      if unat add > length (sf_Data frame) then fail_with errSliceBounds s
      else
        let r = endGap_loop end' gap True after (sfs_queuedFrames s) in
        if eg_found r
        then storeFrame (cutFront add frame) end' before gap r s
        else fail_with errNoEndGap (s\<lparr>sfs_queuedFrames := eg_queued r,
               sfs_gaps := before @ gap # (if eg_same r then [] else [eg_endGap r])\<rparr>))"

text \<open>\<^verbatim>\<open>Push\<close> after the cut against a queued frame with the same offset.\<close>

definition pushFrame :: "StreamFrame \<Rightarrow> streamFrameSorter \<Rightarrow> streamFrameSorter outcome" where
  "pushFrame frame s =
     (let end' = sf_Offset frame + StreamFrame_DataLen frame in
      case findGap (sf_Offset frame) end' (sfs_gaps s) of
        Inl e \<Rightarrow> fail_with e s
      | Inr (before, gap, after) \<Rightarrow> insertFrame frame end' before gap after s)"

definition streamFrameSorter_Push :: "StreamFrame \<Rightarrow> streamFrameSorter \<Rightarrow> streamFrameSorter outcome" where
  "streamFrameSorter_Push frame s =
     (if StreamFrame_DataLen frame = 0 then
        if sf_FinBit frame
        then done_ok (s\<lparr>sfs_queuedFrames := AList.update (sf_Offset frame) frame (sfs_queuedFrames s)\<rparr>)
        else fail_with errEmptyStreamData s
      else case map_of (sfs_queuedFrames s) (sf_Offset frame) of
          None \<Rightarrow> pushFrame frame s
        | Some oldFrame \<Rightarrow>
            if StreamFrame_DataLen frame \<le> StreamFrame_DataLen oldFrame then fail_with errDuplicateStreamData s
            else pushFrame (cutFront (StreamFrame_DataLen oldFrame) frame) s)"

definition streamFrameSorter_Head :: "streamFrameSorter \<Rightarrow> StreamFrame option" where
  "streamFrameSorter_Head s = map_of (sfs_queuedFrames s) (sfs_readPosition s)"

definition streamFrameSorter_Pop :: "streamFrameSorter \<Rightarrow> StreamFrame option \<times> streamFrameSorter" where
  "streamFrameSorter_Pop s =
     (case streamFrameSorter_Head s of
        None \<Rightarrow> (None, s)
      | Some frame \<Rightarrow> (Some frame,
          s\<lparr>sfs_readPosition := sfs_readPosition s + StreamFrame_DataLen frame,
            sfs_queuedFrames := AList.delete (sf_Offset frame) (sfs_queuedFrames s)\<rparr>))"

section \<open>Frames of a stream\<close>

text \<open>A frame that carries bytes of the stream \<open>c\<close> at its offset, within the range of offsets.\<close>

definition frame_in :: "(nat \<Rightarrow> byte) \<Rightarrow> StreamFrame \<Rightarrow> bool" where
  "frame_in c f \<longleftrightarrow> unat (sf_Offset f) + length (sf_Data f) < 2 ^ 64
     \<and> (\<forall>i<length (sf_Data f). sf_Data f ! i = c (unat (sf_Offset f) + i))"

definition queue_in :: "(nat \<Rightarrow> byte) \<Rightarrow> (ByteCount \<times> StreamFrame) list \<Rightarrow> bool" where
  "queue_in c q \<longleftrightarrow> (\<forall>k f. map_of q k = Some f \<longrightarrow> sf_Offset f = k \<and> frame_in c f)"

lemma unat_DataLen: "frame_in c f \<Longrightarrow> unat (StreamFrame_DataLen f) = length (sf_Data f)"
  by (simp add: frame_in_def StreamFrame_DataLen_def unat_of_nat)

lemma unat_end: "frame_in c f \<Longrightarrow> unat (sf_Offset f + StreamFrame_DataLen f) = unat (sf_Offset f) + length (sf_Data f)"
  using unat_DataLen [of c f] by (subst unat_plus_less) (simp_all add: frame_in_def)

lemma frame_in_drop:
  assumes "frame_in c f" "unat k \<le> length (sf_Data f)"
  shows "frame_in c (cutFront k f)"
proof -
  have "unat (sf_Offset f + k) = unat (sf_Offset f) + unat k"
    using assms by (intro unat_plus_less) (simp add: frame_in_def)
  then show ?thesis using assms by (auto simp: frame_in_def cutFront_def add.assoc)
qed

lemma frame_in_take: "frame_in c f \<Longrightarrow> frame_in c (f\<lparr>sf_Data := take n (sf_Data f)\<rparr>)"
  by (auto simp: frame_in_def)

lemma queue_in_update: "queue_in c q \<Longrightarrow> frame_in c f \<Longrightarrow> queue_in c (AList.update (sf_Offset f) f q)"
  by (simp add: queue_in_def)

lemma queue_in_delete: "queue_in c q \<Longrightarrow> queue_in c (AList.delete k q)"
  by (simp add: queue_in_def)

lemma endGap_loop_queue: "queue_in c q \<Longrightarrow> queue_in c (eg_queued (endGap_loop e g same rest q))"
  by (induction e g same rest q rule: endGap_loop.induct) (simp_all add: queue_in_delete)

lemma storeFrame_queue:
  assumes "queue_in c (eg_queued r)" "frame_in c frame"
  shows "queue_in c (sfs_queuedFrames (snd (storeFrame frame e before gap r s)))"
    "sfs_readPosition (snd (storeFrame frame e before gap r s)) = sfs_readPosition s"
proof -
  have u: "queue_in c (AList.update (sf_Offset frame) (frame\<lparr>sf_Data := take n (sf_Data frame)\<rparr>) (eg_queued r))" for n
    using queue_in_update [OF assms(1) frame_in_take [OF assms(2)], of n] by simp
  show "queue_in c (sfs_queuedFrames (snd (storeFrame frame e before gap r s)))"
    "sfs_readPosition (snd (storeFrame frame e before gap r s)) = sfs_readPosition s"
    using assms(1) u by (simp_all add: storeFrame_def Let_def)
qed

lemma pushFrame_queue:
  assumes "queue_in c (sfs_queuedFrames s)" "frame_in c frame"
  shows "queue_in c (sfs_queuedFrames (snd (pushFrame frame s)))
    \<and> sfs_readPosition (snd (pushFrame frame s)) = sfs_readPosition s"
proof -
  have d: "frame_in c (cutFront add frame)" if "\<not> unat add > length (sf_Data frame)" for add
    using frame_in_drop [OF assms(2)] that by simp
  have "queue_in c (sfs_queuedFrames (snd (insertFrame frame e b g a s)))
      \<and> sfs_readPosition (snd (insertFrame frame e b g a s)) = sfs_readPosition s" for e b g a
    unfolding insertFrame_def Let_def
    using assms(1) endGap_loop_queue [OF assms(1)] storeFrame_queue [OF endGap_loop_queue [OF assms(1)] d] by simp
  then show ?thesis using assms(1) by (auto simp: pushFrame_def Let_def split: sum.splits)
qed

lemma Push_queue:
  assumes "queue_in c (sfs_queuedFrames s)" "frame_in c frame"
  shows "queue_in c (sfs_queuedFrames (snd (streamFrameSorter_Push frame s)))
    \<and> sfs_readPosition (snd (streamFrameSorter_Push frame s)) = sfs_readPosition s"
proof -
  have old: "frame_in c (cutFront (StreamFrame_DataLen f) frame)"
    if "\<not> StreamFrame_DataLen frame \<le> StreamFrame_DataLen f" for f
    using frame_in_drop [OF assms(2), of "StreamFrame_DataLen f"] that unat_DataLen [OF assms(2)]
    by (simp add: word_le_nat_alt not_le)
  show ?thesis
    using assms queue_in_update [OF assms] pushFrame_queue [OF assms(1)] old
    by (auto simp: streamFrameSorter_Push_def split: option.splits)
qed


section \<open>The gaps\<close>

definition gap_set :: "ByteInterval list \<Rightarrow> nat set" where
  "gap_set gs = (\<Union>g\<in>set gs. {unat (bi_Start g)..<unat (bi_End g)})"

text \<open>Non-empty gaps in ascending order, with received bytes between them.\<close>

fun gaps_asc :: "ByteInterval list \<Rightarrow> bool" where
  "gaps_asc [] \<longleftrightarrow> True"
| "gaps_asc (g # gs) \<longleftrightarrow> unat (bi_Start g) < unat (bi_End g) \<and> (\<forall>h\<in>set gs. unat (bi_End g) < unat (bi_Start h)) \<and> gaps_asc gs"

lemma gap_set_simps [simp]:
  "gap_set [] = {}" "gap_set (g # gs) = {unat (bi_Start g)..<unat (bi_End g)} \<union> gap_set gs"
  "gap_set (gs @ hs) = gap_set gs \<union> gap_set hs"
  by (auto simp: gap_set_def)

lemma gaps_asc_append:
  "gaps_asc (gs @ hs) \<longleftrightarrow> gaps_asc gs \<and> gaps_asc hs \<and> (\<forall>g\<in>set gs. \<forall>h\<in>set hs. unat (bi_End g) < unat (bi_Start h))"
  by (induction gs) auto

lemma gaps_asc_nonempty: "gaps_asc gs \<Longrightarrow> g \<in> set gs \<Longrightarrow> unat (bi_Start g) < unat (bi_End g)"
  by (induction gs) auto

lemma findGap_spec:
  assumes "gaps_asc gs" "unat start < unat end'"
  shows "case findGap start end' gs of
      Inr (before, g, after) \<Rightarrow> gs = before @ g # after \<and> unat (bi_Start g) < unat end' \<and> unat start \<le> unat (bi_End g)
        \<and> (\<forall>h\<in>set before. unat (bi_End h) < unat start)
    | Inl e \<Rightarrow> (e = errDuplicateStreamData \<and> {unat start..<unat end'} \<inter> gap_set gs = {})
        \<or> (e = errNoGap \<and> (\<forall>h\<in>set gs. unat (bi_End h) < unat start))"
  using assms(1)
proof (induction gs)
  case (Cons g gs)
  have d: "gaps_asc gs" "unat (bi_Start g) < unat (bi_End g)" "\<forall>h\<in>set gs. unat (bi_End g) < unat (bi_Start h)"
    using Cons.prems by auto
  note IH = Cons.IH [OF d(1)]
  consider (dup) "unat end' \<le> unat (bi_Start g)"
    | (found) "unat (bi_Start g) < unat end'" "unat start \<le> unat (bi_End g)"
    | (skip) "unat (bi_End g) < unat start" by linarith
  then show ?case
  proof cases
    case dup
    have "x \<notin> gap_set (g # gs)" if "x < unat end'" for x
    proof
      assume "x \<in> gap_set (g # gs)"
      then obtain h where "h \<in> set (g # gs)" "unat (bi_Start h) \<le> x" by (auto simp: gap_set_def)
      then show False using that dup d(2,3) by fastforce
    qed
    then have "{unat start..<unat end'} \<inter> gap_set (g # gs) = {}" by auto
    then show ?thesis using dup by (simp add: word_le_nat_alt)
  next
    case found
    then show ?thesis by (simp add: word_le_nat_alt word_less_nat_alt)
  next
    case skip
    have f: "findGap start end' (g # gs) = rbind (findGap start end' gs) (\<lambda>(b, h, a). Inr (g # b, h, a))"
      using skip d(2) assms(2) by (simp add: word_le_nat_alt word_less_nat_alt)
    have "x \<notin> {unat (bi_Start g)..<unat (bi_End g)}" if "x \<in> {unat start..<unat end'}" for x
      using that skip by simp
    then have e: "{unat start..<unat end'} \<inter> gap_set (g # gs) = {unat start..<unat end'} \<inter> gap_set gs" by auto
    show ?thesis
      using IH skip unfolding f e by (cases "findGap start end' gs") (auto simp del: gap_set_simps)
  qed
qed simp

lemma endGap_spec:
  assumes "gaps_asc (g # rest)" "unat (bi_Start g) < unat end'"
  shows "let r = endGap_loop end' g same rest q in
    \<exists>cov. g # rest = cov @ eg_endGap r # eg_rest r \<and> (\<forall>h\<in>set cov. unat (bi_End h) \<le> unat end')
      \<and> unat (bi_Start (eg_endGap r)) < unat end' \<and> (eg_same r \<longleftrightarrow> same \<and> cov = [])
      \<and> (if eg_found r
         then (unat end' < unat (bi_End (eg_endGap r)) \<and> eg_kept r)
           \<or> (unat (bi_End (eg_endGap r)) \<le> unat end' \<and> (eg_kept r \<longleftrightarrow> eg_same r)
               \<and> (\<forall>h\<in>set (eg_rest r). unat end' \<le> unat (bi_Start h)))
         else unat (bi_End (eg_endGap r)) \<le> unat end' \<and> eg_rest r = [])"
  using assms
proof (induction end' g same rest q rule: endGap_loop.induct)
  case (1 end' g same q)
  then show ?case by (simp add: Let_def word_le_nat_alt)
next
  case (2 end' g same nxt rest q)
  consider (stop) "unat end' < unat (bi_End g)"
    | (brk) "unat (bi_End g) \<le> unat end'" "unat end' \<le> unat (bi_Start nxt)"
    | (go) "unat (bi_End g) \<le> unat end'" "unat (bi_Start nxt) < unat end'" by linarith
  then show ?case
  proof cases
    case stop
    then have e: "endGap_loop end' g same (nxt # rest) q = \<lparr>eg_found = True, eg_endGap = g, eg_same = same, eg_kept = True,
            eg_rest = nxt # rest, eg_queued = q\<rparr>"
      by (simp add: word_le_nat_alt)
    show ?thesis unfolding e Let_def using 2(3) stop by (intro exI [of _ "[]"]) simp
  next
    case brk
    then have e: "endGap_loop end' g same (nxt # rest) q = \<lparr>eg_found = True, eg_endGap = g, eg_same = same, eg_kept = same,
            eg_rest = nxt # rest, eg_queued = q\<rparr>"
      by (simp add: word_le_nat_alt)
    have "\<forall>h\<in>set (nxt # rest). unat end' \<le> unat (bi_Start h)" using 2(2) brk(2) by fastforce
    then show ?thesis unfolding e Let_def using 2(3) brk by (intro exI [of _ "[]"]) simp
  next
    case go
    then have e: "endGap_loop end' g same (nxt # rest) q = endGap_loop end' nxt False rest (AList.delete (bi_End g) q)"
      by (simp add: word_le_nat_alt)
    have pre: "bi_End g \<le> end'" "\<not> end' \<le> bi_Start nxt" using go by (simp_all add: word_le_nat_alt)
    have asc: "gaps_asc (nxt # rest)" using 2(2) by simp
    let ?r = "endGap_loop end' nxt False rest (AList.delete (bi_End g) q)"
    obtain cov where c: "nxt # rest = cov @ eg_endGap ?r # eg_rest ?r" "\<forall>h\<in>set cov. unat (bi_End h) \<le> unat end'"
      "unat (bi_Start (eg_endGap ?r)) < unat end'" "\<not> eg_same ?r"
      "if eg_found ?r
         then (unat end' < unat (bi_End (eg_endGap ?r)) \<and> eg_kept ?r)
           \<or> (unat (bi_End (eg_endGap ?r)) \<le> unat end' \<and> (eg_kept ?r \<longleftrightarrow> eg_same ?r)
               \<and> (\<forall>h\<in>set (eg_rest ?r). unat end' \<le> unat (bi_Start h)))
         else unat (bi_End (eg_endGap ?r)) \<le> unat end' \<and> eg_rest ?r = []"
      using 2(1) [OF pre asc go(2)] unfolding Let_def by blast
    show ?thesis unfolding e Let_def
      using c go(1) by (intro exI [of _ "g # cov"]) simp
  qed
qed

subsection \<open>Taking an interval out of the gaps\<close>

lemma ivl_minus: "s \<le> e \<Longrightarrow> {a..<b} - {s..<e} = {a..<min b s} \<union> {max a e..<(b :: nat)}"
  by (intro set_eqI) (simp add: min_def max_def, linarith)

lemma gap_set_outside:
  assumes "\<forall>h\<in>set gs. unat (bi_End h) \<le> s \<or> e \<le> unat (bi_Start h)"
  shows "gap_set gs - {s..<e} = gap_set gs"
proof -
  have "x \<notin> {s..<e}" if x: "x \<in> gap_set gs" for x
  proof -
    obtain h where "h \<in> set gs" "unat (bi_Start h) \<le> x" "x < unat (bi_End h)"
      using x by (auto simp: gap_set_def)
    then show ?thesis using assms by fastforce
  qed
  then show ?thesis by blast
qed

lemma gap_set_covered:
  assumes "\<forall>h\<in>set gs. s \<le> unat (bi_Start h) \<and> unat (bi_End h) \<le> e"
  shows "gap_set gs - {s..<e} = {}"
  using assms by (fastforce simp: gap_set_def)

lemma adjustGaps_nat:
  "adjustGaps start end' gap r =
     (let endGap = eg_endGap r; same = eg_same r; kept = eg_kept r in
      if unat start = unat (bi_Start gap) then
        if same then
          (if unat (bi_End gap) \<le> unat end' then []
           else if unat end' < unat (bi_End endGap) then [gap\<lparr>bi_Start := end'\<rparr>] else [gap])
        else
          (if unat (bi_End gap) \<le> unat end' then [] else [gap])
          @ (if kept then [if unat end' < unat (bi_End endGap) then endGap\<lparr>bi_Start := end'\<rparr> else endGap] else [])
      else if unat end' = unat (bi_End endGap) then
        gap\<lparr>bi_End := start\<rparr> # (if \<not> same \<and> kept then [endGap] else [])
      else if same then [gap\<lparr>bi_End := start\<rparr>, \<lparr>bi_Start = end', bi_End = bi_End gap\<rparr>]
      else gap\<lparr>bi_End := start\<rparr> # (if kept then [endGap\<lparr>bi_Start := end'\<rparr>] else []))"
  by (simp only: adjustGaps_def word_unat_eq_iff word_le_nat_alt word_less_nat_alt)

lemma adjust_set:
  assumes asc: "gaps_asc (gap # after)"
    and cov: "gap # after = cov @ eg_endGap r # eg_rest r" "\<forall>h\<in>set cov. unat (bi_End h) \<le> e"
    and same: "eg_same r \<longleftrightarrow> cov = []"
    and start: "unat (bi_Start gap) \<le> unat start" "unat start \<le> unat (bi_End gap)" "unat start < e"
    and endg: "unat (bi_Start (eg_endGap r)) < e"
    and k: "(e < unat (bi_End (eg_endGap r)) \<and> eg_kept r)
           \<or> (unat (bi_End (eg_endGap r)) \<le> e \<and> (eg_kept r \<longleftrightarrow> eg_same r)
               \<and> (\<forall>h\<in>set (eg_rest r). e \<le> unat (bi_Start h)))"
    and e1: "unat end1 = min e (unat (bi_End (eg_endGap r)))"
  shows "gap_set (adjustGaps start end1 gap r @ eg_rest r) = gap_set (gap # after) - {unat start..<e}
    \<and> gaps_asc (adjustGaps start end1 gap r @ eg_rest r)
    \<and> (\<forall>h\<in>set (adjustGaps start end1 gap r @ eg_rest r). unat (bi_Start gap) \<le> unat (bi_Start h))"
proof -
  have ne: "unat (bi_Start gap) < unat (bi_End gap)" and up: "\<forall>h\<in>set after. unat (bi_End gap) < unat (bi_Start h)"
    using asc by auto
  have eg: "gaps_asc (eg_endGap r # eg_rest r)" using asc unfolding cov(1) gaps_asc_append by simp
  have rest: "gap_set (eg_rest r) - {unat start..<e} = gap_set (eg_rest r)"
    using k eg by (intro gap_set_outside) fastforce
  have end_cut: "{unat (bi_Start (eg_endGap r))..<unat (bi_End (eg_endGap r))} - {unat start..<e}
      = {unat (bi_Start (eg_endGap r))..<min (unat (bi_End (eg_endGap r))) (unat start)}
        \<union> {max (unat (bi_Start (eg_endGap r))) e..<unat (bi_End (eg_endGap r))}"
    using start(3) by (intro ivl_minus) simp
  have rest_up: "\<forall>h\<in>set (eg_rest r). unat (bi_End (eg_endGap r)) < unat (bi_Start h)" "gaps_asc (eg_rest r)"
    "unat (bi_Start (eg_endGap r)) < unat (bi_End (eg_endGap r))"
    using eg by auto
  show ?thesis
  proof (cases "eg_same r")
    case True
    then have g: "gap = eg_endGap r" "after = eg_rest r" using cov(1) same by auto
    have old: "gap_set (gap # after) - {unat start..<e} =
        ({unat (bi_Start gap)..<unat start} \<union> {e..<unat (bi_End gap)}) \<union> gap_set (eg_rest r)"
      using end_cut rest start(2) endg by (simp add: g Un_Diff min_absorb2 max_absorb2)
    show ?thesis
      unfolding old using k e1 start ne rest_up True unfolding adjustGaps_nat Let_def g
      by (elim disjE conjE; cases "unat start = unat (bi_Start (eg_endGap r))"; fastforce)
  next
    case False
    then obtain cov' where c: "cov = gap # cov'" "after = cov' @ eg_endGap r # eg_rest r"
      using cov(1) same by (cases cov) auto
    have gap_cov: "unat (bi_End gap) \<le> e" "unat (bi_End gap) < unat (bi_Start (eg_endGap r))"
      using cov(2) c up by auto
    have "unat start \<le> unat (bi_Start h) \<and> unat (bi_End h) \<le> e" if h: "h \<in> set cov'" for h
    proof -
      have "unat (bi_End gap) < unat (bi_Start h)" using up h c(2) by simp
      then show ?thesis using start(2) cov(2) c(1) h by simp
    qed
    then have i1: "gap_set cov' - {unat start..<e} = {}" by (intro gap_set_covered) blast
    have i2: "{unat (bi_Start gap)..<unat (bi_End gap)} - {unat start..<e} = {unat (bi_Start gap)..<unat start}"
      using ivl_minus [of "unat start" e "unat (bi_Start gap)" "unat (bi_End gap)"] start gap_cov(1)
      by (simp add: min_absorb2 max_absorb2)
    have i3: "{unat (bi_Start (eg_endGap r))..<unat (bi_End (eg_endGap r))} - {unat start..<e} = {e..<unat (bi_End (eg_endGap r))}"
      using end_cut endg gap_cov(2) start(2) rest_up(3) by (simp add: max_absorb2)
    have old: "gap_set (gap # after) - {unat start..<e} =
        {unat (bi_Start gap)..<unat start} \<union> {e..<unat (bi_End (eg_endGap r))} \<union> gap_set (eg_rest r)"
      unfolding c(2) gap_set_simps Un_Diff i1 i2 i3 rest by blast
    show ?thesis
      unfolding old using k e1 start ne rest_up False gap_cov endg unfolding adjustGaps_nat Let_def
      by (elim disjE conjE; cases "unat start = unat (bi_Start gap)"; fastforce)
  qed
qed


section \<open>What Push does to the gaps\<close>

text \<open>The last byte but one of the range of offsets is never received: it belongs to the last gap.\<close>

definition gaps_ok :: "ByteInterval list \<Rightarrow> bool" where
  "gaps_ok gs \<longleftrightarrow> gaps_asc gs \<and> 2 ^ 64 - 2 \<in> gap_set gs"

lemma storeFrame_gaps:
  assumes "sfs_gaps (snd (storeFrame frame e before gap r s)) = gs"
    and "unat (StreamFrame_DataLen frame - (if e > bi_End (eg_endGap r) then e - bi_End (eg_endGap r) else 0)) \<le> length (sf_Data frame)"
  shows "fst (storeFrame frame e before gap r s) \<in> {None, Some errTooManyGapsInReceivedStreamData}"
    "gs = before @ adjustGaps (sf_Offset frame) (e - (if e > bi_End (eg_endGap r) then e - bi_End (eg_endGap r) else 0)) gap r @ eg_rest r"
  using assms by (auto simp: storeFrame_def Let_def)

lemma pushFrame_gaps:
  assumes gs: "gaps_ok (sfs_gaps s)"
    and fr: "frame_in c frame" "sf_Data frame \<noteq> []" "unat (sf_Offset frame) + length (sf_Data frame) < 2 ^ 64 - 1"
  shows "fst (pushFrame frame s) \<in> {None, Some errDuplicateStreamData, Some errTooManyGapsInReceivedStreamData}
    \<and> gaps_ok (sfs_gaps (snd (pushFrame frame s)))
    \<and> gap_set (sfs_gaps (snd (pushFrame frame s)))
        = gap_set (sfs_gaps s) - {unat (sf_Offset frame)..<unat (sf_Offset frame) + length (sf_Data frame)}"
proof -
  let ?e = "sf_Offset frame + StreamFrame_DataLen frame" and ?s = "unat (sf_Offset frame)"
  have e: "unat ?e = ?s + length (sf_Data frame)" by (rule unat_end [OF fr(1)])
  have asc: "gaps_asc (sfs_gaps s)" and top: "2 ^ 64 - 2 \<in> gap_set (sfs_gaps s)" using gs by (auto simp: gaps_ok_def)
  obtain gl where gl: "gl \<in> set (sfs_gaps s)" "2 ^ 64 - 2 < unat (bi_End gl)"
    using top by (auto simp: gap_set_def)
  have lt: "?s < unat ?e" using e fr(2) by simp
  note F = findGap_spec [OF asc lt]
  have goal: "gaps_ok gs'" if "gaps_asc gs'" "gap_set gs' = gap_set (sfs_gaps s) - {?s..<unat ?e}" for gs'
    using that top e fr(3) by (simp add: gaps_ok_def)
  show ?thesis
  proof (cases "findGap (sf_Offset frame) ?e (sfs_gaps s)")
    case (Inl er)
    have "\<not> (\<forall>h\<in>set (sfs_gaps s). unat (bi_End h) < ?s)" using gl fr(3) by fastforce
    then have "er = errDuplicateStreamData" "{?s..<unat ?e} \<inter> gap_set (sfs_gaps s) = {}" using F Inl by auto
    then show ?thesis using Inl gs e by (auto simp: pushFrame_def)
  next
    case (Inr p)
    obtain before gap after where p: "p = (before, gap, after)" by (cases p)
    have f: "sfs_gaps s = before @ gap # after" "unat (bi_Start gap) < unat ?e" "?s \<le> unat (bi_End gap)"
      "\<forall>h\<in>set before. unat (bi_End h) < ?s"
      using F Inr p by auto
    have asc': "gaps_asc (gap # after)" "gaps_asc before" "\<forall>g\<in>set before. \<forall>h\<in>set (gap # after). unat (bi_End g) < unat (bi_Start h)"
      using asc unfolding f(1) gaps_asc_append by auto
    define add where "add = (if sf_Offset frame < bi_Start gap then bi_Start gap - sf_Offset frame else 0)"
    define r where "r = endGap_loop ?e gap True after (sfs_queuedFrames s)"
    define start where "start = sf_Offset (cutFront add frame)"
    have add: "?s + unat add = max ?s (unat (bi_Start gap))" "unat add < length (sf_Data frame)"
      using f(2) e fr(2) by (auto simp: add_def word_less_nat_alt unat_minus_le word_le_nat_alt max_def)
    have st: "unat start = max ?s (unat (bi_Start gap))" "frame_in c (cutFront add frame)"
      "length (sf_Data (cutFront add frame)) = unat ?e - unat start"
    proof -
      have "unat (sf_Offset frame + add) = ?s + unat add" using add e unat_less_64 [of ?e] by (intro unat_plus_le [where z = ?e]) simp
      then show 1: "unat start = max ?s (unat (bi_Start gap))" by (simp add: start_def cutFront_def add(1))
      show "frame_in c (cutFront add frame)" using frame_in_drop [OF fr(1)] add(2) by simp
      show "length (sf_Data (cutFront add frame)) = unat ?e - unat start"
        using 1 add e by (simp add: cutFront_def)
    qed
    obtain cov where G: "gap # after = cov @ eg_endGap r # eg_rest r" "\<forall>h\<in>set cov. unat (bi_End h) \<le> unat ?e"
      "unat (bi_Start (eg_endGap r)) < unat ?e" "eg_same r \<longleftrightarrow> cov = []"
      "if eg_found r
         then (unat ?e < unat (bi_End (eg_endGap r)) \<and> eg_kept r)
           \<or> (unat (bi_End (eg_endGap r)) \<le> unat ?e \<and> (eg_kept r \<longleftrightarrow> eg_same r)
               \<and> (\<forall>h\<in>set (eg_rest r). unat ?e \<le> unat (bi_Start h)))
         else unat (bi_End (eg_endGap r)) \<le> unat ?e \<and> eg_rest r = []"
      using endGap_spec [OF asc'(1) f(2), of True "sfs_queuedFrames s"] unfolding r_def [symmetric] Let_def by auto
    have found: "eg_found r"
    proof (rule ccontr)
      assume "\<not> eg_found r"
      then have "\<forall>h\<in>set (gap # after). unat (bi_End h) \<le> unat ?e" unfolding G(1) using G(2,5) by auto
      moreover have "gl \<notin> set before" using f(4) gl(2) fr(3) by fastforce
      ultimately show False using gl f(1) e fr(3) by fastforce
    qed
    have gap_le: "unat (bi_End gap) \<le> unat (bi_End (eg_endGap r))"
      using asc'(1) G(1) gaps_asc_nonempty [OF asc'(1), of "eg_endGap r"] by (cases cov) fastforce+
    define cut where "cut = (if ?e > bi_End (eg_endGap r) then ?e - bi_End (eg_endGap r) else 0)"
    have cut: "unat (?e - cut) = min (unat ?e) (unat (bi_End (eg_endGap r)))" "unat cut \<le> unat ?e - unat start"
      using gap_le f(3) st(1) gaps_asc_nonempty [OF asc'(1), of gap]
      by (auto simp: cut_def word_less_nat_alt unat_minus_le word_le_nat_alt min_def)
    have len: "unat (StreamFrame_DataLen (cutFront add frame) - cut) \<le> length (sf_Data (cutFront add frame))"
    proof -
      have "cut \<le> StreamFrame_DataLen (cutFront add frame)"
        using cut(2) st(3) unat_DataLen [OF st(2)] by (simp add: word_le_nat_alt)
      then have "unat (StreamFrame_DataLen (cutFront add frame) - cut) = length (sf_Data (cutFront add frame)) - unat cut"
        using unat_DataLen [OF st(2)] by (simp add: unat_minus_le)
      then show ?thesis by linarith
    qed
    have step: "pushFrame frame s = storeFrame (cutFront add frame) ?e before gap r s"
      using Inr p add(2) found by (simp add: pushFrame_def insertFrame_def Let_def add_def [symmetric] r_def [symmetric])
    note S = storeFrame_gaps [OF refl len [unfolded cut_def]]
    have st_lt: "unat start < unat ?e" "unat (bi_Start gap) \<le> unat start" "unat start \<le> unat (bi_End gap)"
      using st(1) lt f(2,3) gaps_asc_nonempty [OF asc'(1), of gap] by (auto simp: max_def)
    note A = adjust_set [OF asc'(1) G(1,2,4) st_lt(2,3,1) G(3) _ cut(1)]
    have adj: "gap_set (adjustGaps start (?e - cut) gap r @ eg_rest r) = gap_set (gap # after) - {unat start..<unat ?e}"
      "gaps_asc (adjustGaps start (?e - cut) gap r @ eg_rest r)"
      "\<forall>h\<in>set (adjustGaps start (?e - cut) gap r @ eg_rest r). unat (bi_Start gap) \<le> unat (bi_Start h)"
      using A G(5) found by auto
    have gs': "sfs_gaps (snd (pushFrame frame s)) = before @ adjustGaps start (?e - cut) gap r @ eg_rest r"
      unfolding step S(2) start_def cut_def ..
    have low: "gap_set (gap # after) - {unat start..<unat ?e} = gap_set (gap # after) - {?s..<unat ?e}"
    proof -
      have "x \<notin> gap_set (gap # after)" if "x < unat (bi_Start gap)" for x
        using that asc'(1) by (fastforce simp: gap_set_def)
      then show ?thesis using st(1) by (auto simp: max_def split: if_splits)
    qed
    have bef: "gap_set before - {?s..<unat ?e} = gap_set before"
      using f(4) by (intro gap_set_outside) fastforce
    have set: "gap_set (sfs_gaps (snd (pushFrame frame s))) = gap_set (sfs_gaps s) - {?s..<unat ?e}"
      unfolding gs' f(1) gap_set_simps(3) [of before] Un_Diff bef adj(1) low ..
    have "gaps_asc (sfs_gaps (snd (pushFrame frame s)))"
      unfolding gs' gaps_asc_append [of before] using adj asc' by fastforce
    from goal [OF this set] set show ?thesis
      using S(1) [of before gap s] unfolding step e by auto
  qed
qed

section \<open>Sequences of operations\<close>

text \<open>
  The states of a sorter that receives frames of the stream \<open>c\<close>, in any order and any number of times,
  and the bytes that were read. A frame ends below the largest offset.
\<close>

inductive sorter_reachable :: "(nat \<Rightarrow> byte) \<Rightarrow> streamFrameSorter \<Rightarrow> byte list \<Rightarrow> bool" for c where
  start: "sorter_reachable c newStreamFrameSorter []"
| push: "sorter_reachable c s out \<Longrightarrow> frame_in c frame
    \<Longrightarrow> unat (sf_Offset frame) + length (sf_Data frame) < 2 ^ 64 - 1
    \<Longrightarrow> sorter_reachable c (snd (streamFrameSorter_Push frame s)) out"
| pop: "sorter_reachable c s out \<Longrightarrow> streamFrameSorter_Pop s = (Some frame, s')
    \<Longrightarrow> sorter_reachable c s' (out @ sf_Data frame)"

abbreviation frame_bytes :: "StreamFrame \<Rightarrow> nat set" where
  "frame_bytes f \<equiv> {unat (sf_Offset f)..<unat (sf_Offset f) + length (sf_Data f)}"

text \<open>Queued frames were received: they do not meet the gaps.\<close>

definition sorter_inv :: "(nat \<Rightarrow> byte) \<Rightarrow> streamFrameSorter \<Rightarrow> byte list \<Rightarrow> bool" where
  "sorter_inv c s out \<longleftrightarrow> queue_in c (sfs_queuedFrames s) \<and> gaps_ok (sfs_gaps s)
     \<and> (\<forall>k f. map_of (sfs_queuedFrames s) k = Some f \<longrightarrow> frame_bytes f \<inter> gap_set (sfs_gaps s) = {})
     \<and> unat (sfs_readPosition s) = length out \<and> (\<forall>i<length out. out ! i = c i)"

lemma endGap_loop_sub:
  "map_of (eg_queued (endGap_loop e g same rest q)) k = Some f \<Longrightarrow> map_of q k = Some f"
  by (induction e g same rest q rule: endGap_loop.induct) (auto split: if_splits)

text \<open>What is in the queue after a push was there before, or is part of the frame.\<close>

lemma storeFrame_stored:
  assumes "map_of (sfs_queuedFrames (snd (storeFrame frame e before gap r s))) k = Some f"
  shows "map_of (eg_queued r) k = Some f
    \<or> (sf_Offset f = sf_Offset frame \<and> length (sf_Data f) \<le> length (sf_Data frame))"
  using assms by (auto simp: storeFrame_def Let_def split: if_splits)

lemma pushFrame_stored:
  assumes fr: "frame_in c frame"
    and m: "map_of (sfs_queuedFrames (snd (pushFrame frame s))) k = Some f"
  shows "map_of (sfs_queuedFrames s) k = Some f \<or> frame_bytes f \<subseteq> frame_bytes frame"
proof -
  have cutf: "frame_bytes f \<subseteq> frame_bytes frame"
    if "unat add \<le> length (sf_Data frame)" "sf_Offset f = sf_Offset (cutFront add frame)"
      "length (sf_Data f) \<le> length (sf_Data (cutFront add frame))" for add
  proof -
    have "unat (sf_Offset frame + add) = unat (sf_Offset frame) + unat add"
      using fr that(1) by (intro unat_plus_less) (simp add: frame_in_def)
    then show ?thesis using that by (auto simp: cutFront_def)
  qed
  have ins: "map_of (sfs_queuedFrames s) k = Some f \<or> frame_bytes f \<subseteq> frame_bytes frame"
    if x: "map_of (sfs_queuedFrames (snd (insertFrame frame e b g a s))) k = Some f" for e b g a
  proof -
    define add where "add = (if sf_Offset frame < bi_Start g then bi_Start g - sf_Offset frame else 0)"
    define r where "r = endGap_loop e g True a (sfs_queuedFrames s)"
    consider (bad) "unat add > length (sf_Data frame)"
      | (store) "unat add \<le> length (sf_Data frame)" "eg_found r" | (none) "unat add \<le> length (sf_Data frame)" "\<not> eg_found r"
      by linarith
    then show ?thesis
    proof cases
      case bad
      then show ?thesis using x by (simp add: insertFrame_def Let_def add_def [symmetric])
    next
      case store
      then have "map_of (sfs_queuedFrames (snd (storeFrame (cutFront add frame) e b g r s))) k = Some f"
        using x by (simp add: insertFrame_def Let_def add_def [symmetric] r_def [symmetric])
      from storeFrame_stored [OF this] show ?thesis using endGap_loop_sub cutf store(1) unfolding r_def by blast
    next
      case none
      then have "map_of (eg_queued r) k = Some f"
        using x by (simp add: insertFrame_def Let_def add_def [symmetric] r_def [symmetric])
      then show ?thesis using endGap_loop_sub unfolding r_def by blast
    qed
  qed
  show ?thesis
    using m ins by (auto simp: pushFrame_def Let_def split: sum.splits)
qed

lemma pushFrame_inv:
  assumes I: "sorter_inv c s out" and fr: "frame_in c frame" "sf_Data frame \<noteq> []"
      "unat (sf_Offset frame) + length (sf_Data frame) < 2 ^ 64 - 1"
  shows "sorter_inv c (snd (pushFrame frame s)) out
    \<and> fst (pushFrame frame s) \<in> {None, Some errDuplicateStreamData, Some errTooManyGapsInReceivedStreamData}
    \<and> gap_set (sfs_gaps (snd (pushFrame frame s))) = gap_set (sfs_gaps s) - frame_bytes frame"
proof -
  have q: "queue_in c (sfs_queuedFrames s)" and g: "gaps_ok (sfs_gaps s)" using I by (auto simp: sorter_inv_def)
  note G = pushFrame_gaps [OF g fr]
  have "frame_bytes f \<inter> gap_set (sfs_gaps (snd (pushFrame frame s))) = {}"
    if "map_of (sfs_queuedFrames (snd (pushFrame frame s))) k = Some f" for k f
    using pushFrame_stored [OF fr(1) that] G I unfolding sorter_inv_def by blast
  then show ?thesis using I G pushFrame_queue [OF q fr(1)] by (simp add: sorter_inv_def)
qed

lemma Push_inv:
  assumes I: "sorter_inv c s out" and fr: "frame_in c frame" "unat (sf_Offset frame) + length (sf_Data frame) < 2 ^ 64 - 1"
  shows "sorter_inv c (snd (streamFrameSorter_Push frame s)) out
    \<and> (sf_Data frame \<noteq> [] \<longrightarrow>
        fst (streamFrameSorter_Push frame s) \<in> {None, Some errDuplicateStreamData, Some errTooManyGapsInReceivedStreamData}
        \<and> gap_set (sfs_gaps (snd (streamFrameSorter_Push frame s))) = gap_set (sfs_gaps s) - frame_bytes frame)"
proof (cases "sf_Data frame = []")
  case True
  have "queue_in c (AList.update (sf_Offset frame) frame (sfs_queuedFrames s))"
    using I fr(1) by (intro queue_in_update) (simp_all add: sorter_inv_def)
  then show ?thesis using I True by (auto simp: streamFrameSorter_Push_def StreamFrame_DataLen_def sorter_inv_def)
next
  case False
  have nz: "StreamFrame_DataLen frame \<noteq> 0" using unat_DataLen [OF fr(1)] False by auto
  show ?thesis
  proof (cases "map_of (sfs_queuedFrames s) (sf_Offset frame)")
    case None
    then show ?thesis using pushFrame_inv [OF I fr(1) False fr(2)] nz by (simp add: streamFrameSorter_Push_def)
  next
    case (Some old)
    have o: "sf_Offset old = sf_Offset frame" "frame_in c old" "frame_bytes old \<inter> gap_set (sfs_gaps s) = {}"
      using I Some unfolding sorter_inv_def queue_in_def by blast+
    let ?k = "StreamFrame_DataLen old"
    have k: "unat ?k = length (sf_Data old)" by (rule unat_DataLen [OF o(2)])
    show ?thesis
    proof (cases "StreamFrame_DataLen frame \<le> ?k")
      case True
      then have "length (sf_Data frame) \<le> length (sf_Data old)"
        using k unat_DataLen [OF fr(1)] by (simp add: word_le_nat_alt)
      then have "frame_bytes frame \<subseteq> frame_bytes old" using o(1) by auto
      then have "gap_set (sfs_gaps s) - frame_bytes frame = gap_set (sfs_gaps s)" using o(3) by blast
      then show ?thesis using I True Some nz by (simp add: streamFrameSorter_Push_def)
    next
      case F: False
      then have len: "length (sf_Data old) < length (sf_Data frame)"
        using k unat_DataLen [OF fr(1)] by (simp add: word_le_nat_alt)
      have u: "unat (sf_Offset frame + ?k) = unat (sf_Offset frame) + length (sf_Data old)"
        using fr(2) len k by (subst unat_plus_less) simp_all
      have fr': "frame_in c (cutFront ?k frame)" "sf_Data (cutFront ?k frame) \<noteq> []"
        "unat (sf_Offset (cutFront ?k frame)) + length (sf_Data (cutFront ?k frame)) < 2 ^ 64 - 1"
        "frame_bytes frame = frame_bytes old \<union> frame_bytes (cutFront ?k frame)"
        using frame_in_drop [OF fr(1), of ?k] len k fr(2) u o(1)
        by (auto simp: cutFront_def)
      have "gap_set (sfs_gaps s) - frame_bytes (cutFront ?k frame) = gap_set (sfs_gaps s) - frame_bytes frame"
        unfolding fr'(4) using o(3) by blast
      then show ?thesis using pushFrame_inv [OF I fr'(1-3)] F Some nz by (simp add: streamFrameSorter_Push_def)
    qed
  qed
qed

lemma Pop_inv:
  assumes I: "sorter_inv c s out" and p: "streamFrameSorter_Pop s = (Some f, s')"
  shows "sorter_inv c s' (out @ sf_Data f)"
proof -
  have m: "map_of (sfs_queuedFrames s) (sfs_readPosition s) = Some f"
    and s': "s' = s\<lparr>sfs_readPosition := sfs_readPosition s + StreamFrame_DataLen f,
            sfs_queuedFrames := AList.delete (sf_Offset f) (sfs_queuedFrames s)\<rparr>"
    using p by (auto simp: streamFrameSorter_Pop_def streamFrameSorter_Head_def split: option.splits)
  have f: "sf_Offset f = sfs_readPosition s" "frame_in c f" using I m by (auto simp: sorter_inv_def queue_in_def)
  have "unat (sfs_readPosition s + StreamFrame_DataLen f) = length out + length (sf_Data f)"
    using unat_end [OF f(2)] f(1) I by (simp add: sorter_inv_def)
  moreover have "\<forall>i<length (out @ sf_Data f). (out @ sf_Data f) ! i = c i"
    using f I by (auto simp: nth_append frame_in_def sorter_inv_def)
  ultimately show ?thesis using I by (auto simp: s' sorter_inv_def queue_in_delete split: if_splits)
qed

lemma new_inv: "sorter_inv c newStreamFrameSorter []"
  by (simp add: sorter_inv_def newStreamFrameSorter_def queue_in_def gaps_ok_def protocol_MaxByteCount_def)

lemma sorter_reachable_inv: "sorter_reachable c s out \<Longrightarrow> sorter_inv c s out"
  by (induction rule: sorter_reachable.induct) (auto intro: new_inv Pop_inv simp: Push_inv)

section \<open>Properties of the sorter\<close>

text \<open>
  C2: The reader gets the stream. Whatever the order in which the frames of a stream arrive, how often
  they are repeated and how they overlap, the bytes popped so far are the first bytes of the stream, and
  the read position is their number.
\<close>

theorem sorter_delivers_stream:
  assumes "sorter_reachable c s out"
  shows "unat (sfs_readPosition s) = length out \<and> out = map c [0..<length out]"
  using sorter_reachable_inv [OF assms] by (auto simp: sorter_inv_def intro: nth_equalityI)

text \<open>
  C16: The list of gaps implements the set of missing bytes. In every reachable state, pushing a frame
  with data takes exactly the bytes of the frame out of the set of missing bytes, also when the frame spans
  several gaps or overlaps queued frames; it ends without an error, as a duplicate, or with the error for too
  many gaps, and never with a panic or one of the errors that report a bug.
\<close>

theorem push_fills_gaps:
  assumes "sorter_reachable c s out" "frame_in c frame" "sf_Data frame \<noteq> []"
    and "unat (sf_Offset frame) + length (sf_Data frame) < 2 ^ 64 - 1"
  shows "gap_set (sfs_gaps (snd (streamFrameSorter_Push frame s))) = gap_set (sfs_gaps s) - frame_bytes frame
    \<and> fst (streamFrameSorter_Push frame s)
        \<in> {None, Some errDuplicateStreamData, Some errTooManyGapsInReceivedStreamData}"
  using Push_inv [OF sorter_reachable_inv [OF assms(1)] assms(2,4)] assms(3) by simp


subsection \<open>A run of the sorter\<close>

definition run_frame :: "ByteCount \<Rightarrow> byte list \<Rightarrow> StreamFrame" where
  "run_frame off data = \<lparr>sf_StreamID = 5, sf_FinBit = False, sf_DataLenPresent = True, sf_Offset = off, sf_Data = data\<rparr>"

definition run_stream :: "nat \<Rightarrow> byte" where
  "run_stream i = of_nat (10 + i)"

definition run_sorter :: streamFrameSorter where
  "run_sorter = snd (streamFrameSorter_Push (run_frame 0 [10, 11, 12])
     (snd (streamFrameSorter_Push (run_frame 2 [12, 13]) newStreamFrameSorter)))"

lemma run_frames_in: "frame_in run_stream (run_frame 0 [10, 11, 12])" "frame_in run_stream (run_frame 2 [12, 13])"
  by (auto simp: frame_in_def run_frame_def run_stream_def less_Suc_eq)

lemma run_sorter_reachable: "sorter_reachable run_stream run_sorter []"
  unfolding run_sorter_def
  by (intro sorter_reachable.push sorter_reachable.start run_frames_in) (simp_all add: run_frame_def)

lemma run_sorter_value:
  "sfs_queuedFrames run_sorter = [(2, run_frame 2 [12, 13]), (0, run_frame 0 [10, 11])]" "sfs_readPosition run_sorter = 0"
  by code_simp+

theorem sorter_delivers_stream_witness:
  "let out = [10, 11] @ [12, 13] in
   \<exists>s. sorter_reachable run_stream s out \<and> unat (sfs_readPosition s) = 4 \<and> out = map run_stream [0..<4]"
proof -
  define s1 where "s1 = snd (streamFrameSorter_Pop run_sorter)"
  define s2 where "s2 = snd (streamFrameSorter_Pop s1)"
  have p1: "streamFrameSorter_Pop run_sorter = (Some (run_frame 0 [10, 11]), s1)"
    "sfs_queuedFrames s1 = [(2, run_frame 2 [12, 13])]" "sfs_readPosition s1 = 2"
    by (simp_all add: s1_def streamFrameSorter_Pop_def streamFrameSorter_Head_def run_sorter_value run_frame_def
        StreamFrame_DataLen_def)
  have p2: "streamFrameSorter_Pop s1 = (Some (run_frame 2 [12, 13]), s2)"
    by (simp add: s2_def streamFrameSorter_Pop_def streamFrameSorter_Head_def p1)
  have "sorter_reachable run_stream s2 (([] @ sf_Data (run_frame 0 [10, 11])) @ sf_Data (run_frame 2 [12, 13]))"
    by (rule sorter_reachable.pop [OF sorter_reachable.pop [OF run_sorter_reachable p1(1)] p2])
  then have r: "sorter_reachable run_stream s2 ([10, 11] @ [12, 13])" by (simp add: run_frame_def)
  have "length ([10, 11] @ [12, 13] :: byte list) = 4" by simp
  then show ?thesis using sorter_delivers_stream [OF r] r unfolding Let_def by metis
qed

theorem push_fills_gaps_witness:
  "gap_set (sfs_gaps (snd (streamFrameSorter_Push (run_frame 2 [12, 13]) run_sorter)))
     = gap_set (sfs_gaps run_sorter) - {2..<4}
   \<and> fst (streamFrameSorter_Push (run_frame 2 [12, 13]) run_sorter) = Some errDuplicateStreamData"
proof -
  have "fst (streamFrameSorter_Push (run_frame 2 [12, 13]) run_sorter) = Some errDuplicateStreamData"
    by code_simp
  then show ?thesis
    using push_fills_gaps [OF run_sorter_reachable run_frames_in(2)] by (simp add: run_frame_def)
qed

end
