(* ===== verification/AckFrames.thy ===== *)
theory AckFrames
  imports StreamFrames
begin

text \<open>
  The ACK frame and the CLOSE_PATH frame, \<^verbatim>\<open>internal/wire/ack_frame.go\<close> and
  \<^verbatim>\<open>internal/wire/close_path_frame.go\<close>. Both carry the same list of ranges of received packets;
  on the wire a range is one or more blocks, a gap of at most 255 packets and a length, where a longer
  gap takes blocks of length zero. The parts both files duplicate are shared definitions over the list
  of ranges.
\<close>

section \<open>Time\<close>

text \<open>
  A \<^verbatim>\<open>time.Time\<close> is the number of nanoseconds since the zero time, \<open>0\<close> the zero time itself.
  \<^verbatim>\<open>Time.Sub\<close> saturates at the ends of \<^verbatim>\<open>time.Duration\<close>.
\<close>

definition timeSub :: "int \<Rightarrow> int \<Rightarrow> int" where
  "timeSub t u = max (- (2 ^ 63)) (min (2 ^ 63 - 1) (t - u))"

section \<open>Ranges of packets\<close>

record AckRange =
  ar_First :: PacketNumber
  ar_Last :: PacketNumber

abbreviation ErrInvalidAckRanges :: gerror where "ErrInvalidAckRanges \<equiv> Errorf ''AckFrame: ACK frame contains invalid ACK ranges''"
abbreviation ErrInvalidFirstAckRange :: gerror where "ErrInvalidFirstAckRange \<equiv> Errorf ''AckFrame: ACK frame has invalid first ACK range''"
abbreviation errInconsistentAckLargestAcked :: gerror where "errInconsistentAckLargestAcked \<equiv> Errorf ''internal inconsistency: LargestAcked does not match ACK ranges''"
abbreviation errInconsistentAckLowestAcked :: gerror where "errInconsistentAckLowestAcked \<equiv> Errorf ''internal inconsistency: LowestAcked does not match ACK ranges''"

text \<open>The second loop of \<^verbatim>\<open>validateAckRanges\<close> compares each range with the one before it.\<close>

fun validateAckRanges_order :: "AckRange list \<Rightarrow> bool" where
  "validateAckRanges_order (lastAckRange # ackRange # rs) =
     (if ar_First lastAckRange \<le> ar_First ackRange then False
      else if ar_First lastAckRange \<le> ar_Last ackRange + 1 then False
      else validateAckRanges_order (ackRange # rs))"
| "validateAckRanges_order _ = True"

definition validateAckRanges :: "PacketNumber \<Rightarrow> AckRange list \<Rightarrow> bool" where
  "validateAckRanges largestAcked ranges =
     (if length ranges = 0 then True
      else if length ranges = 1 then False
      else if ar_Last (ranges ! 0) \<noteq> largestAcked then False
      else if \<not> list_all (\<lambda>ackRange. \<not> ar_First ackRange > ar_Last ackRange) ranges then False
      else validateAckRanges_order ranges)"

text \<open>The number of blocks a gap takes.\<close>

definition gapBlocks :: "PacketNumber \<Rightarrow> u64" where
  "gapBlocks gap = (if gap mod 0xFF = 0 then 1 + gap div 0xFF - 1 else 1 + gap div 0xFF)"

fun numWritableNackRanges_loop :: "AckRange \<Rightarrow> AckRange list \<Rightarrow> u64 \<Rightarrow> u64" where
  "numWritableNackRanges_loop lastAckRange [] numRanges = numRanges"
| "numWritableNackRanges_loop lastAckRange (ackRange # rs) numRanges =
     (let rangeLength = gapBlocks (ar_First lastAckRange - ar_Last ackRange - 1) in
      if numRanges + rangeLength < 0xFF
      then numWritableNackRanges_loop ackRange rs (numRanges + rangeLength)
      else numRanges)"

definition numWritableNackRanges :: "AckRange list \<Rightarrow> u64" where
  "numWritableNackRanges ranges =
     (case ranges of [] \<Rightarrow> 0 | r # rs \<Rightarrow> numWritableNackRanges_loop r rs 0 + 1)"

definition getMissingSequenceNumberDeltaLen ::
  "PacketNumber \<Rightarrow> PacketNumber \<Rightarrow> AckRange list \<Rightarrow> PacketNumberLen" where
  "getMissingSequenceNumberDeltaLen largestAcked lowestAcked ranges =
     (let maxRangeLength =
        (if length ranges > 0
         then fold (\<lambda>ackRange m. let rangeLength = ar_Last ackRange - ar_First ackRange + 1
                in if rangeLength > m then rangeLength else m) ranges 0
         else largestAcked - lowestAcked + 1)
      in if maxRangeLength \<le> 0xFF then PacketNumberLen1
         else if maxRangeLength \<le> 0xFFFF then PacketNumberLen2
         else if maxRangeLength \<le> 0xFFFFFFFF then PacketNumberLen4
         else PacketNumberLen6)"

definition acksPacket :: "PacketNumber \<Rightarrow> PacketNumber \<Rightarrow> AckRange list \<Rightarrow> PacketNumber \<Rightarrow> bool" where
  "acksPacket largestAcked lowestAcked ranges p =
     (if p < lowestAcked \<or> p > largestAcked then False
      else if length ranges > 0
      then list_ex (\<lambda>ackRange. p \<ge> ar_First ackRange \<and> p \<le> ar_Last ackRange) ranges
      else p \<ge> lowestAcked \<and> p \<le> largestAcked)"

section \<open>Writing ranges\<close>

text \<open>
  The \<^verbatim>\<open>switch\<close> on a packet number length. The ACK frame cuts a value to 48 bits before writing it
  in six bytes (\<open>cut48\<close>), the CLOSE_PATH frame does not.
\<close>

definition cut48 :: "u64 \<Rightarrow> u64" where
  "cut48 w = w AND (push_bit 48 1 - 1)"

definition writePacketNumberLen :: "(u64 \<Rightarrow> u64) \<Rightarrow> ByteOrder \<Rightarrow> PacketNumberLen \<Rightarrow> u64 \<Rightarrow> wresult" where
  "writePacketNumberLen trunc bo len w =
     (if len = PacketNumberLen1 then WriteByte (ucast w)
      else if len = PacketNumberLen2 then WriteUint16 bo (ucast w)
      else if len = PacketNumberLen4 then WriteUint32 bo (ucast w)
      else if len = PacketNumberLen6 then WriteUint48 bo (trunc w)
      else Inr [])"

text \<open>
  The loop over the ranges after the first: a block per range, or several when the gap is long,
  until \<open>numRanges\<close> blocks are written. It returns the bytes and the number of blocks written.
\<close>

definition writeBlock :: "(u64 \<Rightarrow> u64) \<Rightarrow> ByteOrder \<Rightarrow> PacketNumberLen \<Rightarrow> byte \<Rightarrow> u64 \<Rightarrow> wresult" where
  "writeBlock trunc bo dl gapWritten lengthWritten =
     wseq [WriteByte gapWritten, writePacketNumberLen trunc bo dl lengthWritten]"

definition writeLongGap :: "(u64 \<Rightarrow> u64) \<Rightarrow> ByteOrder \<Rightarrow> PacketNumberLen \<Rightarrow> u64 \<Rightarrow> u64 \<Rightarrow> u64 \<Rightarrow> wresult" where
  "writeLongGap trunc bo dl num gap len =
     wseq (map (\<lambda>i. if Suc i = unat num then writeBlock trunc bo dl (ucast (1 + (gap - 1) mod 255)) len
                    else writeBlock trunc bo dl 0xFF 0) [0..<unat num])"

fun writeRanges_loop ::
  "(u64 \<Rightarrow> u64) \<Rightarrow> ByteOrder \<Rightarrow> PacketNumberLen \<Rightarrow> u64 \<Rightarrow> AckRange \<Rightarrow> AckRange list \<Rightarrow> u64 \<Rightarrow> wresult \<times> u64" where
  "writeRanges_loop trunc bo dl numRanges lastAckRange [] written = (Inr [], written)"
| "writeRanges_loop trunc bo dl numRanges lastAckRange (ackRange # rs) written =
     (let len = ar_Last ackRange - ar_First ackRange + 1;
          gap = ar_First lastAckRange - ar_Last ackRange - 1;
          num = gapBlocks gap;
          (w, written') =
            (if num = 1 then (writeBlock trunc bo dl (ucast gap) len, written + 1)
             else (writeLongGap trunc bo dl num gap len, written + num))
      in if written' \<ge> numRanges then (w, written')
         else let (w', written'') = writeRanges_loop trunc bo dl numRanges ackRange rs written'
              in (wseq [w, w'], written''))"

section \<open>The ACK frame\<close>

record AckFrame =
  ack_PathID :: PathID
  ack_LargestAcked :: PacketNumber
  ack_LowestAcked :: PacketNumber
  ack_AckRanges :: "AckRange list"
  ack_PacketReceivedTime :: int
  ack_DelayTime :: int

abbreviation InitialPathID :: PathID where "InitialPathID \<equiv> (0 :: PathID)"

definition AckFrame_HasMissingRanges :: "AckFrame \<Rightarrow> bool" where
  "AckFrame_HasMissingRanges f = (length (ack_AckRanges f) > 0)"

definition AckFrame_validateAckRanges :: "AckFrame \<Rightarrow> bool" where
  "AckFrame_validateAckRanges f = validateAckRanges (ack_LargestAcked f) (ack_AckRanges f)"

definition AckFrame_numWritableNackRanges :: "AckFrame \<Rightarrow> u64" where
  "AckFrame_numWritableNackRanges f = numWritableNackRanges (ack_AckRanges f)"

definition AckFrame_getMissingSequenceNumberDeltaLen :: "AckFrame \<Rightarrow> PacketNumberLen" where
  "AckFrame_getMissingSequenceNumberDeltaLen f =
     getMissingSequenceNumberDeltaLen (ack_LargestAcked f) (ack_LowestAcked f) (ack_AckRanges f)"

definition AckFrame_AcksPacket :: "AckFrame \<Rightarrow> PacketNumber \<Rightarrow> bool" where
  "AckFrame_AcksPacket f p = acksPacket (ack_LargestAcked f) (ack_LowestAcked f) (ack_AckRanges f) p"

text \<open>The type byte, then the whole frame. Writing sets the delay from the current time.\<close>

definition AckFrame_typeByte :: "AckFrame \<Rightarrow> byte" where
  "AckFrame_typeByte f =
     (let largestAckedLen = GetPacketNumberLength (ack_LargestAcked f);
          t0 = 0x40 :: byte;
          t1 = (if largestAckedLen \<noteq> PacketNumberLen1 then t0 XOR push_bit 2 (largestAckedLen div 2) else t0);
          dl = AckFrame_getMissingSequenceNumberDeltaLen f;
          t2 = (if dl \<noteq> PacketNumberLen1 then t1 XOR (dl div 2) else t1);
          t3 = (if AckFrame_HasMissingRanges f then t2 OR 0x20 else t2)
      in if ack_PathID f \<noteq> InitialPathID then t3 OR 0x10 else t3)"

definition AckFrame_writeBlocks :: "AckFrame \<Rightarrow> VersionNumber \<Rightarrow> wresult" where
  "AckFrame_writeBlocks f version =
     (let bo = GetByteOrder version;
          dl = AckFrame_getMissingSequenceNumberDeltaLen f;
          numRanges = (if AckFrame_HasMissingRanges f then AckFrame_numWritableNackRanges f else 0)
      in if AckFrame_HasMissingRanges f \<and> numRanges > 0xFF then Inl (Panic ''AckFrame: Too many ACK ranges'')
      else wseq [(if AckFrame_HasMissingRanges f then WriteByte (ucast (numRanges - 1)) else Inr []),
        (case ack_AckRanges f of
           [] \<Rightarrow> writePacketNumberLen cut48 bo dl (ack_LargestAcked f - ack_LowestAcked f + 1)
         | r0 # rs \<Rightarrow>
             if ack_LargestAcked f \<noteq> ar_Last r0 then Inl errInconsistentAckLargestAcked
             else if ack_LowestAcked f \<noteq> ar_First (last (r0 # rs)) then Inl errInconsistentAckLowestAcked
             else let (w, numRangesWritten) = writeRanges_loop cut48 bo dl numRanges r0 rs 1
                  in wseq [writePacketNumberLen cut48 bo dl (ack_LargestAcked f - ar_First r0 + 1), w,
                       (if numRanges \<noteq> numRangesWritten
                        then Inl (Errorf ''BUG: Inconsistent number of ACK ranges written'') else Inr [])])])"

definition AckFrame_Write :: "int \<Rightarrow> AckFrame \<Rightarrow> VersionNumber \<Rightarrow> wresult \<times> AckFrame" where
  "AckFrame_Write now f version =
     (let f' = f\<lparr>ack_DelayTime := timeSub now (ack_PacketReceivedTime f)\<rparr> in
      (wseq [WriteByte (AckFrame_typeByte f),
        (if ack_PathID f \<noteq> InitialPathID then WriteByte (ack_PathID f) else Inr []),
        writePacketNumberLen cut48 (GetByteOrder version) (GetPacketNumberLength (ack_LargestAcked f)) (ack_LargestAcked f),
        writeUfloat16 (GetByteOrder version) (word_of_int (quot (ack_DelayTime f') Microsecond)),
        AckFrame_writeBlocks f version,
        WriteByte 0], f'))"

definition AckFrame_MinLength :: "AckFrame \<Rightarrow> VersionNumber \<Rightarrow> ByteCount result" where
  "AckFrame_MinLength f version =
     (let l0 = 1 + 2 + 1 + ucast (GetPacketNumberLength (ack_LargestAcked f)) :: ByteCount;
          dl = ucast (AckFrame_getMissingSequenceNumberDeltaLen f);
          l1 = (if AckFrame_HasMissingRanges f then l0 + (1 + dl) * AckFrame_numWritableNackRanges f
                else l0 + dl)
      in Inr (if ack_PathID f \<noteq> InitialPathID then l1 + 1 else l1))"

section \<open>Parsing ranges\<close>

text \<open>
  One block: it continues the range before it when that was the first part of a long gap, otherwise
  it starts a range. The state is the list of ranges, \<open>inLongBlock\<close> and \<open>lastRangeComplete\<close>.
\<close>

definition ackBlock :: "byte \<Rightarrow> u64 \<Rightarrow> AckRange list \<times> bool \<times> bool \<Rightarrow> AckRange list \<times> bool \<times> bool" where
  "ackBlock gap len st =
     (let (ranges, inLongBlock, lastRangeComplete) = st;
          r = last ranges;
          (ranges', complete) =
            (if inLongBlock
             then (butlast ranges @ [\<lparr>ar_First = ar_First r - (ucast gap + len), ar_Last = ar_Last r - ucast gap\<rparr>],
                   lastRangeComplete)
             else let l = ar_First r - ucast gap - 1
                  in (ranges @ [\<lparr>ar_First = l - len + 1, ar_Last = l\<rparr>], False))
      in (ranges', len = 0, if len > 0 then True else complete))"

fun parseAckBlocks ::
  "VersionNumber \<Rightarrow> byte \<Rightarrow> nat \<Rightarrow> AckRange list \<times> bool \<times> bool \<Rightarrow> (AckRange list \<times> bool \<times> bool) parser" where
  "parseAckBlocks version dl 0 st = preturn st"
| "parseAckBlocks version dl (Suc n) st =
     pbind ReadByte (\<lambda>gap. pbind (ReadUintN (GetByteOrder version) dl) (\<lambda>ackBlockLength.
       parseAckBlocks version dl n (ackBlock gap ackBlockLength st)))"

text \<open>
  \<open>LowestAcked\<close> and the ranges, from the first block and the blocks after it; then with the checks,
  as in both parsers.
\<close>

definition readAckRanges ::
  "VersionNumber \<Rightarrow> byte \<Rightarrow> bool \<Rightarrow> byte \<Rightarrow> u64 \<Rightarrow> u64 \<Rightarrow> (PacketNumber \<times> AckRange list) parser" where
  "readAckRanges version dl hasMissingRanges numAckBlocks largestAcked ackBlockLength =
     (if hasMissingRanges then
        pbind (parseAckBlocks version dl (unat numAckBlocks)
          ([\<lparr>ar_First = largestAcked - ackBlockLength + 1, ar_Last = largestAcked\<rparr>], False, False))
          (\<lambda>(ranges, inLongBlock, lastRangeComplete).
            let ranges' = (if \<not> lastRangeComplete then butlast ranges else ranges)
            in if ranges' = [] then pfail (Panic ''index out of range'')
               else preturn (ar_First (last ranges'), ranges'))
      else if largestAcked = 0 then preturn (0, [])
      else preturn (largestAcked + 1 - ackBlockLength, []))"

definition parseAckRanges ::
  "VersionNumber \<Rightarrow> byte \<Rightarrow> bool \<Rightarrow> byte \<Rightarrow> u64 \<Rightarrow> (PacketNumber \<times> AckRange list) parser" where
  "parseAckRanges version dl hasMissingRanges numAckBlocks largestAcked =
     pbind (ReadUintN (GetByteOrder version) dl) (\<lambda>ackBlockLength.
     pbind (pcheck (largestAcked > 0 \<and> ackBlockLength < 1) ErrInvalidFirstAckRange) (\<lambda>_.
     pbind (pcheck (ackBlockLength > largestAcked) ErrInvalidAckRanges) (\<lambda>_.
     pbind (readAckRanges version dl hasMissingRanges numAckBlocks largestAcked ackBlockLength) (\<lambda>(lowestAcked, ranges).
     pbind (pcheck (\<not> validateAckRanges largestAcked ranges) ErrInvalidAckRanges) (\<lambda>_.
       preturn (lowestAcked, ranges))))))"

fun skipTimestamps :: "VersionNumber \<Rightarrow> nat \<Rightarrow> unit parser" where
  "skipTimestamps version 0 = preturn ()"
| "skipTimestamps version (Suc n) =
     pbind ReadByte (\<lambda>_. pbind (ReadUint16 (GetByteOrder version)) (\<lambda>_. skipTimestamps version n))"

definition parseTimestamps :: "VersionNumber \<Rightarrow> unit parser" where
  "parseTimestamps version =
     pbind ReadByte (\<lambda>numTimestamp.
       if numTimestamp > 0 then
         pbind ReadByte (\<lambda>_. pbind (ReadUint32 (GetByteOrder version)) (\<lambda>_.
           skipTimestamps version (unat numTimestamp - 1)))
       else preturn ())"

text \<open>A width in the type byte: two bits that stand for 1, 2, 4 and 6 bytes.\<close>

definition lenField :: "byte \<Rightarrow> byte" where
  "lenField x = (let l = 2 * x in if l = 0 then 1 else l)"

text \<open>What follows the type byte, given the flags and widths decoded from it; then the whole parser.\<close>

definition ParseAckFrame_fields :: "VersionNumber \<Rightarrow> bool \<Rightarrow> byte \<Rightarrow> byte \<Rightarrow> bool \<Rightarrow> AckFrame parser" where
  "ParseAckFrame_fields version hasMissingRanges largestAckedLen missingSequenceNumberDeltaLen hasPathID =
     pbind (if hasPathID then ReadByte else preturn 0) (\<lambda>pathID.
     pbind (ReadUintN (GetByteOrder version) largestAckedLen) (\<lambda>largestAcked.
     pbind (readUfloat16 (GetByteOrder version)) (\<lambda>delay.
     pbind (if hasMissingRanges then ReadByte else preturn 0) (\<lambda>numAckBlocks.
     pbind (pcheck (hasMissingRanges \<and> numAckBlocks = 0) ErrInvalidAckRanges) (\<lambda>_.
     pbind (parseAckRanges version missingSequenceNumberDeltaLen hasMissingRanges numAckBlocks largestAcked)
       (\<lambda>(lowestAcked, ranges).
     pbind (parseTimestamps version) (\<lambda>_.
       preturn \<lparr>ack_PathID = pathID, ack_LargestAcked = largestAcked, ack_LowestAcked = lowestAcked,
         ack_AckRanges = ranges, ack_PacketReceivedTime = 0,
         ack_DelayTime = i64 (uint delay * Microsecond)\<rparr>)))))))"

definition ParseAckFrame :: "VersionNumber \<Rightarrow> AckFrame parser" where
  "ParseAckFrame version =
     pbind ReadByte (\<lambda>typeByte.
       ParseAckFrame_fields version (typeByte AND 0x20 = 0x20) (lenField (drop_bit 2 (typeByte AND 0x0C)))
         (lenField (typeByte AND 0x03)) (typeByte AND 0x10 = 0x10))"

section \<open>The CLOSE_PATH frame\<close>

record ClosePathFrame =
  cp_PathID :: PathID
  cp_LargestAcked :: PacketNumber
  cp_LowestAcked :: PacketNumber
  cp_AckRanges :: "AckRange list"

definition ClosePathFrame_HasMissingRanges :: "ClosePathFrame \<Rightarrow> bool" where
  "ClosePathFrame_HasMissingRanges f = (length (cp_AckRanges f) > 0)"

definition ClosePathFrame_validateAckRanges :: "ClosePathFrame \<Rightarrow> bool" where
  "ClosePathFrame_validateAckRanges f = validateAckRanges (cp_LargestAcked f) (cp_AckRanges f)"

definition ClosePathFrame_numWritableNackRanges :: "ClosePathFrame \<Rightarrow> u64" where
  "ClosePathFrame_numWritableNackRanges f = numWritableNackRanges (cp_AckRanges f)"

definition ClosePathFrame_getMissingSequenceNumberDeltaLen :: "ClosePathFrame \<Rightarrow> PacketNumberLen" where
  "ClosePathFrame_getMissingSequenceNumberDeltaLen f =
     getMissingSequenceNumberDeltaLen (cp_LargestAcked f) (cp_LowestAcked f) (cp_AckRanges f)"

definition ClosePathFrame_AcksPacket :: "ClosePathFrame \<Rightarrow> PacketNumber \<Rightarrow> bool" where
  "ClosePathFrame_AcksPacket f p = acksPacket (cp_LargestAcked f) (cp_LowestAcked f) (cp_AckRanges f) p"

definition ClosePathFrame_flags :: "ClosePathFrame \<Rightarrow> byte" where
  "ClosePathFrame_flags f =
     (let largestAckedLen = GetPacketNumberLength (cp_LargestAcked f);
          t0 = (if ClosePathFrame_HasMissingRanges f then 0x10 else 0x00) :: byte;
          t1 = (if largestAckedLen \<noteq> PacketNumberLen1 then t0 XOR push_bit 2 (largestAckedLen div 2) else t0);
          dl = ClosePathFrame_getMissingSequenceNumberDeltaLen f
      in if dl \<noteq> PacketNumberLen1 then t1 XOR (dl div 2) else t1)"

definition ClosePathFrame_Write :: "ClosePathFrame \<Rightarrow> VersionNumber \<Rightarrow> wresult" where
  "ClosePathFrame_Write f version =
     (let bo = GetByteOrder version;
          dl = ClosePathFrame_getMissingSequenceNumberDeltaLen f;
          numRanges = (if ClosePathFrame_HasMissingRanges f then ClosePathFrame_numWritableNackRanges f else 0)
      in wseq [WriteByte 0x11, WriteByte (cp_PathID f), WriteByte (ClosePathFrame_flags f),
        (if ClosePathFrame_HasMissingRanges f
         then if numRanges > 0xFF then Inl (Panic ''ClosePathFrame: Too many ACK ranges'')
              else WriteByte (ucast (numRanges - 1))
         else Inr []),
        writePacketNumberLen (\<lambda>w. w) bo (GetPacketNumberLength (cp_LargestAcked f)) (cp_LargestAcked f),
        (case cp_AckRanges f of
           [] \<Rightarrow> writePacketNumberLen (\<lambda>w. w) bo dl (cp_LargestAcked f - cp_LowestAcked f + 1)
         | r0 # rs \<Rightarrow>
             if cp_LargestAcked f \<noteq> ar_Last r0 then Inl errInconsistentAckLargestAcked
             else if cp_LowestAcked f \<noteq> ar_First (last (r0 # rs)) then Inl errInconsistentAckLowestAcked
             else let (w, numRangesWritten) = writeRanges_loop (\<lambda>w. w) bo dl numRanges r0 rs 1
                  in wseq [writePacketNumberLen (\<lambda>w. w) bo dl (cp_LargestAcked f - ar_First r0 + 1), w,
                       (if numRanges \<noteq> numRangesWritten
                        then Inl (Errorf ''BUG: Inconsistent number of ACK ranges written in ClosePath'') else Inr [])])])"

definition ParseClosePathFrame_fields ::
  "VersionNumber \<Rightarrow> PathID \<Rightarrow> bool \<Rightarrow> byte \<Rightarrow> byte \<Rightarrow> ClosePathFrame parser" where
  "ParseClosePathFrame_fields version pathID hasMissingRanges largestAckedLen missingSequenceNumberDeltaLen =
     pbind (if hasMissingRanges then ReadByte else preturn 0) (\<lambda>numAckBlocks.
     pbind (pcheck (hasMissingRanges \<and> numAckBlocks = 0) ErrInvalidAckRanges) (\<lambda>_.
     pbind (ReadUintN (GetByteOrder version) largestAckedLen) (\<lambda>largestAcked.
     pbind (parseAckRanges version missingSequenceNumberDeltaLen hasMissingRanges numAckBlocks largestAcked)
       (\<lambda>(lowestAcked, ranges).
       preturn \<lparr>cp_PathID = pathID, cp_LargestAcked = largestAcked, cp_LowestAcked = lowestAcked,
         cp_AckRanges = ranges\<rparr>))))"

definition ParseClosePathFrame :: "VersionNumber \<Rightarrow> ClosePathFrame parser" where
  "ParseClosePathFrame version =
     pbind ReadByte (\<lambda>_. pbind ReadByte (\<lambda>pathID. pbind ReadByte (\<lambda>flags.
       ParseClosePathFrame_fields version pathID (flags AND 0x10 = 0x10)
         (lenField (drop_bit 2 (flags AND 0x0C))) (lenField (flags AND 0x03)))))"

definition ClosePathFrame_MinLength :: "ClosePathFrame \<Rightarrow> VersionNumber \<Rightarrow> ByteCount result" where
  "ClosePathFrame_MinLength f version =
     (let l0 = 1 + 1 + 1 + ucast (GetPacketNumberLength (cp_LargestAcked f)) :: ByteCount;
          dl = ucast (ClosePathFrame_getMissingSequenceNumberDeltaLen f)
      in Inr (if ClosePathFrame_HasMissingRanges f
              then l0 + (1 + dl) * ClosePathFrame_numWritableNackRanges f
              else l0 + dl))"

section \<open>What a reader of \<open>n\<close> bytes returns\<close>

lemma fits_step:
  fixes res :: u64 and bt :: byte
  assumes "take_bit (8 * len) res = res" "i < len" "len \<le> 8"
  shows "take_bit (8 * len) (res XOR push_bit (i * 8 mod 256) (ucast bt)) = res XOR push_bit (i * 8 mod 256) (ucast bt)"
proof -
  have i: "i * 8 mod 256 = 8 * i" using assms by simp
  have "take_bit (8 * len) (push_bit (8 * i) (ucast bt) :: u64) = push_bit (8 * i) (ucast bt)"
    using assms bit_imp_le_length [of bt] by (intro bit_word_eqI) (fastforce simp: bit_simps)
  then show ?thesis using assms(1) by (simp add: i take_bit_xor)
qed

lemma leReadUintN_loop_fits:
  "leReadUintN_loop n i res bs = Inr (w, r) \<Longrightarrow> take_bit (8 * len) res = res \<Longrightarrow> i + n = len \<Longrightarrow> len \<le> 8
   \<Longrightarrow> take_bit (8 * len) w = w"
proof (induction n arbitrary: i res bs)
  case (Suc n)
  then show ?case using fits_step [of len res i] by (auto simp: pbind_eq_Inr)
qed simp

lemma beReadUintN_loop_fits:
  "beReadUintN_loop len n i res bs = Inr (w, r) \<Longrightarrow> take_bit (8 * len) res = res \<Longrightarrow> i + n = len \<Longrightarrow> len \<le> 8
   \<Longrightarrow> take_bit (8 * len) w = w"
proof (induction n arbitrary: i res bs)
  case (Suc n)
  then show ?case using fits_step [of len res "len - 1 - i"] by (auto simp: pbind_eq_Inr)
qed simp

lemma ReadUintN_fits:
  assumes "ReadUintN b dl bs = Inr (w, r)" "unat dl \<le> 8"
  shows "take_bit (8 * unat dl) w = w"
  using assms leReadUintN_loop_fits [of "unat dl" 0 0 bs w r "unat dl"]
    beReadUintN_loop_fits [of "unat dl" "unat dl" 0 0 bs w r]
  by (cases b) (simp_all add: leReadUintN_def beReadUintN_def)

lemma ReadUintN_less:
  assumes "ReadUintN b dl bs = Inr (w, r)" "unat dl \<le> 6"
  shows "unat w < 2 ^ 48"
proof -
  have "take_bit (8 * unat dl) w = w" using ReadUintN_fits [OF assms(1)] assms(2) by simp
  then have "unat w = take_bit (8 * unat dl) (unat w)" by (metis unsigned_take_bit_eq)
  also have "\<dots> < 2 ^ (8 * unat dl)" by (rule take_bit_nat_less_exp)
  also have "\<dots> \<le> 2 ^ 48" using assms(2) by (intro power_increasing) auto
  finally show ?thesis .
qed

section \<open>Well-formed ranges\<close>

text \<open>
  Ranges in descending order, none empty, with at least one packet missing between neighbours, as
  statements on the natural numbers, where nothing wraps around.
\<close>

definition range_ok :: "AckRange \<Rightarrow> bool" where
  "range_ok r \<longleftrightarrow> unat (ar_First r) \<le> unat (ar_Last r)"

fun descending :: "AckRange list \<Rightarrow> bool" where
  "descending (p # r # rs) \<longleftrightarrow> unat (ar_Last r) + 1 < unat (ar_First p) \<and> descending (r # rs)"
| "descending _ \<longleftrightarrow> True"

definition ranges_wf :: "PacketNumber \<Rightarrow> PacketNumber \<Rightarrow> AckRange list \<Rightarrow> bool" where
  "ranges_wf largest lowest rs \<longleftrightarrow>
     (if rs = [] then lowest \<le> largest
      else 2 \<le> length rs \<and> ar_Last (hd rs) = largest \<and> ar_First (last rs) = lowest \<and>
        (\<forall>r\<in>set rs. range_ok r) \<and> descending rs)"

definition range_set :: "AckRange \<Rightarrow> nat set" where
  "range_set r = {unat (ar_First r)..unat (ar_Last r)}"

text \<open>The packets a list of ranges acknowledges.\<close>

definition acked_set :: "PacketNumber \<Rightarrow> PacketNumber \<Rightarrow> AckRange list \<Rightarrow> nat set" where
  "acked_set largest lowest rs =
     (if rs = [] then {unat lowest..unat largest} else (\<Union>r\<in>set rs. range_set r))"

lemma descending_bounds:
  "descending (r # rs) \<Longrightarrow> \<forall>x\<in>set (r # rs). range_ok x \<Longrightarrow> x \<in> set rs \<Longrightarrow> unat (ar_Last x) + 1 < unat (ar_First r)"
proof (induction rs arbitrary: r)
  case (Cons a rs)
  then show ?case by (fastforce simp: range_ok_def)
qed simp

lemma descending_lowest:
  "descending (r # rs) \<Longrightarrow> \<forall>x\<in>set (r # rs). range_ok x \<Longrightarrow> x \<in> set (r # rs) \<Longrightarrow>
   unat (ar_First (last (r # rs))) \<le> unat (ar_First x)"
proof (induction rs arbitrary: r x)
  case (Cons a rs)
  have "unat (ar_First (last (a # rs))) \<le> unat (ar_First a)" using Cons.IH [of a a] Cons.prems by simp
  also have "\<dots> \<le> unat (ar_First r)" using Cons.prems by (auto simp: range_ok_def)
  finally show ?case using Cons.IH [of a x] Cons.prems by auto
qed simp

lemma ranges_wf_highest:
  assumes "ranges_wf largest lowest rs" "rs \<noteq> []" "x \<in> set rs"
  shows "unat (ar_Last x) \<le> unat largest" "unat lowest \<le> unat (ar_First x)"
proof -
  obtain r rs' where rs: "rs = r # rs'" using assms(2) by (cases rs) auto
  show "unat lowest \<le> unat (ar_First x)"
    using descending_lowest [of r rs' x] assms unfolding rs by (auto simp: ranges_wf_def)
  show "unat (ar_Last x) \<le> unat largest"
    using descending_bounds [of r rs' x] assms unfolding rs
    by (cases "x = r") (auto simp: ranges_wf_def range_ok_def)
qed

text \<open>On well-formed ranges \<^verbatim>\<open>AcksPacket\<close> is membership; its first test is only an optimisation.\<close>

lemma acksPacket_iff:
  assumes "ranges_wf largest lowest rs"
  shows "acksPacket largest lowest rs p \<longleftrightarrow> unat p \<in> acked_set largest lowest rs"
proof (cases "rs = []")
  case False
  have "unat lowest \<le> unat p \<and> unat p \<le> unat largest" if "r \<in> set rs" "unat p \<in> range_set r" for r
    using ranges_wf_highest [OF assms False that(1)] that(2) by (auto simp: range_set_def)
  moreover have "acksPacket largest lowest rs p \<longleftrightarrow>
      unat lowest \<le> unat p \<and> unat p \<le> unat largest \<and> (\<exists>r\<in>set rs. unat p \<in> range_set r)"
    using False by (auto simp: acksPacket_def list_ex_iff word_le_nat_alt word_less_nat_alt range_set_def not_less)
  ultimately have "acksPacket largest lowest rs p \<longleftrightarrow> (\<exists>r\<in>set rs. unat p \<in> range_set r)" by blast
  then show ?thesis using False by (simp add: acked_set_def)
qed (auto simp: acksPacket_def acked_set_def word_le_nat_alt word_less_nat_alt)

section \<open>What the parsers accept\<close>

definition width :: "AckRange \<Rightarrow> u64" where
  "width r = ar_Last r - ar_First r + 1"

definition narrow :: "AckRange \<Rightarrow> bool" where
  "narrow r \<longleftrightarrow> 0 < unat (width r) \<and> unat (width r) < 2 ^ 48"

text \<open>
  While blocks are read every finished range is narrow, and the range of a long gap that is not
  finished is empty.
\<close>

definition blocks_inv :: "AckRange list \<times> bool \<times> bool \<Rightarrow> bool" where
  "blocks_inv st \<longleftrightarrow> (case st of (rs, inLong, complete) \<Rightarrow> rs \<noteq> [] \<and> (\<forall>r\<in>set (butlast rs). narrow r) \<and>
     (if inLong then width (last rs) = 0 \<and> \<not> complete else narrow (last rs)))"

definition new_range :: "AckRange \<Rightarrow> u64 \<Rightarrow> u64 \<Rightarrow> AckRange" where
  "new_range y gap len = \<lparr>ar_First = ar_First y - gap - 1 - len + 1, ar_Last = ar_First y - gap - 1\<rparr>"

definition cont_range :: "AckRange \<Rightarrow> u64 \<Rightarrow> u64 \<Rightarrow> AckRange" where
  "cont_range y gap len = \<lparr>ar_First = ar_First y - (gap + len), ar_Last = ar_Last y - gap\<rparr>"

lemma pos_word: "0 < (w :: u64) \<longleftrightarrow> w \<noteq> 0"
  by (simp add: word_less_nat_alt unat_gt_0)

lemma ackBlock_cases:
  "ackBlock gap len (ys @ [y], True, c) = (ys @ [cont_range y (ucast gap) len], len = 0, len \<noteq> 0 \<or> c)"
  "ackBlock gap len (ys @ [y], False, c) = (ys @ [y, new_range y (ucast gap) len], len = 0, len \<noteq> 0)"
  by (auto simp: ackBlock_def Let_def new_range_def cont_range_def pos_word)

lemma width_ranges: "width (new_range y gap len) = len" "width (cont_range y gap len) = width y + len"
  by (simp_all add: width_def new_range_def cont_range_def)

lemma blocks_inv_ackBlock:
  assumes "blocks_inv st" "unat len < 2 ^ 48"
  shows "blocks_inv (ackBlock gap len st)"
    and "snd (snd (ackBlock gap len st)) \<longleftrightarrow> \<not> fst (snd (ackBlock gap len st))"
proof -
  obtain ys y il c where st: "st = (ys @ [y], il, c)"
    using assms(1) by (cases st) (auto simp: blocks_inv_def dest: append_butlast_last_id [symmetric])
  have inv: "\<forall>r\<in>set ys. narrow r" "if il then width y = 0 \<and> \<not> c else narrow y"
    using assms(1) by (auto simp: st blocks_inv_def)
  have n: "len \<noteq> 0 \<Longrightarrow> width r = len \<Longrightarrow> narrow r" for r
    using assms(2) by (simp add: narrow_def unat_gt_0)
  show "blocks_inv (ackBlock gap len st)"
    using inv n unfolding st
    by (cases il) (auto simp: blocks_inv_def ackBlock_cases width_ranges butlast_append)
  show "snd (snd (ackBlock gap len st)) \<longleftrightarrow> \<not> fst (snd (ackBlock gap len st))"
    using inv unfolding st by (cases il) (auto simp: ackBlock_cases)
qed

lemma parseAckBlocks_inv:
  assumes "parseAckBlocks v dl n st bs = Inr (st', r)" "blocks_inv st" "unat dl \<le> 6"
  shows "blocks_inv st' \<and> (0 < n \<longrightarrow> snd (snd st') = (\<not> fst (snd st')))"
  using assms
proof (induction n arbitrary: st bs)
  case (Suc n)
  then obtain gap len r1 r2 where *: "ReadUintN (GetByteOrder v) dl r1 = Inr (len, r2)"
      "parseAckBlocks v dl n (ackBlock gap len st) r2 = Inr (st', r)"
    by (auto simp: pbind_eq_Inr)
  note inv = blocks_inv_ackBlock [OF Suc.prems(2) ReadUintN_less [OF *(1) Suc.prems(3)], of gap]
  show ?case using Suc.IH [OF *(2) inv(1) Suc.prems(3)] inv(2) *(2) by (cases n) auto
qed simp


lemma ackBlock_head:
  assumes "il \<longrightarrow> xs \<noteq> []"
  shows "\<exists>ys il' c'. ackBlock gap len (x # xs, il, c) = (x # ys, il', c') \<and> ys \<noteq> []"
  using assms by (cases il) (auto simp: ackBlock_def Let_def)

lemma parseAckBlocks_head:
  assumes "parseAckBlocks v dl n (x # xs, il, c) bs = Inr ((rs, st'), r)" "il \<longrightarrow> xs \<noteq> []"
  shows "\<exists>ys. rs = x # ys \<and> (0 < n \<or> xs \<noteq> [] \<longrightarrow> ys \<noteq> [])"
  using assms
proof (induction n arbitrary: xs il c bs)
  case (Suc n)
  then obtain gap len r2 where *: "parseAckBlocks v dl n (ackBlock gap len (x # xs, il, c)) r2 = Inr ((rs, st'), r)"
    by (auto simp: pbind_eq_Inr)
  obtain ys il' c' where a: "ackBlock gap len (x # xs, il, c) = (x # ys, il', c')" "ys \<noteq> []"
    using ackBlock_head [OF Suc.prems(2)] by blast
  show ?case using Suc.IH [OF *[unfolded a(1)]] a(2) by simp
qed auto

lemma unat_Suc_word: "(w :: u64) + 1 \<noteq> 0 \<Longrightarrow> unat (w + 1) = Suc (unat w)"
  using unatSuc [of w] by (simp add: add.commute)

lemma narrow_last:
  assumes "narrow x" "ar_First x \<le> ar_Last x"
  shows "unat (ar_Last x) + 1 = unat (ar_First x) + unat (width x)"
proof -
  have d: "unat (ar_Last x - ar_First x) = unat (ar_Last x) - unat (ar_First x)"
    using assms(2) by (rule unat_minus_le)
  have "width x \<noteq> 0" using assms(1) by (auto simp: narrow_def)
  then have "unat (width x) = Suc (unat (ar_Last x - ar_First x))"
    unfolding width_def using unat_Suc_word [of "ar_Last x - ar_First x"] by simp
  then show ?thesis using d assms(2) by (simp add: word_le_nat_alt)
qed

lemma validated_descending:
  assumes "validateAckRanges_order (r # rs)" "\<forall>x\<in>set (r # rs). narrow x \<and> ar_First x \<le> ar_Last x"
    and "unat (ar_First r) < 2 ^ 48"
  shows "descending (r # rs)"
  using assms
proof (induction rs arbitrary: r)
  case (Cons a rs)
  then have lt: "unat (ar_First a) < unat (ar_First r)" and lt': "unat (ar_Last a + 1) < unat (ar_First r)"
    by (auto simp: not_le word_less_nat_alt split: if_splits)
  have "unat (ar_Last a) + 1 < 2 ^ 49"
    using narrow_last [of a] Cons.prems lt by (simp add: narrow_def)
  then have "unat (ar_Last a + 1) = unat (ar_Last a) + 1"
    by (simp add: unat_plus_less [where y = 1, simplified])
  then show ?case using Cons lt lt' by (auto split: if_splits)
qed simp

lemma validateAckRanges_cons:
  assumes "validateAckRanges largest rs" "rs \<noteq> []"
  shows "2 \<le> length rs" "ar_Last (hd rs) = largest" "x \<in> set rs \<Longrightarrow> ar_First x \<le> ar_Last x"
    "validateAckRanges_order rs"
proof -
  have "length rs \<noteq> 0" "length rs \<noteq> 1"
    using assms by (auto simp: validateAckRanges_def)
  then show "2 \<le> length rs" by linarith
  show "ar_Last (hd rs) = largest" "x \<in> set rs \<Longrightarrow> ar_First x \<le> ar_Last x" "validateAckRanges_order rs"
    using assms by (auto simp: validateAckRanges_def list_all_iff hd_conv_nth not_less split: if_splits)
qed

lemma parseAckRanges_wf:
  assumes "parseAckRanges v dl has n largest bs = Inr ((lowest, rs), r)"
    and dl: "unat dl \<le> 6" and l48: "unat largest < 2 ^ 48" and n: "has \<longrightarrow> n \<noteq> 0"
  shows "ranges_wf largest lowest rs \<and> (rs \<noteq> [] \<longleftrightarrow> has)"
proof -
  from assms(1) obtain len r1 r2 where len: "ReadUintN (GetByteOrder v) dl bs = Inr (len, r1)"
    and chk: "\<not> (largest > 0 \<and> len < 1)" "\<not> len > largest" "validateAckRanges largest rs"
    and res: "readAckRanges v dl has n largest len r1 = Inr ((lowest, rs), r2)"
    unfolding parseAckRanges_def by (auto simp: pbind_eq_Inr pcheck_eq_Inr simp del: pcheck_simp)
  note res = res [unfolded readAckRanges_def]
  have ll: "unat len \<le> unat largest" using chk(2) by (simp add: word_le_nat_alt not_less)
  show ?thesis
  proof (cases has)
    case False
    have "largest + 1 - len \<le> largest" if "largest \<noteq> 0"
    proof -
      have "unat (largest + 1) = unat largest + 1" using l48 by (simp add: unat_plus_less [where y = 1, simplified])
      moreover have "0 < unat len" using chk(1) that by (auto simp: word_less_nat_alt unat_gt_0)
      ultimately show ?thesis using ll by (simp add: word_le_nat_alt unat_minus_le)
    qed
    then show ?thesis using False res by (auto simp: ranges_wf_def split: if_splits)
  next
    case True
    let ?r0 = "\<lparr>ar_First = largest - len + 1, ar_Last = largest\<rparr>"
    obtain ranges il c r' where pb: "parseAckBlocks v dl (unat n) ([?r0], False, False) r1 = Inr ((ranges, il, c), r')"
      and k: "(let ranges' = (if \<not> c then butlast ranges else ranges)
            in if ranges' = [] then pfail (Panic ''index out of range'')
               else preturn (ar_First (last ranges'), ranges')) r' = Inr ((lowest, rs), r2)"
      using res unfolding if_P [OF True] pbind_eq_Inr by (auto simp del: Let_def)
    have rs: "rs = (if \<not> c then butlast ranges else ranges)" "lowest = ar_First (last rs)"
      using k unfolding Let_def by (cases "(if \<not> c then butlast ranges else ranges) = []"; simp)+
    have n0: "0 < unat n" using n True by (simp add: unat_gt_0)
    then have head: "rs \<noteq> []" "hd rs = ?r0"
      using parseAckBlocks_head [OF pb] rs(1) by auto
    note v = validateAckRanges_cons [OF chk(3) head(1)]
    have "largest \<noteq> 0"
    proof
      assume "largest = 0"
      then have "len = 0" using ll by (simp add: word_unat_eq_iff)
      then show False using v(3) [of ?r0] head \<open>largest = 0\<close> hd_in_set [OF head(1)] by simp
    qed
    then have "blocks_inv ([?r0], False, False)"
      using ReadUintN_less [OF len dl] chk(1)
      by (simp add: blocks_inv_def narrow_def width_def pos_word unat_gt_0)
    from parseAckBlocks_inv [OF pb this dl] n0
    have "blocks_inv (ranges, il, c)" "c \<longleftrightarrow> \<not> il" by auto
    then have nar: "\<forall>x\<in>set rs. narrow x"
      using rs(1) by (cases ranges rule: rev_cases) (auto simp: blocks_inv_def split: if_splits)
    obtain r0 rs' where cons: "rs = r0 # rs'" using head(1) by (cases rs) auto
    have "unat (ar_First r0) < 2 ^ 48"
      using v(2) v(3) [of r0] l48 cons by (simp add: word_le_nat_alt)
    then have "descending rs"
      using validated_descending [of r0 rs'] v(3,4) nar cons by auto
    then show ?thesis using v(1-3) head rs(2) True
      by (auto simp: ranges_wf_def range_ok_def word_le_nat_alt)
  qed
qed

lemma two_bits: "unat (2 * ((t :: byte) AND 3)) \<le> 6"
proof -
  have "unat (t AND 3) \<le> 3"
    using word_and_le1 [of t 3] by (simp add: word_le_nat_alt)
  then show ?thesis by (simp add: unat_word_ariths)
qed

lemma lenField_le: "unat (lenField ((t :: byte) AND 3)) \<le> 6" "unat (lenField (drop_bit 2 (t AND 12))) \<le> 6"
proof -
  have "drop_bit 2 (t AND 12) = drop_bit 2 t AND 3" by simp
  then show "unat (lenField (t AND 3)) \<le> 6" "unat (lenField (drop_bit 2 (t AND 12))) \<le> 6"
    using two_bits [of t] two_bits [of "drop_bit 2 t"] by (simp_all add: lenField_def Let_def)
qed

lemma ParseAckFrame_wf:
  assumes "ParseAckFrame v bs = Inr (f, r)"
  shows "unat (ack_LargestAcked f) < 2 ^ 48"
    and "ranges_wf (ack_LargestAcked f) (ack_LowestAcked f) (ack_AckRanges f)"
proof -
  from assms obtain ll dl has path r1 where
    fl: "ParseAckFrame_fields v has ll dl path r1 = Inr (f, r)" and le: "unat ll \<le> 6" "unat dl \<le> 6"
    unfolding ParseAckFrame_def pbind_eq_Inr using lenField_le by blast
  then obtain n r2 r3 r4 r5 where l: "ReadUintN (GetByteOrder v) ll r2 = Inr (ack_LargestAcked f, r3)"
    and n: "\<not> (has \<and> n = 0)"
    and rg: "parseAckRanges v dl has n (ack_LargestAcked f) r4 = Inr ((ack_LowestAcked f, ack_AckRanges f), r5)"
    unfolding ParseAckFrame_fields_def pbind_eq_Inr
    by (fastforce simp: pbind_eq_Inr pcheck_eq_Inr simp del: pcheck_simp)
  show less: "unat (ack_LargestAcked f) < 2 ^ 48" by (rule ReadUintN_less [OF l le(1)])
  show "ranges_wf (ack_LargestAcked f) (ack_LowestAcked f) (ack_AckRanges f)"
    using parseAckRanges_wf [OF rg le(2) less] n by simp
qed

text \<open>
  C20: Whatever bytes the peer sends, an ACK frame that is accepted is well formed: the largest number
  is below \<open>2 ^ 48\<close>, the ranges (at least two, if there are any) are non-empty, in descending order
  and with a gap between neighbours, the first ends at \<open>LargestAcked\<close> and the last starts at
  \<open>LowestAcked\<close>; and \<^verbatim>\<open>AcksPacket\<close> holds exactly for the packets in the ranges.
\<close>

theorem ack_frame_accepted_wf:
  assumes "ParseAckFrame v bs = Inr (f, r)"
  shows "unat (ack_LargestAcked f) < 2 ^ 48
    \<and> ranges_wf (ack_LargestAcked f) (ack_LowestAcked f) (ack_AckRanges f)
    \<and> (AckFrame_AcksPacket f p \<longleftrightarrow>
         unat p \<in> acked_set (ack_LargestAcked f) (ack_LowestAcked f) (ack_AckRanges f))"
  using ParseAckFrame_wf [OF assms] by (simp add: acksPacket_iff AckFrame_AcksPacket_def)


theorem ack_frame_accepted_wf_witness:
  "\<exists>f. ParseAckFrame Version39 [0x60, 9, 0, 0, 1, 2, 3, 4, 0] = Inr (f, []) \<and>
     ack_AckRanges f = [\<lparr>ar_First = 8, ar_Last = 9\<rparr>, \<lparr>ar_First = 1, ar_Last = 4\<rparr>] \<and>
     ranges_wf (ack_LargestAcked f) (ack_LowestAcked f) (ack_AckRanges f) \<and> \<not> AckFrame_AcksPacket f 6"
proof -
  have p: "ParseAckFrame Version39 [0x60, 9, 0, 0, 1, 2, 3, 4, 0] =
     Inr (\<lparr>ack_PathID = 0, ack_LargestAcked = 9, ack_LowestAcked = 1,
       ack_AckRanges = [\<lparr>ar_First = 8, ar_Last = 9\<rparr>, \<lparr>ar_First = 1, ar_Last = 4\<rparr>],
       ack_PacketReceivedTime = 0, ack_DelayTime = 0\<rparr>, [])"
    by code_simp
  show ?thesis using ack_frame_accepted_wf [OF p, of 6] p
    by (auto simp: acked_set_def range_set_def)
qed

text \<open>The same for CLOSE_PATH.\<close>

lemma close_path_frame_accepted_wf:
  assumes "ParseClosePathFrame v bs = Inr (f, r)"
  shows "unat (cp_LargestAcked f) < 2 ^ 48
    \<and> ranges_wf (cp_LargestAcked f) (cp_LowestAcked f) (cp_AckRanges f)
    \<and> (ClosePathFrame_AcksPacket f p \<longleftrightarrow>
         unat p \<in> acked_set (cp_LargestAcked f) (cp_LowestAcked f) (cp_AckRanges f))"
proof -
  from assms obtain ll dl has path r1 where
    fl: "ParseClosePathFrame_fields v path has ll dl r1 = Inr (f, r)" and le: "unat ll \<le> 6" "unat dl \<le> 6"
    unfolding ParseClosePathFrame_def pbind_eq_Inr using lenField_le by blast
  then obtain n r2 r3 r4 r5 where l: "ReadUintN (GetByteOrder v) ll r2 = Inr (cp_LargestAcked f, r3)"
    and n: "\<not> (has \<and> n = 0)"
    and rg: "parseAckRanges v dl has n (cp_LargestAcked f) r4 = Inr ((cp_LowestAcked f, cp_AckRanges f), r5)"
    unfolding ParseClosePathFrame_fields_def pbind_eq_Inr
    by (fastforce simp: pbind_eq_Inr pcheck_eq_Inr simp del: pcheck_simp)
  have "unat (cp_LargestAcked f) < 2 ^ 48" by (rule ReadUintN_less [OF l le(1)])
  moreover from parseAckRanges_wf [OF rg le(2) this] n
  have "ranges_wf (cp_LargestAcked f) (cp_LowestAcked f) (cp_AckRanges f)" by simp
  ultimately show ?thesis
    by (simp add: acksPacket_iff ClosePathFrame_AcksPacket_def)
qed

end
