(* ===== verification/AckCodec.thy ===== *)
theory AckCodec
  imports AckFrames
begin

text \<open>
  The ranges of an ACK or CLOSE_PATH frame survive the wire. A range is split into blocks, the blocks
  are written and read back, and the blocks of a long gap are joined again. Only a prefix of the
  ranges is sent when they take more than 255 blocks.
\<close>

section \<open>Blocks of a range\<close>

text \<open>The number of packets missing between a range and the one before it, and its blocks.\<close>

definition gap_nat :: "AckRange \<Rightarrow> AckRange \<Rightarrow> nat" where
  "gap_nat p r = unat (ar_First p) - unat (ar_Last r) - 1"

definition blocks_nat :: "AckRange \<Rightarrow> AckRange \<Rightarrow> nat" where
  "blocks_nat p r = (gap_nat p r + 254) div 255"

definition range_blocks :: "AckRange \<Rightarrow> AckRange \<Rightarrow> (byte \<times> u64) list" where
  "range_blocks p r = replicate (blocks_nat p r - 1) (255, 0)
     @ [(of_nat (1 + (gap_nat p r - 1) mod 255), width r)]"

lemma length_range_blocks: "0 < blocks_nat p r \<Longrightarrow> length (range_blocks p r) = blocks_nat p r"
  by (simp add: range_blocks_def)

lemma blocks_nat_pos: "unat (ar_Last r) + 1 < unat (ar_First p) \<Longrightarrow> 0 < blocks_nat p r"
  by (simp add: blocks_nat_def gap_nat_def less_eq_div_iff_mult_less_eq)

lemma unat_gap:
  assumes "unat (ar_Last r) + 1 < unat (ar_First p)"
  shows "unat (ar_First p - ar_Last r - 1) = gap_nat p r"
proof -
  have d: "unat (ar_First p - ar_Last r) = unat (ar_First p) - unat (ar_Last r)"
    using assms by (simp add: unat_minus_le word_le_nat_alt)
  then have "1 \<le> ar_First p - ar_Last r" using assms by (simp add: word_le_nat_alt)
  then show ?thesis using d by (simp add: unat_minus_le gap_nat_def)
qed

lemma ceil_div_255: "0 < (n :: nat) \<Longrightarrow> (n + 254) div 255 = (if n mod 255 = 0 then n div 255 else n div 255 + 1)"
proof -
  assume "0 < n"
  define q m where "q = n div 255" and "m = n mod 255"
  have n: "n = 255 * q + m" and m: "m < 255" by (simp_all add: q_def m_def)
  have "(255 * q + (m + 254)) div 255 = q + (m + 254) div 255" by (simp add: div_mult_self3)
  moreover have "(m + 254) div 255 = (if m = 0 then 0 else 1)"
    using m by (auto simp: div_nat_eqI)
  ultimately have "(n + 254) div 255 = (if m = 0 then q else q + 1)" by (simp add: n add.assoc)
  then show ?thesis by (simp only: q_def m_def)
qed

lemma unat_gapBlocks:
  assumes "unat (ar_Last r) + 1 < unat (ar_First p)"
  shows "unat (gapBlocks (ar_First p - ar_Last r - 1)) = blocks_nat p r"
proof -
  let ?g = "ar_First p - ar_Last r - 1"
  have g: "unat ?g = gap_nat p r" using assms by (rule unat_gap)
  then have gp: "0 < gap_nat p r" using assms by (simp add: gap_nat_def)
  have d: "unat (?g div 255) = gap_nat p r div 255" and m: "unat (?g mod 255) = gap_nat p r mod 255"
    using g by (simp_all add: unat_div unat_mod)
  have "unat (1 + ?g div 255) = 1 + gap_nat p r div 255"
  proof -
    have "gap_nat p r < 2 ^ 64" using unat_less_64 [of ?g] g by simp
    then have "unat (1 :: u64) + unat (?g div 255) < 2 ^ LENGTH(64)"
      unfolding d by (simp add: div_less_dividend le_less_trans)
    from unat_plus_less [OF this] d show ?thesis by simp
  qed
  moreover have "?g mod 255 = 0 \<longleftrightarrow> gap_nat p r mod 255 = 0"
    using m by (metis unat_eq_zero)
  ultimately show ?thesis
    using ceil_div_255 [OF gp] d by (simp add: gapBlocks_def blocks_nat_def)
qed

section \<open>Blocks on the wire\<close>

definition trunc_ok :: "(u64 \<Rightarrow> u64) \<Rightarrow> bool" where
  "trunc_ok trunc \<longleftrightarrow> (\<forall>w. unat w < 2 ^ 48 \<longrightarrow> trunc w = w)"

lemma trunc_ok_cut48: "trunc_ok cut48"
  by (auto simp: trunc_ok_def cut48_def mask48 fits48 word_unat_eq_iff unsigned_take_bit_eq take_bit_nat_eq_self)

lemma trunc_ok_id: "trunc_ok (\<lambda>w. w)"
  by (simp add: trunc_ok_def)

definition dl_ok :: "PacketNumberLen \<Rightarrow> bool" where
  "dl_ok dl \<longleftrightarrow> dl \<in> {PacketNumberLen1, PacketNumberLen2, PacketNumberLen4, PacketNumberLen6}"

lemma writePacketNumberLen_enc:
  assumes "dl_ok dl" "unat w < 2 ^ (8 * unat dl)" "trunc_ok trunc"
  shows "writePacketNumberLen trunc b dl w = Inr (enc_bytes b (unat dl) w)"
    and "ReadUintN b dl (enc_bytes b (unat dl) w @ r) = Inr (w, r)"
proof -
  have u: "uint w < 2 ^ (8 * unat dl)"
    using assms(2) by (metis of_nat_less_iff of_nat_numeral of_nat_power uint_nat)
  show "writePacketNumberLen trunc b dl w = Inr (enc_bytes b (unat dl) w)"
    using assms u
    by (auto simp: dl_ok_def writePacketNumberLen_def codec take_bit_ucast take_bit_small fits48 trunc_ok_def
      bo.enc_one [simplified])
  show "ReadUintN b dl (enc_bytes b (unat dl) w @ r) = Inr (w, r)"
    using assms u by (auto simp: dl_ok_def codec take_bit_small)
qed

definition block_bytes :: "ByteOrder \<Rightarrow> PacketNumberLen \<Rightarrow> (byte \<times> u64) list \<Rightarrow> byte list" where
  "block_bytes b dl bl = concat (map (\<lambda>(g, l). g # enc_bytes b (unat dl) l) bl)"

lemma block_bytes_simps [simp]:
  "block_bytes b dl [] = []"
  "block_bytes b dl ((g, l) # bl) = g # enc_bytes b (unat dl) l @ block_bytes b dl bl"
  "block_bytes b dl (xs @ ys) = block_bytes b dl xs @ block_bytes b dl ys"
  by (simp_all add: block_bytes_def)

lemma length_block_bytes: "length (block_bytes b dl bl) = length bl * (1 + unat dl)"
  by (induction bl) auto

lemma parseAckBlocks_bytes:
  assumes "dl_ok dl" "\<forall>(g, l)\<in>set bl. unat l < 2 ^ (8 * unat dl)"
  shows "parseAckBlocks v dl (length bl) st (block_bytes (GetByteOrder v) dl bl @ r)
    = Inr (fold (\<lambda>(g, l). ackBlock g l) bl st, r)"
  using assms(2)
proof (induction bl arbitrary: st)
  case (Cons x bl)
  obtain g l where x: "x = (g, l)" by (cases x)
  have "unat l < 2 ^ (8 * unat dl)" using Cons.prems x by simp
  from writePacketNumberLen_enc(2) [OF assms(1) this trunc_ok_id] show ?case
    using Cons x by simp
qed simp

section \<open>Reading the blocks of a range\<close>

definition gap_ok :: "AckRange \<Rightarrow> AckRange \<Rightarrow> bool" where
  "gap_ok p r \<longleftrightarrow> unat (ar_Last r) + 1 < unat (ar_First p) \<and> range_ok r"

lemma gap_nat_split:
  assumes "0 < (g :: nat)"
  shows "g = 255 * ((g + 254) div 255 - 1) + (1 + (g - 1) mod 255)"
proof -
  obtain h where g: "g = Suc h" using assms by (cases g) auto
  have "(g + 254) div 255 = h div 255 + 1" by (simp add: g)
  then show ?thesis using mult_div_mod_eq [of 255 h] by (simp add: g)
qed

lemma new_range_gap:
  assumes "gap_ok p r"
  shows "new_range p (of_nat (gap_nat p r)) (width r) = r"
proof -
  have "of_nat (gap_nat p r) = ar_First p - ar_Last r - 1"
    using unat_gap [of r p] assms unfolding gap_ok_def by (metis of_nat_unat ucast_id)
  then show ?thesis by (simp add: new_range_def width_def)
qed

lemma width_ok:
  assumes "range_ok r" "unat (ar_Last r) < 2 ^ 48"
  shows "unat (width r) = unat (ar_Last r) - unat (ar_First r) + 1" "width r \<noteq> 0"
proof -
  have d: "unat (ar_Last r - ar_First r) = unat (ar_Last r) - unat (ar_First r)"
    using assms by (simp add: unat_minus_le word_le_nat_alt range_ok_def)
  then show "unat (width r) = unat (ar_Last r) - unat (ar_First r) + 1"
    unfolding width_def using assms by (subst unat_plus_less) simp_all
  then show "width r \<noteq> 0" by auto
qed

lemma fold_cont:
  "fold (\<lambda>(g, l). ackBlock g l) (replicate j (255, 0)) (ys @ [y], True, False)
     = (ys @ [cont_range y (of_nat (255 * j)) 0], True, False)"
proof (induction j arbitrary: y)
  case (Suc j)
  have "cont_range (cont_range y 255 0) (of_nat (255 * j)) 0 = cont_range y (of_nat (255 * Suc j)) 0"
    by (simp add: cont_range_def algebra_simps)
  then show ?case using Suc by (simp add: ackBlock_cases)
qed (simp add: cont_range_def)

lemma fold_range_blocks:
  assumes "gap_ok p r" "width r \<noteq> 0"
  shows "fold (\<lambda>(g, l). ackBlock g l) (range_blocks p r) (ys @ [p], False, c) = (ys @ [p, r], False, True)"
proof -
  define k where "k = blocks_nat p r - 1"
  define g where "g = 1 + (gap_nat p r - 1) mod 255"
  have gp: "0 < gap_nat p r" using assms(1) by (simp add: gap_ok_def gap_nat_def)
  have split: "gap_nat p r = 255 * k + g"
    using gap_nat_split [OF gp] by (simp only: k_def g_def blocks_nat_def)
  have g255: "g \<le> 255" by (simp add: g_def Suc_leI less_imp_le_nat)
  have ug: "ucast (of_nat g :: byte) = (of_nat g :: u64)"
    using g255 by (simp add: word_unat_eq_iff unsigned_ucast_eq unat_of_nat take_bit_nat_eq_self)
  note r = new_range_gap [OF assms(1), unfolded split]
  have rb: "range_blocks p r = replicate k (255, 0) @ [(of_nat g, width r)]"
    by (simp only: range_blocks_def k_def g_def)
  show ?thesis
  proof (cases k)
    case 0
    then show ?thesis using r assms(2) ug by (simp add: rb ackBlock_cases)
  next
    case (Suc j)
    have "cont_range (cont_range (new_range p 255 0) (of_nat (255 * j)) 0) (of_nat g) (width r)
      = new_range p (of_nat (255 * Suc j + g)) (width r)"
      by (simp add: cont_range_def new_range_def algebra_simps)
    moreover have "fold (\<lambda>(g, l). ackBlock g l) (replicate k (255, 0)) (ys @ [p], False, c)
      = ((ys @ [p]) @ [cont_range (new_range p 255 0) (of_nat (255 * j)) 0], True, False)"
      using fold_cont [of j "ys @ [p]" "new_range p 255 0"] Suc
      by (simp add: ackBlock_cases del: fold_replicate)
    ultimately show ?thesis
      using r assms(2) ug Suc ackBlock_cases(1) [of "of_nat g" "width r" "ys @ [p]"]
      by (simp add: rb del: fold_replicate of_nat_add of_nat_mult)
  qed
qed

section \<open>The ranges that are sent\<close>

fun chain :: "AckRange \<Rightarrow> AckRange list \<Rightarrow> bool" where
  "chain p [] \<longleftrightarrow> True"
| "chain p (r # rs) \<longleftrightarrow> gap_ok p r \<and> unat (ar_Last r) < 2 ^ 48 \<and> chain r rs"

text \<open>The ranges after \<open>p\<close> that fit in 254 blocks, when \<open>n\<close> blocks are in use.\<close>

fun sent_prefix :: "AckRange \<Rightarrow> AckRange list \<Rightarrow> nat \<Rightarrow> AckRange list" where
  "sent_prefix p [] n = []"
| "sent_prefix p (r # rs) n =
     (if n + blocks_nat p r < 255 then r # sent_prefix r rs (n + blocks_nat p r) else [])"

fun chain_blocks :: "AckRange \<Rightarrow> AckRange list \<Rightarrow> (byte \<times> u64) list" where
  "chain_blocks p [] = []"
| "chain_blocks p (r # rs) = range_blocks p r @ chain_blocks r rs"

lemma chain_sent_prefix: "chain p rs \<Longrightarrow> chain p (sent_prefix p rs n)"
  by (induction p rs n rule: sent_prefix.induct) auto

lemma set_sent_prefix: "set (sent_prefix p rs n) \<subseteq> set rs"
  by (induction p rs n rule: sent_prefix.induct) auto

lemma gap_ok_blocks: "gap_ok p r \<Longrightarrow> 0 < blocks_nat p r"
    "gap_ok p r \<Longrightarrow> unat (gapBlocks (ar_First p - ar_Last r - 1)) = blocks_nat p r"
  by (auto simp: gap_ok_def blocks_nat_pos unat_gapBlocks)

lemma length_chain_blocks_le: "n < 255 \<Longrightarrow> chain p rs \<Longrightarrow> n + length (chain_blocks p (sent_prefix p rs n)) < 255"
proof (induction p rs n rule: sent_prefix.induct)
  case (2 p r rs n)
  then show ?case using length_range_blocks [OF gap_ok_blocks(1)] by (fastforce simp: add.assoc)
qed simp

lemma blocks_nat_less: "blocks_nat p r < 2 ^ 60"
proof -
  have "gap_nat p r \<le> unat (ar_First p)" by (simp add: gap_nat_def)
  then have "gap_nat p r + 254 < 2 ^ 60 * 255" using unat_less_64 [of "ar_First p"] by (simp del: unat_less_64)
  then show ?thesis unfolding blocks_nat_def by (rule less_mult_imp_div_less)
qed

lemma numWritable_loop_nat:
  assumes "chain p rs" "n < 255"
  shows "unat (numWritableNackRanges_loop p rs (of_nat n)) = n + length (chain_blocks p (sent_prefix p rs n))"
  using assms
proof (induction rs arbitrary: p n)
  case Nil
  then show ?case by (simp add: unat_of_nat)
next
  case (Cons r rs)
  let ?b = "gapBlocks (ar_First p - ar_Last r - 1)"
  have b: "unat ?b = blocks_nat p r" "0 < blocks_nat p r"
    using Cons.prems gap_ok_blocks by auto
  note small = blocks_nat_less [of p r]
  have s: "unat (of_nat n + ?b) = n + blocks_nat p r"
    using Cons.prems small by (subst unat_plus_less) (simp_all add: b unat_of_nat)
  then have eq: "of_nat n + ?b = of_nat (n + blocks_nat p r)"
    by (metis of_nat_unat ucast_id)
  have lt: "of_nat n + ?b < 255 \<longleftrightarrow> n + blocks_nat p r < 255"
    by (simp add: word_less_nat_alt s)
  show ?case
  proof (cases "n + blocks_nat p r < 255")
    case True
    then show ?thesis using Cons.IH [of r "n + blocks_nat p r"] Cons.prems lt length_range_blocks [OF b(2)]
      by (simp add: Let_def eq del: of_nat_add)
  next
    case False
    then show ?thesis using lt Cons.prems by (simp add: Let_def unat_of_nat)
  qed
qed


section \<open>Writing the ranges\<close>

lemma writeBlock_enc:
  assumes "dl_ok dl" "trunc_ok trunc" "unat l < 2 ^ (8 * unat dl)"
  shows "writeBlock trunc b dl g l = Inr (block_bytes b dl [(g, l)])"
  using writePacketNumberLen_enc(1) [OF assms(1,3,2)] by (simp add: writeBlock_def)

lemma wseq_replicate: "wseq (replicate n (Inr xs)) = Inr (concat (replicate n xs))"
  by (induction n) auto

lemma block_bytes_replicate: "block_bytes b dl (replicate n x) = concat (replicate n (block_bytes b dl [x]))"
  by (induction n) (auto simp: block_bytes_def)

lemma writeLongGap_enc:
  assumes dl: "dl_ok dl" and tr: "trunc_ok trunc" and l: "unat l < 2 ^ (8 * unat dl)" and num: "unat num = Suc k"
  shows "writeLongGap trunc b dl num gap l =
    Inr (block_bytes b dl (replicate k (255, 0) @ [(ucast (1 + (gap - 1) mod 255), l)]))"
proof -
  have z: "unat (0 :: u64) < 2 ^ (8 * unat dl)" by simp
  have "map (\<lambda>i. if Suc i = unat num then writeBlock trunc b dl (ucast (1 + (gap - 1) mod 255)) l
             else writeBlock trunc b dl 0xFF 0) [0..<unat num]
    = replicate k (Inr (block_bytes b dl [(255, 0)])) @ [Inr (block_bytes b dl [(ucast (1 + (gap - 1) mod 255), l)])]"
    unfolding num by (simp add: writeBlock_enc [OF dl tr l] replicate_eqI writeBlock_enc [OF dl tr z])
      (rule replicate_eqI; auto simp: writeBlock_enc [OF dl tr z])
  then show ?thesis
    unfolding writeLongGap_def by (simp add: wseq_append wseq_replicate block_bytes_replicate)
qed

lemma write_range_enc:
  assumes dl: "dl_ok dl" and tr: "trunc_ok trunc" and l: "unat (width r) < 2 ^ (8 * unat dl)" and g: "gap_ok p r"
  shows "(if gapBlocks (ar_First p - ar_Last r - 1) = 1
      then writeBlock trunc b dl (ucast (ar_First p - ar_Last r - 1)) (width r)
      else writeLongGap trunc b dl (gapBlocks (ar_First p - ar_Last r - 1)) (ar_First p - ar_Last r - 1) (width r))
    = Inr (block_bytes b dl (range_blocks p r))"
proof -
  let ?g = "ar_First p - ar_Last r - 1"
  have ug: "unat ?g = gap_nat p r" and gp: "0 < gap_nat p r"
    using g by (simp_all add: gap_ok_def unat_gap gap_nat_def)
  note nb = gap_ok_blocks [OF g]
  have "unat (g' - 1) = unat g' - 1" if "0 < unat g'" for g' :: u64
    using that by (simp add: unat_minus_le word_le_nat_alt)
  then have "unat (?g - 1) = gap_nat p r - 1" using ug gp by metis
  then have "unat ((?g - 1) mod 255) = (gap_nat p r - 1) mod 255" by (simp add: unat_mod)
  then have "unat (1 + (?g - 1) mod 255) = 1 + (gap_nat p r - 1) mod 255"
    by (subst unat_plus_less) (simp_all add: less_trans [OF mod_less_divisor])
  then have last: "ucast (1 + (?g - 1) mod 255) = (of_nat (1 + (gap_nat p r - 1) mod 255) :: byte)"
    by (metis of_nat_unat)
  show ?thesis
  proof (cases "gapBlocks ?g = 1")
    case True
    then have b1: "blocks_nat p r = 1" using nb(2) by simp
    then have "gap_nat p r = 1 + (gap_nat p r - 1) mod 255"
      using gap_nat_split [OF gp] by (simp add: blocks_nat_def)
    then have "ucast ?g = (of_nat (1 + (gap_nat p r - 1) mod 255) :: byte)"
      using ug by (metis of_nat_unat)
    then show ?thesis using True b1 writeBlock_enc [OF dl tr l] by (simp add: range_blocks_def)
  next
    case False
    have "unat (gapBlocks ?g) = Suc (blocks_nat p r - 1)" using nb by simp
    from writeLongGap_enc [OF dl tr l this] False last show ?thesis by (simp add: range_blocks_def)
  qed
qed

lemma writeRanges_loop_enc:
  assumes dl: "dl_ok dl" and tr: "trunc_ok trunc"
    and "chain p rs" "\<forall>x\<in>set rs. unat (width x) < 2 ^ (8 * unat dl)" "sent_prefix p rs n \<noteq> []"
    and "unat written = n + 1" "unat numRanges = 1 + n + length (chain_blocks p (sent_prefix p rs n))"
  shows "writeRanges_loop trunc b dl numRanges p rs written
    = (Inr (block_bytes b dl (chain_blocks p (sent_prefix p rs n))), numRanges)"
  using assms(3-)
proof (induction rs arbitrary: p n written)
  case (Cons r rs)
  let ?g = "ar_First p - ar_Last r - 1"
  let ?n = "n + blocks_nat p r"
  have g: "gap_ok p r" and lt: "?n < 255" using Cons.prems by (auto split: if_splits)
  note nb = gap_ok_blocks [OF g]
  have w: "(if gapBlocks ?g = 1 then (writeBlock trunc b dl (ucast ?g) (width r), written + 1)
     else (writeLongGap trunc b dl (gapBlocks ?g) ?g (width r), written + gapBlocks ?g))
    = (Inr (block_bytes b dl (range_blocks p r)), written + gapBlocks ?g)"
    using write_range_enc [OF dl tr _ g, of b] Cons.prems(2) by (auto split: if_splits)
  have step: "writeRanges_loop trunc b dl numRanges p (r # rs) written =
    (if numRanges \<le> written + gapBlocks ?g then (Inr (block_bytes b dl (range_blocks p r)), written + gapBlocks ?g)
     else case writeRanges_loop trunc b dl numRanges r rs (written + gapBlocks ?g) of (w', written'') \<Rightarrow>
       (wseq [Inr (block_bytes b dl (range_blocks p r)), w'], written''))"
    by (simp only: writeRanges_loop.simps Let_def width_def [symmetric] w prod.case)
  have wr: "unat (written + gapBlocks ?g) = ?n + 1"
    using Cons.prems lt nb by (subst unat_plus_less) simp_all
  have len: "length (chain_blocks p (sent_prefix p (r # rs) n)) = blocks_nat p r + length (chain_blocks r (sent_prefix r rs ?n))"
    using lt length_range_blocks [OF nb(1)] by simp
  show ?case
  proof (cases "sent_prefix r rs ?n = []")
    case True
    then have "numRanges \<le> written + gapBlocks ?g" "numRanges = written + gapBlocks ?g"
      using len wr Cons.prems(5) by (auto simp: word_le_nat_alt word_unat_eq_iff)
    then show ?thesis unfolding step using True lt by simp
  next
    case False
    then have "0 < length (chain_blocks r (sent_prefix r rs ?n))"
      by (cases rs) (auto simp: range_blocks_def split: if_splits)
    then have "\<not> numRanges \<le> written + gapBlocks ?g"
      using len wr Cons.prems(5) by (simp add: word_le_nat_alt)
    moreover have "writeRanges_loop trunc b dl numRanges r rs (written + gapBlocks ?g)
      = (Inr (block_bytes b dl (chain_blocks r (sent_prefix r rs ?n))), numRanges)"
      using Cons.IH [of r ?n "written + gapBlocks ?g"] Cons.prems False wr len by simp
    ultimately show ?thesis using lt by (simp add: step del: writeRanges_loop.simps)
  qed
qed simp

section \<open>Reading the ranges\<close>

lemma chain_widths: "chain p rs \<Longrightarrow> x \<in> set rs \<Longrightarrow> width x \<noteq> 0"
  by (induction p rs rule: chain.induct) (auto simp: width_ok gap_ok_def)

lemma fold_chain:
  "chain p rs \<Longrightarrow> fold (\<lambda>(g, l). ackBlock g l) (chain_blocks p rs) (ys @ [p], False, c)
     = (ys @ p # rs, False, rs \<noteq> [] \<or> c)"
proof (induction rs arbitrary: p ys c)
  case (Cons r rs)
  then have "fold (\<lambda>(g, l). ackBlock g l) (range_blocks p r) (ys @ [p], False, c) = ((ys @ [p]) @ [r], False, True)"
    using fold_range_blocks [of p r ys c] chain_widths [OF Cons.prems] by simp
  then show ?case using Cons.IH [of r "ys @ [p]" True] Cons.prems by simp
qed simp

lemma chain_order: "chain p rs \<Longrightarrow> validateAckRanges_order (p # rs)"
proof (induction rs arbitrary: p)
  case (Cons r rs)
  then have "unat (ar_Last r + 1) = unat (ar_Last r) + 1"
    by (subst unat_plus_less) simp_all
  then show ?case using Cons by (auto simp: gap_ok_def range_ok_def word_le_nat_alt)
qed simp

lemma chain_range_ok: "chain p rs \<Longrightarrow> x \<in> set rs \<Longrightarrow> range_ok x"
  by (induction p rs rule: chain.induct) (auto simp: gap_ok_def)

lemma chain_block_lens:
  "\<forall>x\<in>set rs. unat (width x) < 2 ^ (8 * unat dl) \<Longrightarrow> \<forall>(g, l)\<in>set (chain_blocks p rs). unat l < 2 ^ (8 * unat dl)"
  by (induction p rs rule: chain_blocks.induct) (auto simp: range_blocks_def split: if_splits)

lemma parseAckRanges_none:
  assumes dl: "dl_ok dl" and le: "1 \<le> unat lowest" "unat lowest \<le> unat largest" "unat largest < 2 ^ 48"
    and fits: "unat (largest - lowest + 1) < 2 ^ (8 * unat dl)"
  shows "parseAckRanges v dl False n largest (enc_bytes (GetByteOrder v) (unat dl) (largest - lowest + 1) @ r)
    = Inr ((lowest, []), r)"
proof -
  have d: "unat (largest - lowest + 1) = unat largest - unat lowest + 1"
    using width_ok(1) [of "\<lparr>ar_First = lowest, ar_Last = largest\<rparr>"] le by (simp add: width_def range_ok_def)
  have "largest \<noteq> 0" "largest - lowest + 1 \<noteq> 0" "\<not> largest < largest - lowest + 1"
    using le d by (auto simp: word_less_nat_alt)
  moreover have "largest + 1 - (largest - lowest + 1) = lowest" by simp
  ultimately show ?thesis
    using writePacketNumberLen_enc(2) [OF dl fits trunc_ok_id]
    by (simp add: parseAckRanges_def readAckRanges_def validateAckRanges_def)
qed

lemma parseAckRanges_some:
  assumes dl: "dl_ok dl" and ch: "chain r0 rs" "rs \<noteq> []" and r0: "range_ok r0" "1 \<le> unat (ar_First r0)"
    and l48: "unat (ar_Last r0) < 2 ^ 48"
    and fits: "\<forall>x\<in>set (r0 # rs). unat (width x) < 2 ^ (8 * unat dl)"
    and n: "unat n = length (chain_blocks r0 rs)"
  shows "parseAckRanges v dl True n (ar_Last r0)
      (enc_bytes (GetByteOrder v) (unat dl) (width r0) @ block_bytes (GetByteOrder v) dl (chain_blocks r0 rs) @ r)
    = Inr ((ar_First (last rs), r0 # rs), r)"
proof -
  note w = width_ok [OF r0(1) l48]
  have rd: "ReadUintN (GetByteOrder v) dl (enc_bytes (GetByteOrder v) (unat dl) (width r0) @ x) = Inr (width r0, x)" for x
    using fits by (intro writePacketNumberLen_enc(2) [OF dl _ trunc_ok_id]) simp
  have chk: "width r0 \<noteq> 0" "\<not> ar_Last r0 < width r0"
    using w r0 by (auto simp: word_less_nat_alt range_ok_def)
  have eq: "\<lparr>ar_First = ar_Last r0 - width r0 + 1, ar_Last = ar_Last r0\<rparr> = r0"
    by (simp add: width_def)
  have pb: "parseAckBlocks v dl (unat n) ([r0], False, False)
      (block_bytes (GetByteOrder v) dl (chain_blocks r0 rs) @ r) = Inr ((r0 # rs, False, True), r)"
    using parseAckBlocks_bytes [OF dl chain_block_lens [of rs dl r0]] fits fold_chain [OF ch(1), of "[]" False] ch(2)
    by (simp add: n)
  have "validateAckRanges (ar_Last r0) (r0 # rs)"
    using chain_order [OF ch(1)] chain_range_ok [OF ch(1)] r0 ch(2)
    by (auto simp: validateAckRanges_def list_all_iff range_ok_def not_less word_le_nat_alt)
  then show ?thesis
    using chk pb ch(2) by (simp add: parseAckRanges_def readAckRanges_def rd eq Let_def)
qed

section \<open>Widths of the fields\<close>

lemma GetPacketNumberLength_fits:
  assumes "unat w < 2 ^ 48"
  shows "dl_ok (GetPacketNumberLength w)" "unat w < 2 ^ (8 * unat (GetPacketNumberLength w))"
  using assms by (auto simp: GetPacketNumberLength_def dl_ok_def word_less_nat_alt)

definition max_width :: "AckRange list \<Rightarrow> u64 \<Rightarrow> u64" where
  "max_width rs m = fold (\<lambda>r m. let l = width r in if l > m then l else m) rs m"

lemma max_width_ge: "unat m \<le> unat (max_width rs m)" "x \<in> set rs \<Longrightarrow> unat (width x) \<le> unat (max_width rs m)"
proof (induction rs arbitrary: m)
  case (Cons r rs)
  { case 1 then show ?case using Cons.IH(1) [of "if width r > m then width r else m"]
      by (auto simp: max_width_def Let_def word_less_nat_alt split: if_splits) }
  { case 2 then show ?case using Cons.IH [of "if width r > m then width r else m"]
      by (auto simp: max_width_def Let_def word_less_nat_alt split: if_splits) }
qed (auto simp: max_width_def)

lemma max_width_less: "\<forall>x\<in>set rs. unat (width x) < N \<Longrightarrow> unat m < N \<Longrightarrow> unat (max_width rs m) < N"
  by (induction rs arbitrary: m) (auto simp: max_width_def Let_def)

lemma deltaLen_fits:
  fixes w :: u64
  assumes "unat w < 2 ^ 48"
    and "dl = (if w \<le> 0xFF then PacketNumberLen1 else if w \<le> 0xFFFF then PacketNumberLen2
          else if w \<le> 0xFFFFFFFF then PacketNumberLen4 else PacketNumberLen6)"
  shows "dl_ok dl" "unat w < 2 ^ (8 * unat dl)"
  using assms by (auto simp: dl_ok_def word_le_nat_alt)

lemma getMissing_ranges:
  fixes largest lowest :: PacketNumber
  assumes "\<forall>x\<in>set rs. unat (width x) < 2 ^ 48" "rs \<noteq> []"
  defines "dl \<equiv> getMissingSequenceNumberDeltaLen largest lowest rs"
  shows "dl_ok dl" "x \<in> set rs \<Longrightarrow> unat (width x) < 2 ^ (8 * unat dl)"
proof -
  let ?m = "max_width rs 0"
  have m: "unat ?m < 2 ^ 48" using max_width_less [OF assms(1), of 0] by simp
  have "dl = (if ?m \<le> 0xFF then PacketNumberLen1 else if ?m \<le> 0xFFFF then PacketNumberLen2
          else if ?m \<le> 0xFFFFFFFF then PacketNumberLen4 else PacketNumberLen6)"
    using assms(2) unfolding dl_def getMissingSequenceNumberDeltaLen_def max_width_def width_def Let_def by simp
  note d = deltaLen_fits [OF m this]
  show "dl_ok dl" by (rule d(1))
  show "x \<in> set rs \<Longrightarrow> unat (width x) < 2 ^ (8 * unat dl)"
    using d(2) max_width_ge(2) le_less_trans by blast
qed

lemma getMissing_none:
  fixes largest lowest :: PacketNumber
  assumes "unat (largest - lowest + 1) < 2 ^ 48"
  defines "dl \<equiv> getMissingSequenceNumberDeltaLen largest lowest []"
  shows "dl_ok dl" "unat (largest - lowest + 1) < 2 ^ (8 * unat dl)"
proof -
  have "dl = (if largest - lowest + 1 \<le> 0xFF then PacketNumberLen1
      else if largest - lowest + 1 \<le> 0xFFFF then PacketNumberLen2
      else if largest - lowest + 1 \<le> 0xFFFFFFFF then PacketNumberLen4 else PacketNumberLen6)"
    by (simp only: dl_def getMissingSequenceNumberDeltaLen_def Let_def list.size less_irrefl if_False)
  from deltaLen_fits [OF assms(1) this]
  show "dl_ok dl" "unat (largest - lowest + 1) < 2 ^ (8 * unat dl)" .
qed

section \<open>Frames that can be sent\<close>

text \<open>
  Ranges as the receiver's packet history builds them, from packet 1 on. The first gap must take
  fewer than 255 blocks.
\<close>

definition ranges_sendable :: "PacketNumber \<Rightarrow> PacketNumber \<Rightarrow> AckRange list \<Rightarrow> bool" where
  "ranges_sendable largest lowest rs \<longleftrightarrow> ranges_wf largest lowest rs \<and> 1 \<le> unat lowest \<and> unat largest < 2 ^ 48
     \<and> (2 \<le> length rs \<longrightarrow> blocks_nat (rs ! 0) (rs ! 1) < 255)"

definition sent_ranges :: "AckRange list \<Rightarrow> AckRange list" where
  "sent_ranges rs = (case rs of [] \<Rightarrow> [] | r # rs \<Rightarrow> r # sent_prefix r rs 0)"

definition sent_lowest :: "PacketNumber \<Rightarrow> AckRange list \<Rightarrow> PacketNumber" where
  "sent_lowest lowest rs = (if rs = [] then lowest else ar_First (last (sent_ranges rs)))"

lemma descending_chain:
  "descending (p # rs) \<Longrightarrow> \<forall>x\<in>set rs. range_ok x \<Longrightarrow> unat (ar_First p) < 2 ^ 48 \<Longrightarrow> chain p rs"
  by (induction rs arbitrary: p) (auto simp: gap_ok_def range_ok_def)

lemma sendable_cases:
  assumes "ranges_sendable largest lowest rs"
  obtains (none) "rs = []" "1 \<le> unat lowest" "unat lowest \<le> unat largest" "unat largest < 2 ^ 48"
    | (some) r0 r1 rs' where "rs = r0 # r1 # rs'" "chain r0 (r1 # rs')" "range_ok r0" "1 \<le> unat (ar_First r0)"
      "ar_Last r0 = largest" "ar_First (last (r1 # rs')) = lowest" "unat largest < 2 ^ 48" "blocks_nat r0 r1 < 255"
proof (cases rs)
  case Nil
  then show ?thesis using assms none by (auto simp: ranges_sendable_def ranges_wf_def word_le_nat_alt)
next
  case (Cons r0 rs1)
  then obtain r1 rs' where rs: "rs = r0 # r1 # rs'"
    using assms by (cases rs1) (auto simp: ranges_sendable_def ranges_wf_def)
  have wf: "ranges_wf largest lowest rs" "rs \<noteq> []" using assms rs by (auto simp: ranges_sendable_def)
  have f: "unat lowest \<le> unat (ar_First r0)" using ranges_wf_highest(2) [OF wf, of r0] rs by simp
  have ok: "\<forall>x\<in>set rs. range_ok x" "descending rs" "ar_Last r0 = largest" "ar_First (last (r1 # rs')) = lowest"
    using wf rs by (auto simp: ranges_wf_def)
  have "chain r0 (r1 # rs')"
    using descending_chain [of r0 "r1 # rs'"] ok assms rs by (auto simp: range_ok_def ranges_sendable_def)
  then show ?thesis using some [OF rs] ok f assms rs by (auto simp: ranges_sendable_def)
qed


lemma wf_widths:
  assumes "ranges_wf largest lowest rs" "rs \<noteq> []" "1 \<le> unat lowest" "unat largest < 2 ^ 48"
  shows "\<forall>x\<in>set rs. unat (width x) < 2 ^ 48"
proof
  fix x assume x: "x \<in> set rs"
  have "range_ok x" using assms x by (auto simp: ranges_wf_def)
  then show "unat (width x) < 2 ^ 48"
    using ranges_wf_highest [OF assms(1,2) x] assms(3,4) width_ok(1) [of x] by (simp add: range_ok_def)
qed

text \<open>What the shared loop writes for ranges that can be sent.\<close>

lemma sendable_write:
  assumes s: "ranges_sendable largest lowest rs" and rs: "rs = r0 # rs1" and tr: "trunc_ok trunc"
  defines "dl \<equiv> getMissingSequenceNumberDeltaLen largest lowest rs" and "N \<equiv> numWritableNackRanges rs"
  shows "dl_ok dl" "chain r0 (sent_prefix r0 rs1 0)" "sent_prefix r0 rs1 0 \<noteq> []"
    "\<forall>x\<in>set (r0 # sent_prefix r0 rs1 0). unat (width x) < 2 ^ (8 * unat dl)"
    "unat N = 1 + length (chain_blocks r0 (sent_prefix r0 rs1 0))" "unat N \<le> 255"
    "writeRanges_loop trunc b dl N r0 rs1 1 = (Inr (block_bytes b dl (chain_blocks r0 (sent_prefix r0 rs1 0))), N)"
proof -
  from s rs obtain r1 rs' where rs1: "rs1 = r1 # rs'" and ch: "chain r0 rs1" and r0: "range_ok r0"
    and l: "ar_Last r0 = largest" "unat largest < 2 ^ 48" and b: "blocks_nat r0 r1 < 255"
    by (cases rule: sendable_cases) auto
  have wf: "ranges_wf largest lowest rs" "rs \<noteq> []" and low: "1 \<le> unat lowest"
    using s rs by (auto simp: ranges_sendable_def)
  note all = wf_widths [OF wf low l(2)]
  note g = getMissing_ranges [OF all wf(2), where largest = largest and lowest = lowest, folded dl_def]
  let ?p = "sent_prefix r0 rs1 0"
  show "dl_ok dl" by (rule g(1))
  show "chain r0 ?p" by (rule chain_sent_prefix [OF ch])
  show ne: "?p \<noteq> []" using b by (simp add: rs1)
  show "\<forall>x\<in>set (r0 # ?p). unat (width x) < 2 ^ (8 * unat dl)"
    using g(2) set_sent_prefix [of r0 rs1 0] rs by auto
  have lt: "length (chain_blocks r0 ?p) < 255"
    using length_chain_blocks_le [of 0 r0 rs1] ch by simp
  have u: "unat (numWritableNackRanges_loop r0 rs1 0) = length (chain_blocks r0 ?p)"
    using numWritable_loop_nat [OF ch, of 0] by simp
  show N: "unat N = 1 + length (chain_blocks r0 ?p)"
    unfolding N_def numWritableNackRanges_def rs using lt u by (simp add: unat_plus_less)
  show "unat N \<le> 255" using N lt by simp
  show "writeRanges_loop trunc b dl N r0 rs1 1 = (Inr (block_bytes b dl (chain_blocks r0 ?p)), N)"
    using writeRanges_loop_enc [OF g(1) tr ch _ ne, of 1 N b] g(2) rs N by simp
qed

section \<open>The contract of the ACK frame\<close>

definition ack_ok :: "AckFrame \<Rightarrow> bool" where
  "ack_ok f \<longleftrightarrow> ranges_sendable (ack_LargestAcked f) (ack_LowestAcked f) (ack_AckRanges f)"

definition ack_received :: "int \<Rightarrow> AckFrame \<Rightarrow> AckFrame" where
  "ack_received now f = f\<lparr>ack_LowestAcked := sent_lowest (ack_LowestAcked f) (ack_AckRanges f),
     ack_AckRanges := sent_ranges (ack_AckRanges f), ack_PacketReceivedTime := 0,
     ack_DelayTime := wire_rtt (timeSub now (ack_PacketReceivedTime f))\<rparr>"

lemma ack_typeByte_fields:
  assumes "dl_ok (GetPacketNumberLength (ack_LargestAcked f))" "dl_ok (AckFrame_getMissingSequenceNumberDeltaLen f)"
  shows "lenField (AckFrame_typeByte f AND 3) = AckFrame_getMissingSequenceNumberDeltaLen f"
    "lenField (drop_bit 2 (AckFrame_typeByte f AND 12)) = GetPacketNumberLength (ack_LargestAcked f)"
    "(AckFrame_typeByte f AND 0x20 = 0x20) = AckFrame_HasMissingRanges f"
    "(AckFrame_typeByte f AND 0x10 = 0x10) = (ack_PathID f \<noteq> 0)"
    "AckFrame_typeByte f AND 0xc0 = 0x40"
  using assms unfolding dl_ok_def
  by (cases "AckFrame_HasMissingRanges f"; cases "ack_PathID f = 0";
      force simp: AckFrame_typeByte_def lenField_def Let_def)+

lemma ParseAckFrame_typeByte:
  assumes "dl_ok (GetPacketNumberLength (ack_LargestAcked f))" "dl_ok (AckFrame_getMissingSequenceNumberDeltaLen f)"
  shows "ParseAckFrame v (AckFrame_typeByte f # r) =
    ParseAckFrame_fields v (AckFrame_HasMissingRanges f) (GetPacketNumberLength (ack_LargestAcked f))
      (AckFrame_getMissingSequenceNumberDeltaLen f) (ack_PathID f \<noteq> 0) r"
  unfolding ParseAckFrame_def by (subst pbind_ReadByte) (simp only: ack_typeByte_fields [OF assms])

text \<open>The bytes of the blocks, for a frame without and with ranges.\<close>

definition ack_blocks_bytes :: "AckFrame \<Rightarrow> VersionNumber \<Rightarrow> byte list" where
  "ack_blocks_bytes f v =
     (let b = GetByteOrder v; dl = AckFrame_getMissingSequenceNumberDeltaLen f in
      case ack_AckRanges f of
        [] \<Rightarrow> enc_bytes b (unat dl) (ack_LargestAcked f - ack_LowestAcked f + 1)
      | r0 # rs \<Rightarrow> of_nat (length (chain_blocks r0 (sent_prefix r0 rs 0)))
          # enc_bytes b (unat dl) (width r0) @ block_bytes b dl (chain_blocks r0 (sent_prefix r0 rs 0)))"

lemma largest_minus_lowest:
  assumes "1 \<le> unat lowest" "unat lowest \<le> unat (largest :: u64)" "unat largest < 2 ^ 48"
  shows "unat (largest - lowest + 1) < 2 ^ 48"
  using width_ok(1) [of "\<lparr>ar_First = lowest, ar_Last = largest\<rparr>"] assms by (simp add: width_def range_ok_def)

lemma ack_writeBlocks:
  assumes ok: "ack_ok f"
  shows "dl_ok (AckFrame_getMissingSequenceNumberDeltaLen f)" (is "dl_ok ?dl")
    and "AckFrame_writeBlocks f v = Inr (ack_blocks_bytes f v)"
proof -
  let ?w = "AckFrame_writeBlocks f v = Inr (ack_blocks_bytes f v)"
  have "dl_ok ?dl \<and> ?w"
    using ok unfolding ack_ok_def
  proof (cases rule: sendable_cases)
    case none
    note g = getMissing_none [OF largest_minus_lowest [OF none(2-4)]]
    have dl: "?dl = getMissingSequenceNumberDeltaLen (ack_LargestAcked f) (ack_LowestAcked f) []"
      using none(1) by (simp add: AckFrame_getMissingSequenceNumberDeltaLen_def)
    show ?thesis
      using none(1) g writePacketNumberLen_enc(1) [OF g trunc_ok_cut48, of "GetByteOrder v"]
      by (simp add: dl AckFrame_writeBlocks_def ack_blocks_bytes_def AckFrame_HasMissingRanges_def Let_def)
  next
    case (some r0 r1 rs')
    note w = sendable_write [OF ok [unfolded ack_ok_def] some(1) trunc_ok_cut48, folded
        AckFrame_getMissingSequenceNumberDeltaLen_def AckFrame_numWritableNackRanges_def]
    have n: "ucast (AckFrame_numWritableNackRanges f - 1)
      = (of_nat (length (chain_blocks r0 (sent_prefix r0 (r1 # rs') 0))) :: byte)"
    proof -
      have "unat (AckFrame_numWritableNackRanges f - 1) = length (chain_blocks r0 (sent_prefix r0 (r1 # rs') 0))"
        using w(5) by (simp add: unat_minus_le word_le_nat_alt)
      then show ?thesis by (metis of_nat_unat)
    qed
    have "\<not> AckFrame_numWritableNackRanges f > 0xFF" using w(6) by (simp add: word_less_nat_alt)
    moreover have "writePacketNumberLen cut48 (GetByteOrder v) ?dl (ack_LargestAcked f - ar_First r0 + 1)
        = Inr (enc_bytes (GetByteOrder v) (unat ?dl) (width r0))"
      using writePacketNumberLen_enc(1) [OF w(1) _ trunc_ok_cut48, of "width r0"] w(4) some(5) by (simp add: width_def)
    ultimately show ?thesis
      using w(1) w(7) [of "GetByteOrder v"] some(1,5,6) n
      by (simp add: AckFrame_writeBlocks_def ack_blocks_bytes_def AckFrame_HasMissingRanges_def Let_def
        del: writeRanges_loop.simps sent_prefix.simps)
  qed
  then show "dl_ok ?dl" ?w by auto
qed


lemma ack_write:
  assumes ok: "ack_ok f"
  shows "fst (AckFrame_Write now f v) = Inr (AckFrame_typeByte f
      # (if ack_PathID f \<noteq> 0 then [ack_PathID f] else [])
      @ enc_bytes (GetByteOrder v) (unat (GetPacketNumberLength (ack_LargestAcked f))) (ack_LargestAcked f)
      @ enc_bytes (GetByteOrder v) 2 (ucast (ufloat16_encode (word_of_int (quot (timeSub now (ack_PacketReceivedTime f)) Microsecond))))
      @ ack_blocks_bytes f v @ [0])"
proof -
  have l: "unat (ack_LargestAcked f) < 2 ^ 48" using ok by (simp add: ack_ok_def ranges_sendable_def)
  note g = GetPacketNumberLength_fits [OF l]
  show ?thesis
    using writePacketNumberLen_enc(1) [OF g trunc_ok_cut48, of "GetByteOrder v"] ack_writeBlocks(2) [OF ok, of v]
    by (simp add: AckFrame_Write_def Let_def writeUfloat16_def codec)
qed

lemma readUfloat16_enc:
  "readUfloat16 b (enc_bytes b 2 (ucast (ufloat16_encode w)) @ r) = Inr (ufloat16_decode (ufloat16_encode w), r)"
  by (simp add: readUfloat16_def codec)

lemma ack_blocks_parse:
  assumes ok: "ack_ok f"
  shows "pbind (if AckFrame_HasMissingRanges f then ReadByte else preturn 0) (\<lambda>numAckBlocks.
     pbind (pcheck (AckFrame_HasMissingRanges f \<and> numAckBlocks = 0) ErrInvalidAckRanges) (\<lambda>_.
     pbind (parseAckRanges v (AckFrame_getMissingSequenceNumberDeltaLen f) (AckFrame_HasMissingRanges f) numAckBlocks
       (ack_LargestAcked f)) k)) (ack_blocks_bytes f v @ r)
   = k (sent_lowest (ack_LowestAcked f) (ack_AckRanges f), sent_ranges (ack_AckRanges f)) r"
  using ok unfolding ack_ok_def
proof (cases rule: sendable_cases)
  case none
  note g = getMissing_none [OF largest_minus_lowest [OF none(2-4)]]
  have dl: "AckFrame_getMissingSequenceNumberDeltaLen f
      = getMissingSequenceNumberDeltaLen (ack_LargestAcked f) (ack_LowestAcked f) []"
    using none(1) by (simp add: AckFrame_getMissingSequenceNumberDeltaLen_def)
  show ?thesis
    using none(1) parseAckRanges_none [OF g(1) none(2-4) g(2), of v 0 r]
    by (simp add: dl ack_blocks_bytes_def AckFrame_HasMissingRanges_def Let_def sent_lowest_def sent_ranges_def)
next
  case (some r0 r1 rs')
  let ?p = "sent_prefix r0 (r1 # rs') 0"
  note w = sendable_write [OF ok [unfolded ack_ok_def] some(1) trunc_ok_cut48, folded
      AckFrame_getMissingSequenceNumberDeltaLen_def AckFrame_numWritableNackRanges_def]
  have n: "unat (of_nat (length (chain_blocks r0 ?p)) :: byte) = length (chain_blocks r0 ?p)"
    using w(5,6) by (simp add: unat_of_nat)
  have pos: "(of_nat (length (chain_blocks r0 ?p)) :: byte) \<noteq> 0"
  proof
    assume "(of_nat (length (chain_blocks r0 ?p)) :: byte) = 0"
    then have "chain_blocks r0 ?p = []" using n by simp
    then show False using w(3) by (cases ?p) (auto simp: range_blocks_def)
  qed
  have l48: "unat (ar_Last r0) < 2 ^ 48" using some(5,7) by simp
  show ?thesis
    using parseAckRanges_some [OF w(1,2,3) some(3,4) l48 w(4) n, of v r] pos some(1,5) w(3)
    by (simp add: ack_blocks_bytes_def AckFrame_HasMissingRanges_def Let_def sent_lowest_def sent_ranges_def
      del: sent_prefix.simps)
qed

lemma ack_blocks_length:
  assumes ok: "ack_ok f"
  shows "length (ack_blocks_bytes f v) = (if AckFrame_HasMissingRanges f
    then (1 + unat (AckFrame_getMissingSequenceNumberDeltaLen f)) * unat (AckFrame_numWritableNackRanges f)
    else unat (AckFrame_getMissingSequenceNumberDeltaLen f))"
  using ok unfolding ack_ok_def
proof (cases rule: sendable_cases)
  case none
  then show ?thesis by (simp add: ack_blocks_bytes_def AckFrame_HasMissingRanges_def Let_def)
next
  case (some r0 r1 rs')
  note w = sendable_write [OF ok [unfolded ack_ok_def] some(1) trunc_ok_cut48, folded
      AckFrame_getMissingSequenceNumberDeltaLen_def AckFrame_numWritableNackRanges_def]
  show ?thesis using some(1) w(5)
    by (simp add: ack_blocks_bytes_def AckFrame_HasMissingRanges_def Let_def length_block_bytes del: sent_prefix.simps)
qed

interpretation ack: frame_codec "\<lambda>f. fst (AckFrame_Write now f v)" "\<lambda>f. AckFrame_MinLength f v"
  "ParseAckFrame v" ack_ok "\<lambda>_. True" "ack_received now" for now v
proof unfold_locales
  fix f bs and r :: "byte list" assume ok: "ack_ok f"
  show "\<exists>bs. fst (AckFrame_Write now f v) = Inr bs" using ack_write [OF ok] by blast
  assume w: "fst (AckFrame_Write now f v) = Inr bs"
  note bs = w [unfolded ack_write [OF ok], THEN Inr_inject, symmetric]
  have l: "unat (ack_LargestAcked f) < 2 ^ 48" using ok by (simp add: ack_ok_def ranges_sendable_def)
  note g = GetPacketNumberLength_fits [OF l] and dl = ack_writeBlocks(1) [OF ok]
  have ts: "parseTimestamps v (0 # r) = Inr ((), r)" by (simp add: parseTimestamps_def)
  show "ParseAckFrame v (bs @ r) = Inr (ack_received now f, r)"
    using writePacketNumberLen_enc(2) [OF g trunc_ok_id, of "GetByteOrder v"] ts
    unfolding bs append_Cons ParseAckFrame_typeByte [OF g(1) dl] ParseAckFrame_fields_def
    by (simp add: readUfloat16_enc ack_blocks_parse [OF ok] ack_received_def wire_rtt_def)
  have c: "of_nat (unat x) = (ucast x :: u64)" for x :: byte by (rule of_nat_unat)
  show "AckFrame_MinLength f v = Inr (of_nat (length bs))"
    unfolding bs by (simp add: AckFrame_MinLength_def Let_def ack_blocks_length [OF ok] c algebra_simps)
qed

section \<open>The contract of the CLOSE_PATH frame\<close>

definition cp_ok :: "ClosePathFrame \<Rightarrow> bool" where
  "cp_ok f \<longleftrightarrow> ranges_sendable (cp_LargestAcked f) (cp_LowestAcked f) (cp_AckRanges f)"

definition cp_received :: "ClosePathFrame \<Rightarrow> ClosePathFrame" where
  "cp_received f = f\<lparr>cp_LowestAcked := sent_lowest (cp_LowestAcked f) (cp_AckRanges f),
     cp_AckRanges := sent_ranges (cp_AckRanges f)\<rparr>"

lemma cp_flags_fields:
  assumes "dl_ok (GetPacketNumberLength (cp_LargestAcked f))" "dl_ok (ClosePathFrame_getMissingSequenceNumberDeltaLen f)"
  shows "lenField (ClosePathFrame_flags f AND 3) = ClosePathFrame_getMissingSequenceNumberDeltaLen f"
    "lenField (drop_bit 2 (ClosePathFrame_flags f AND 12)) = GetPacketNumberLength (cp_LargestAcked f)"
    "(ClosePathFrame_flags f AND 0x10 = 0x10) = ClosePathFrame_HasMissingRanges f"
  using assms unfolding dl_ok_def
  by (cases "ClosePathFrame_HasMissingRanges f"; force simp: ClosePathFrame_flags_def lenField_def Let_def)+

lemma ParseClosePathFrame_flags:
  assumes "dl_ok (GetPacketNumberLength (cp_LargestAcked f))" "dl_ok (ClosePathFrame_getMissingSequenceNumberDeltaLen f)"
  shows "ParseClosePathFrame v (x # pid # ClosePathFrame_flags f # r) =
    ParseClosePathFrame_fields v pid (ClosePathFrame_HasMissingRanges f) (GetPacketNumberLength (cp_LargestAcked f))
      (ClosePathFrame_getMissingSequenceNumberDeltaLen f) r"
  unfolding ParseClosePathFrame_def
  by (subst pbind_ReadByte, subst pbind_ReadByte, subst pbind_ReadByte) (simp only: cp_flags_fields [OF assms])

lemma length_chain_blocks_byte:
  assumes "unat N = 1 + length bl" "unat N \<le> 255"
  shows "ucast (N - 1 :: u64) = (of_nat (length bl) :: byte)" "unat (of_nat (length bl) :: byte) = length bl"
    "\<not> N > 0xFF"
proof -
  have "unat (N - 1) = length bl" using assms(1) by (simp add: unat_minus_le word_le_nat_alt)
  then show "ucast (N - 1 :: u64) = (of_nat (length bl) :: byte)" by (metis of_nat_unat)
  show "unat (of_nat (length bl) :: byte) = length bl" using assms by (simp add: unat_of_nat)
  show "\<not> N > 0xFF" using assms by (simp add: word_less_nat_alt)
qed

lemma cp_frame:
  assumes ok: "cp_ok f"
  shows "\<exists>bs. ClosePathFrame_Write f v = Inr bs \<and> ParseClosePathFrame v (bs @ r) = Inr (cp_received f, r)
    \<and> ClosePathFrame_MinLength f v = Inr (of_nat (length bs))"
proof -
  let ?b = "GetByteOrder v" and ?dl = "ClosePathFrame_getMissingSequenceNumberDeltaLen f"
    and ?ll = "GetPacketNumberLength (cp_LargestAcked f)"
  have l: "unat (cp_LargestAcked f) < 2 ^ 48" using ok by (simp add: cp_ok_def ranges_sendable_def)
  note g = GetPacketNumberLength_fits [OF l]
  note L = writePacketNumberLen_enc [OF g trunc_ok_id, of ?b]
  have c: "of_nat (unat x) = (ucast x :: u64)" for x :: byte by (rule of_nat_unat)
  show ?thesis using ok unfolding cp_ok_def
  proof (cases rule: sendable_cases)
    case none
    note d = getMissing_none [OF largest_minus_lowest [OF none(2-4)]]
    have dl: "?dl = getMissingSequenceNumberDeltaLen (cp_LargestAcked f) (cp_LowestAcked f) []"
      using none(1) by (simp add: ClosePathFrame_getMissingSequenceNumberDeltaLen_def)
    note D = d [folded dl]
    show ?thesis
      using none(1) L writePacketNumberLen_enc(1) [OF D trunc_ok_id, of ?b]
        parseAckRanges_none [OF D(1) none(2-4) D(2), of v 0 r]
      by (simp add: ClosePathFrame_Write_def Let_def ClosePathFrame_HasMissingRanges_def c
        ParseClosePathFrame_flags [OF g(1) D(1)] ParseClosePathFrame_fields_def cp_received_def sent_lowest_def
        sent_ranges_def ClosePathFrame_MinLength_def)
  next
    case (some r0 r1 rs')
    let ?p = "sent_prefix r0 (r1 # rs') 0"
    note w = sendable_write [OF ok [unfolded cp_ok_def] some(1) trunc_ok_id, folded
        ClosePathFrame_getMissingSequenceNumberDeltaLen_def ClosePathFrame_numWritableNackRanges_def]
    note n = length_chain_blocks_byte [OF w(5,6)]
    have pos: "(of_nat (length (chain_blocks r0 ?p)) :: byte) \<noteq> 0"
      using n(2) w(3) by (cases ?p) (auto simp: range_blocks_def simp del: of_nat_Suc of_nat_add)
    have l48: "unat (ar_Last r0) < 2 ^ 48" using some(5,7) by simp
    have N: "ClosePathFrame_numWritableNackRanges f = 1 + of_nat (length (chain_blocks r0 ?p))"
      using w(5) by (metis of_nat_1 of_nat_add of_nat_unat ucast_id)
    have "writePacketNumberLen (\<lambda>w. w) ?b ?dl (cp_LargestAcked f - ar_First r0 + 1)
        = Inr (enc_bytes ?b (unat ?dl) (width r0))"
      using writePacketNumberLen_enc(1) [OF w(1) _ trunc_ok_id, of "width r0"] w(4) some(5) by (simp add: width_def)
    then show ?thesis
      using some(1,5,6) L w(3,5) w(7) [of ?b] n pos parseAckRanges_some [OF w(1,2,3) some(3,4) l48 w(4) n(2), of v r]
      by (simp add: ClosePathFrame_Write_def Let_def ClosePathFrame_HasMissingRanges_def c
        ParseClosePathFrame_flags [OF g(1) w(1)] ParseClosePathFrame_fields_def cp_received_def sent_lowest_def
        sent_ranges_def ClosePathFrame_MinLength_def length_block_bytes algebra_simps
        del: writeRanges_loop.simps sent_prefix.simps) (simp add: N algebra_simps)
  qed
qed

interpretation cp: frame_codec "\<lambda>f. ClosePathFrame_Write f v" "\<lambda>f. ClosePathFrame_MinLength f v"
  "ParseClosePathFrame v" cp_ok "\<lambda>_. True" cp_received for v
proof unfold_locales
  fix f bs and r :: "byte list" assume "cp_ok f"
  note c = cp_frame [OF this, of v]
  show "\<exists>bs. ClosePathFrame_Write f v = Inr bs" using c by blast
  assume w: "ClosePathFrame_Write f v = Inr bs"
  show "ParseClosePathFrame v (bs @ r) = Inr (cp_received f, r)"
    and "ClosePathFrame_MinLength f v = Inr (of_nat (length bs))" using c [of r] w by auto
qed

section \<open>Properties\<close>

text \<open>
  C21: An ACK frame survives the wire. For ranges as the receive history builds them, with the first
  gap taking fewer than 255 blocks, \<^verbatim>\<open>Write\<close> succeeds, its length is what \<^verbatim>\<open>MinLength\<close>
  promised, and the parser returns the ranges (the longest prefix of them that fits in 255 blocks),
  the path, the largest number and the delay as the 16-bit float carries it, leaving the rest of the
  packet alone.
\<close>

theorem ack_frame_roundtrip:
  assumes "ack_ok f"
  shows "\<exists>bs. fst (AckFrame_Write now f v) = Inr bs
    \<and> AckFrame_MinLength f v = Inr (of_nat (length bs))
    \<and> ParseAckFrame v (bs @ r) = Inr (ack_received now f, r)"
  using ack.write_total [OF assms] ack.parse_write [OF assms] ack.minlen_write [OF assms] by blast

definition example_ack :: AckFrame where
  "example_ack = \<lparr>ack_PathID = 3, ack_LargestAcked = 2000, ack_LowestAcked = 1,
     ack_AckRanges = [\<lparr>ar_First = 1500, ar_Last = 2000\<rparr>, \<lparr>ar_First = 1, ar_Last = 4\<rparr>],
     ack_PacketReceivedTime = 7000, ack_DelayTime = 0\<rparr>"

lemma example_ack_ok: "ack_ok example_ack"
  by (simp add: example_ack_def ack_ok_def ranges_sendable_def ranges_wf_def range_ok_def blocks_nat_def gap_nat_def)

theorem ack_frame_roundtrip_witness:
  "\<exists>bs. fst (AckFrame_Write 9000 example_ack Version39) = Inr bs
    \<and> AckFrame_MinLength example_ack Version39 = Inr (of_nat (length bs))
    \<and> ParseAckFrame Version39 (bs @ [7]) = Inr (ack_received 9000 example_ack, [7])"
  by (rule ack_frame_roundtrip [OF example_ack_ok])

lemma numWritable_long_first_gap:
  assumes "gap_ok r0 r1" "255 \<le> blocks_nat r0 r1"
  shows "numWritableNackRanges (r0 # r1 # rs) = 1"
proof -
  have "\<not> gapBlocks (ar_First r0 - ar_Last r1 - 1) < 255"
    using gap_ok_blocks(2) [OF assms(1)] assms(2) by (simp add: word_less_nat_alt)
  then show ?thesis by (simp add: numWritableNackRanges_def Let_def)
qed

lemma long_first_gap:
  assumes "ranges_wf (ack_LargestAcked f) (ack_LowestAcked f) (ack_AckRanges f)"
    and "unat (ack_LargestAcked f) < 2 ^ 48" "1 \<le> unat (ack_LowestAcked f)"
    and "ack_AckRanges f = r0 # r1 # rs" "64771 \<le> gap_nat r0 r1"
  shows "fst (AckFrame_Write now f v) = Inl (Errorf ''BUG: Inconsistent number of ACK ranges written'')"
proof -
  let ?b = "GetByteOrder v" and ?dl = "AckFrame_getMissingSequenceNumberDeltaLen f"
  let ?g = "ar_First r0 - ar_Last r1 - 1"
  have gap: "gap_ok r0 r1" using assms by (auto simp: ranges_wf_def gap_ok_def)
  have "(64771 + 254) div 255 \<le> (gap_nat r0 r1 + 254) div 255"
    using assms(5) by (intro div_le_mono) simp
  then have b: "255 \<le> blocks_nat r0 r1" by (simp add: blocks_nat_def)
  note n = gap_ok_blocks [OF gap]
  have "unat (1 + gapBlocks ?g) = 1 + blocks_nat r0 r1"
    using n blocks_nat_less [of r0 r1] by (subst unat_plus_less) simp_all
  then have cmp: "1 \<le> 1 + gapBlocks ?g" "1 + gapBlocks ?g \<noteq> 1" "gapBlocks ?g \<noteq> 1"
    using b n by (auto simp: word_le_nat_alt)
  have N: "AckFrame_numWritableNackRanges f = 1"
    using numWritable_long_first_gap [OF gap b] assms(4) by (simp add: AckFrame_numWritableNackRanges_def)
  have all: "\<forall>x\<in>set (ack_AckRanges f). unat (width x) < 2 ^ 48"
    using wf_widths assms by simp
  have ne: "ack_AckRanges f \<noteq> []" using assms(4) by simp
  note d = getMissing_ranges [OF all ne, where largest = "ack_LargestAcked f" and lowest = "ack_LowestAcked f", folded AckFrame_getMissingSequenceNumberDeltaLen_def]
  note L = writePacketNumberLen_enc(1) [OF GetPacketNumberLength_fits [OF assms(2)] trunc_ok_cut48, of ?b]
  have "writeRanges_loop cut48 ?b ?dl 1 r0 (r1 # rs) 1 = (Inr (block_bytes ?b ?dl (range_blocks r0 r1)), 1 + gapBlocks ?g)"
    using write_range_enc [OF d(1) trunc_ok_cut48 d(2) gap, of ?b] cmp assms(4) by (simp add: width_def Let_def)
  moreover have "writePacketNumberLen cut48 ?b ?dl (ack_LargestAcked f - ar_First r0 + 1)
      = Inr (enc_bytes ?b (unat ?dl) (width r0))"
    using writePacketNumberLen_enc(1) [OF d(1) d(2) trunc_ok_cut48, of r0] assms(1,4) by (simp add: width_def ranges_wf_def)
  ultimately show ?thesis
    using assms(1,4) N L cmp
    by (simp add: AckFrame_Write_def AckFrame_writeBlocks_def AckFrame_HasMissingRanges_def Let_def ranges_wf_def
      writeUfloat16_def codec del: writeRanges_loop.simps)
qed

text \<open>The packets missing below the highest range; with this gap below 64771 the frame is one that can be written.\<close>

definition first_gap :: "AckRange list \<Rightarrow> nat" where
  "first_gap rs = (case rs of r0 # r1 # _ \<Rightarrow> gap_nat r0 r1 | _ \<Rightarrow> 0)"

lemma ack_ok_gap:
  assumes "ranges_wf (ack_LargestAcked f) (ack_LowestAcked f) (ack_AckRanges f)"
    and "unat (ack_LargestAcked f) < 2 ^ 48" "1 \<le> unat (ack_LowestAcked f)" "first_gap (ack_AckRanges f) < 64771"
  shows "ack_ok f"
proof -
  have "blocks_nat (ack_AckRanges f ! 0) (ack_AckRanges f ! 1) < 255" if n: "2 \<le> length (ack_AckRanges f)"
  proof -
    obtain r0 r1 rs where rs: "ack_AckRanges f = r0 # r1 # rs"
      using n by (cases "ack_AckRanges f" rule: descending.cases) auto
    then have "gap_nat r0 r1 + 254 < 255 * 255" using assms(4) by (simp add: first_gap_def)
    then show ?thesis unfolding rs blocks_nat_def by (simp add: div_less_iff_less_mult)
  qed
  then show ?thesis using assms(1-3) by (simp add: ack_ok_def ranges_sendable_def)
qed

lemma long_gap_write_fails:
  assumes "ranges_wf (ack_LargestAcked f) (ack_LowestAcked f) (ack_AckRanges f)"
    and "unat (ack_LargestAcked f) < 2 ^ 48" "1 \<le> unat (ack_LowestAcked f)" "64771 \<le> first_gap (ack_AckRanges f)"
  shows "fst (AckFrame_Write now f v) = Inl (Errorf ''BUG: Inconsistent number of ACK ranges written'')"
proof -
  obtain r0 r1 rs where rs: "ack_AckRanges f = r0 # r1 # rs"
    using assms(4) by (cases "ack_AckRanges f" rule: descending.cases) (auto simp: first_gap_def)
  show ?thesis by (rule long_first_gap [OF assms(1-3) rs]) (use assms(4) rs in \<open>simp add: first_gap_def\<close>)
qed

text \<open>
  C24: The limit on the first gap is real. When the gap below the highest range takes 255 blocks or
  more (64771 missing packets), \<^verbatim>\<open>numWritableNackRanges\<close> counts one block but the loop of
  \<^verbatim>\<open>Write\<close> writes the second range all the same, so that no ACK frame can be written: \<^verbatim>\<open>Write\<close>
  ends with the error for an inconsistent number of ranges.
\<close>

theorem ack_long_first_gap_unwritable:
  assumes "ranges_wf (ack_LargestAcked f) (ack_LowestAcked f) (ack_AckRanges f)"
    and "unat (ack_LargestAcked f) < 2 ^ 48" "1 \<le> unat (ack_LowestAcked f)"
    and "ack_AckRanges f = r0 # r1 # rs" "64771 \<le> gap_nat r0 r1"
  shows "fst (AckFrame_Write now f v) = Inl (Errorf ''BUG: Inconsistent number of ACK ranges written'')"
  by (rule long_first_gap [OF assms])

theorem ack_long_first_gap_unwritable_witness:
  "fst (AckFrame_Write 0 \<lparr>ack_PathID = 0, ack_LargestAcked = 64774, ack_LowestAcked = 1,
     ack_AckRanges = [\<lparr>ar_First = 64774, ar_Last = 64774\<rparr>, \<lparr>ar_First = 1, ar_Last = 2\<rparr>],
     ack_PacketReceivedTime = 0, ack_DelayTime = 0\<rparr> Version39)
   = Inl (Errorf ''BUG: Inconsistent number of ACK ranges written'')"
  by (rule ack_long_first_gap_unwritable [where ?r0.0 = "\<lparr>ar_First = 64774, ar_Last = 64774\<rparr>"
      and ?r1.0 = "\<lparr>ar_First = 1, ar_Last = 2\<rparr>" and rs = "[]"])
    (simp_all add: ranges_wf_def range_ok_def gap_nat_def)

end
