(* ===== verification/PublicHeaders.thy ===== *)
theory PublicHeaders
  imports AckCodec
begin

text \<open>
  The public header of a packet, \<^verbatim>\<open>internal/wire/public_header.go\<close>, and the version negotiation
  packet of \<^verbatim>\<open>internal/wire/version_negotiation.go\<close>.
\<close>

section \<open>The header and its operations\<close>

record PublicHeader =
  ph_Raw :: "byte list"
  ph_ConnectionID :: ConnectionID
  ph_PathID :: PathID
  ph_VersionFlag :: bool
  ph_ResetFlag :: bool
  ph_TruncateConnectionID :: bool
  ph_MultipathFlag :: bool
  ph_PacketNumberLen :: PacketNumberLen
  ph_PacketNumber :: PacketNumber
  ph_VersionNumber :: VersionNumber
  ph_SupportedVersions :: "VersionNumber list"
  ph_DiversificationNonce :: "byte list"

text \<open>The zero value of the struct.\<close>

definition PublicHeader_zero :: PublicHeader where
  "PublicHeader_zero = \<lparr>ph_Raw = [], ph_ConnectionID = 0, ph_PathID = 0, ph_VersionFlag = False,
     ph_ResetFlag = False, ph_TruncateConnectionID = False, ph_MultipathFlag = False, ph_PacketNumberLen = 0,
     ph_PacketNumber = 0, ph_VersionNumber = 0, ph_SupportedVersions = [], ph_DiversificationNonce = []\<rparr>"

abbreviation ErrPacketWithUnknownVersion :: gerror where "ErrPacketWithUnknownVersion \<equiv> Errorf ''PublicHeader: Received a packet without version number, that we don't know the version for''"
abbreviation errResetAndVersionFlagSet :: gerror where "errResetAndVersionFlagSet \<equiv> Errorf ''PublicHeader: Reset Flag and Version Flag should not be set at the same time''"
abbreviation errReceivedTruncatedConnectionID :: gerror where "errReceivedTruncatedConnectionID \<equiv> QErr InvalidPacketHeader"
abbreviation errInvalidConnectionID :: gerror where "errInvalidConnectionID \<equiv> QErr InvalidPacketHeader"
abbreviation errGetLengthNotForVersionNegotiation :: gerror where "errGetLengthNotForVersionNegotiation \<equiv> Errorf ''PublicHeader: GetLength cannot be called for VersionNegotiation packets''"

definition hasPacketNumber :: "PublicHeader \<Rightarrow> Perspective \<Rightarrow> bool" where
  "hasPacketNumber h packetSentBy =
     (if ph_ResetFlag h then False
      else if ph_VersionFlag h \<and> packetSentBy = PerspectiveServer then False
      else True)"

definition PublicHeader_flagByte :: "PublicHeader \<Rightarrow> Perspective \<Rightarrow> byte" where
  "PublicHeader_flagByte h pers =
     (let b0 = (if ph_VersionFlag h then 0 OR 0x01 else 0) :: byte;
          b1 = (if ph_ResetFlag h then b0 OR 0x02 else b0);
          b2 = (if \<not> ph_TruncateConnectionID h then b1 OR 0x08 else b1);
          b3 = (if length (ph_DiversificationNonce h) > 0 then b2 OR 0x04 else b2);
          b4 = (if hasPacketNumber h pers then
                  if ph_PacketNumberLen h = PacketNumberLen2 then b3 OR 0x10
                  else if ph_PacketNumberLen h = PacketNumberLen4 then b3 OR 0x20
                  else if ph_PacketNumberLen h = PacketNumberLen6 then b3 OR 0x30
                  else b3
                else b3)
      in if ph_MultipathFlag h then b4 OR 0x40 else b4)"

definition PublicHeader_writeNumber :: "PublicHeader \<Rightarrow> VersionNumber \<Rightarrow> wresult" where
  "PublicHeader_writeNumber h version =
     (if ph_PacketNumberLen h = PacketNumberLen1 then WriteByte (ucast (ph_PacketNumber h))
      else if ph_PacketNumberLen h = PacketNumberLen2
        then WriteUint16 (GetByteOrder version) (ucast (ph_PacketNumber h))
      else if ph_PacketNumberLen h = PacketNumberLen4
        then WriteUint32 (GetByteOrder version) (ucast (ph_PacketNumber h))
      else if ph_PacketNumberLen h = PacketNumberLen6
        then WriteUint48 (GetByteOrder version) (ph_PacketNumber h AND (push_bit 48 1 - 1))
      else Inl (Errorf ''PublicHeader: PacketNumberLen not set''))"

definition PublicHeader_Write :: "PublicHeader \<Rightarrow> VersionNumber \<Rightarrow> Perspective \<Rightarrow> wresult" where
  "PublicHeader_Write h version pers =
     (if ph_VersionFlag h \<and> ph_ResetFlag h then Inl errResetAndVersionFlagSet
      else if length (ph_DiversificationNonce h) > 0 \<and> length (ph_DiversificationNonce h) \<noteq> 32
        then Inl (Errorf ''invalid diversification nonce length'')
      else wseq [WriteByte (PublicHeader_flagByte h pers),
        (if \<not> ph_TruncateConnectionID h then leWriteUint64 (ph_ConnectionID h) else Inr []),
        (if ph_VersionFlag h \<and> pers = PerspectiveClient
         then leWriteUint32 (VersionNumberToTag (ph_VersionNumber h)) else Inr []),
        (if length (ph_DiversificationNonce h) > 0 then WriteBytes (ph_DiversificationNonce h) else Inr []),
        (if ph_MultipathFlag h then WriteByte (ph_PathID h) else Inr []),
        (if \<not> hasPacketNumber h pers then Inr [] else PublicHeader_writeNumber h version)])"

text \<open>The reader is put back to where it was.\<close>

definition PeekConnectionID :: "Perspective \<Rightarrow> ConnectionID parser" where
  "PeekConnectionID packetSentBy b =
     (case pbind ReadByte (\<lambda>publicFlagByte.
        let truncateConnectionID = (publicFlagByte AND 0x08 = 0) in
        pbind (pcheck (truncateConnectionID \<and> packetSentBy = PerspectiveClient) errReceivedTruncatedConnectionID) (\<lambda>_.
          if \<not> truncateConnectionID then leReadUint64 else preturn 0)) b
      of Inl e \<Rightarrow> Inl e | Inr (connectionID, _) \<Rightarrow> Inr (connectionID, b))"

text \<open>The flags and the packet number length, decoded from the first byte.\<close>

definition PublicHeader_ofFlags :: "byte \<Rightarrow> Perspective \<Rightarrow> PublicHeader" where
  "PublicHeader_ofFlags publicFlagByte packetSentBy =
     (let header = PublicHeader_zero\<lparr>ph_ResetFlag := publicFlagByte AND 0x02 > 0,
            ph_VersionFlag := publicFlagByte AND 0x01 > 0,
            ph_TruncateConnectionID := (publicFlagByte AND 0x08 = 0)\<rparr>;
          header' = (if hasPacketNumber header packetSentBy then header\<lparr>ph_PacketNumberLen :=
              (if publicFlagByte AND 0x30 = 0x30 then PacketNumberLen6
               else if publicFlagByte AND 0x30 = 0x20 then PacketNumberLen4
               else if publicFlagByte AND 0x30 = 0x10 then PacketNumberLen2
               else PacketNumberLen1)\<rparr> else header)
      in header'\<lparr>ph_MultipathFlag := publicFlagByte AND 0x40 > 0\<rparr>)"

lemma leReadUint32_length: "leReadUint32 bs = Inr (x, r) \<Longrightarrow> length r < length bs"
  by (auto simp: leReadUint32_def pbind_eq_Inr ReadByte_def split: list.splits)

function readVersionTags :: "byte list \<Rightarrow> VersionNumber list" where
  "readVersionTags b = (case leReadUint32 b of Inl _ \<Rightarrow> []
     | Inr (versionTag, r) \<Rightarrow> VersionTagToNumber versionTag # readVersionTags r)"
  by pat_completeness auto
termination by (relation "measure length") (auto simp: leReadUint32_length)

declare readVersionTags.simps [simp del]

text \<open>The path and the packet number; then everything after the first byte.\<close>

definition ParsePublicHeader_tail :: "PublicHeader \<Rightarrow> Perspective \<Rightarrow> VersionNumber \<Rightarrow> PublicHeader parser" where
  "ParsePublicHeader_tail header packetSentBy version =
     pbind (if ph_MultipathFlag header then ReadByte else preturn 0) (\<lambda>pathID.
     pbind (if hasPacketNumber header packetSentBy
            then ReadUintN (GetByteOrder version) (ph_PacketNumberLen header) else preturn 0) (\<lambda>packetNumber.
       preturn (header\<lparr>ph_PathID := pathID, ph_PacketNumber := packetNumber\<rparr>)))"

definition ParsePublicHeader_version :: "PublicHeader \<Rightarrow> Perspective \<Rightarrow> VersionNumber \<Rightarrow> PublicHeader parser" where
  "ParsePublicHeader_version header packetSentBy version =
     (if \<not> ph_ResetFlag header \<and> ph_VersionFlag header then
        if packetSentBy = PerspectiveServer then
          pbind RLen (\<lambda>n. if n mod 4 \<noteq> 0 then pfail (QErr InvalidVersionNegotiationPacket)
            else (\<lambda>b. Inr (header\<lparr>ph_SupportedVersions := readVersionTags b\<rparr>, [])))
        else pbind leReadUint32 (\<lambda>versionTag.
          ParsePublicHeader_tail (header\<lparr>ph_VersionNumber := VersionTagToNumber versionTag\<rparr>) packetSentBy
            (VersionTagToNumber versionTag))
      else ParsePublicHeader_tail header packetSentBy version)"

definition ParsePublicHeader_fields ::
  "PublicHeader \<Rightarrow> bool \<Rightarrow> Perspective \<Rightarrow> VersionNumber \<Rightarrow> PublicHeader parser" where
  "ParsePublicHeader_fields header nonceFlag packetSentBy version =
     pbind (pcheck (version = VersionUnknown \<and> \<not> (ph_VersionFlag header \<or> ph_ResetFlag header)) ErrPacketWithUnknownVersion) (\<lambda>_.
     pbind (pcheck (ph_TruncateConnectionID header \<and> packetSentBy = PerspectiveClient) errReceivedTruncatedConnectionID) (\<lambda>_.
     pbind (if \<not> ph_TruncateConnectionID header then
              pbind leReadUint64 (\<lambda>connID.
              pbind (pcheck (connID = 0) errInvalidConnectionID) (\<lambda>_. preturn connID))
            else preturn 0) (\<lambda>connID.
     pbind (if packetSentBy = PerspectiveServer \<and> nonceFlag \<and> \<not> ph_VersionFlag header \<and> \<not> ph_ResetFlag header
            then ReadFull 32 else preturn []) (\<lambda>nonce.
       ParsePublicHeader_version (header\<lparr>ph_ConnectionID := connID, ph_DiversificationNonce := nonce\<rparr>)
         packetSentBy version))))"

definition ParsePublicHeader :: "Perspective \<Rightarrow> VersionNumber \<Rightarrow> PublicHeader parser" where
  "ParsePublicHeader packetSentBy version =
     pbind ReadByte (\<lambda>publicFlagByte.
       ParsePublicHeader_fields (PublicHeader_ofFlags publicFlagByte packetSentBy) (publicFlagByte AND 0x04 > 0)
         packetSentBy version)"

definition PublicHeader_GetLength :: "PublicHeader \<Rightarrow> Perspective \<Rightarrow> ByteCount result" where
  "PublicHeader_GetLength h pers =
     (if ph_VersionFlag h \<and> ph_ResetFlag h then Inl errResetAndVersionFlagSet
      else if ph_VersionFlag h \<and> pers = PerspectiveServer then Inl errGetLengthNotForVersionNegotiation
      else if hasPacketNumber h pers \<and> ph_PacketNumberLen h \<noteq> PacketNumberLen1 \<and> ph_PacketNumberLen h \<noteq> PacketNumberLen2
          \<and> ph_PacketNumberLen h \<noteq> PacketNumberLen4 \<and> ph_PacketNumberLen h \<noteq> PacketNumberLen6
        then Inl errPacketNumberLenNotSet
      else Inr (let l0 = 1 :: ByteCount;
            l1 = (if hasPacketNumber h pers then l0 + ucast (ph_PacketNumberLen h) else l0);
            l2 = (if \<not> ph_TruncateConnectionID h then l1 + 8 else l1);
            l3 = (if ph_VersionFlag h then l2 + 4 else l2);
            l4 = l3 + of_nat (length (ph_DiversificationNonce h))
          in if ph_MultipathFlag h then l4 + 1 else l4))"

text \<open>\<^verbatim>\<open>ComposeVersionNegotiation\<close> ignores an error of the header's writer, apart from logging it.\<close>

definition ComposeVersionNegotiation :: "ConnectionID \<Rightarrow> VersionNumber list \<Rightarrow> byte list" where
  "ComposeVersionNegotiation connectionID versions =
     (case PublicHeader_Write (PublicHeader_zero\<lparr>ph_ConnectionID := connectionID, ph_PacketNumber := 1,
              ph_VersionFlag := True\<rparr>) VersionWhatever PerspectiveServer of Inl e \<Rightarrow> [] | Inr bs \<Rightarrow> bs)
     @ concat (map (\<lambda>v. case leWriteUint32 (VersionNumberToTag v) of Inl e \<Rightarrow> [] | Inr bs \<Rightarrow> bs) versions)"

section \<open>Headers that are read back\<close>

text \<open>
  A header of a regular packet or a public reset, as its sender builds it: fields that are not on the
  wire have their zero value, and a client that sends its version uses the byte order of that version.
\<close>

definition header_exact :: "PublicHeader \<Rightarrow> Perspective \<Rightarrow> VersionNumber \<Rightarrow> bool" where
  "header_exact h pers version \<longleftrightarrow>
     \<not> (ph_VersionFlag h \<and> ph_ResetFlag h) \<and> \<not> (ph_VersionFlag h \<and> pers = PerspectiveServer) \<and>
     (if hasPacketNumber h pers
      then dl_ok (ph_PacketNumberLen h) \<and> unat (ph_PacketNumber h) < 2 ^ (8 * unat (ph_PacketNumberLen h))
      else ph_PacketNumberLen h = 0 \<and> ph_PacketNumber h = 0) \<and>
     (ph_TruncateConnectionID h \<longrightarrow> pers = PerspectiveServer) \<and>
     (ph_TruncateConnectionID h \<longleftrightarrow> ph_ConnectionID h = 0) \<and>
     (ph_DiversificationNonce h \<noteq> [] \<longrightarrow> pers = PerspectiveServer \<and> length (ph_DiversificationNonce h) = 32
        \<and> \<not> ph_ResetFlag h) \<and>
     (if ph_VersionFlag h then ph_VersionNumber h = version \<and> 0 \<le> version \<and> version < 1000
      else ph_VersionNumber h = 0 \<and> (ph_ResetFlag h \<or> version \<noteq> VersionUnknown)) \<and>
     (ph_MultipathFlag h \<or> ph_PathID h = 0) \<and> ph_SupportedVersions h = [] \<and> ph_Raw h = []"

lemma flagByte_bits:
  assumes "hasPacketNumber h pers \<longrightarrow> dl_ok (ph_PacketNumberLen h)"
  shows "(PublicHeader_flagByte h pers AND 0x02 > 0) = ph_ResetFlag h"
    "(PublicHeader_flagByte h pers AND 0x01 > 0) = ph_VersionFlag h"
    "(PublicHeader_flagByte h pers AND 0x08 = 0) = ph_TruncateConnectionID h"
    "(PublicHeader_flagByte h pers AND 0x04 > 0) = (ph_DiversificationNonce h \<noteq> [])"
    "(PublicHeader_flagByte h pers AND 0x40 > 0) = ph_MultipathFlag h"
    "hasPacketNumber h pers \<Longrightarrow> (if PublicHeader_flagByte h pers AND 0x30 = 0x30 then PacketNumberLen6
       else if PublicHeader_flagByte h pers AND 0x30 = 0x20 then PacketNumberLen4
       else if PublicHeader_flagByte h pers AND 0x30 = 0x10 then PacketNumberLen2
       else PacketNumberLen1) = ph_PacketNumberLen h"
  using assms unfolding dl_ok_def
  by (cases "ph_VersionFlag h"; cases "ph_ResetFlag h"; cases "ph_TruncateConnectionID h";
      cases "ph_DiversificationNonce h = []"; cases "hasPacketNumber h pers"; cases "ph_MultipathFlag h";
      force simp: PublicHeader_flagByte_def Let_def)+


lemma ofFlags_flagByte:
  assumes "hasPacketNumber h pers \<longrightarrow> dl_ok (ph_PacketNumberLen h)"
    and "\<not> hasPacketNumber h pers \<longrightarrow> ph_PacketNumberLen h = 0"
  shows "PublicHeader_ofFlags (PublicHeader_flagByte h pers) pers =
    PublicHeader_zero\<lparr>ph_ResetFlag := ph_ResetFlag h, ph_VersionFlag := ph_VersionFlag h,
      ph_TruncateConnectionID := ph_TruncateConnectionID h, ph_PacketNumberLen := ph_PacketNumberLen h,
      ph_MultipathFlag := ph_MultipathFlag h\<rparr>"
proof -
  have hp: "hasPacketNumber (PublicHeader_zero\<lparr>ph_ResetFlag := ph_ResetFlag h, ph_VersionFlag := ph_VersionFlag h,
      ph_TruncateConnectionID := ph_TruncateConnectionID h\<rparr>) pers = hasPacketNumber h pers"
    by (simp add: hasPacketNumber_def)
  show ?thesis
    unfolding PublicHeader_ofFlags_def Let_def flagByte_bits(1-5) [OF assms(1)] hp
    using flagByte_bits(6) [OF assms(1)] assms(2) by (simp add: PublicHeader_zero_def)
qed

lemma ParsePublicHeader_flagByte:
  assumes "hasPacketNumber h pers \<longrightarrow> dl_ok (ph_PacketNumberLen h)"
    and "\<not> hasPacketNumber h pers \<longrightarrow> ph_PacketNumberLen h = 0"
  shows "ParsePublicHeader pers version (PublicHeader_flagByte h pers # r) =
    ParsePublicHeader_fields (PublicHeader_zero\<lparr>ph_ResetFlag := ph_ResetFlag h, ph_VersionFlag := ph_VersionFlag h,
      ph_TruncateConnectionID := ph_TruncateConnectionID h, ph_PacketNumberLen := ph_PacketNumberLen h,
      ph_MultipathFlag := ph_MultipathFlag h\<rparr>) (ph_DiversificationNonce h \<noteq> []) pers version r"
  unfolding ParsePublicHeader_def
  by (subst pbind_ReadByte) (simp only: ofFlags_flagByte [OF assms] flagByte_bits(4) [OF assms(1)])

lemma writeNumber_enc:
  assumes "dl_ok (ph_PacketNumberLen h)" "unat (ph_PacketNumber h) < 2 ^ (8 * unat (ph_PacketNumberLen h))"
  shows "PublicHeader_writeNumber h v =
    Inr (enc_bytes (GetByteOrder v) (unat (ph_PacketNumberLen h)) (ph_PacketNumber h))"
proof -
  have "PublicHeader_writeNumber h v =
      writePacketNumberLen cut48 (GetByteOrder v) (ph_PacketNumberLen h) (ph_PacketNumber h)"
    using assms(1) by (auto simp: dl_ok_def PublicHeader_writeNumber_def writePacketNumberLen_def cut48_def)
  then show ?thesis using writePacketNumberLen_enc(1) [OF assms trunc_ok_cut48] by simp
qed

text \<open>The bytes of each optional part.\<close>

definition header_bytes :: "PublicHeader \<Rightarrow> Perspective \<Rightarrow> VersionNumber \<Rightarrow> byte list" where
  "header_bytes h pers v = PublicHeader_flagByte h pers
     # (if ph_TruncateConnectionID h then [] else le_bytes 8 (ph_ConnectionID h))
     @ (if ph_VersionFlag h \<and> pers = PerspectiveClient then le_bytes 4 (ucast (VersionNumberToTag (ph_VersionNumber h))) else [])
     @ ph_DiversificationNonce h
     @ (if ph_MultipathFlag h then [ph_PathID h] else [])
     @ (if hasPacketNumber h pers then enc_bytes (GetByteOrder v) (unat (ph_PacketNumberLen h)) (ph_PacketNumber h) else [])"

lemma header_write:
  assumes "header_exact h pers v"
  shows "PublicHeader_Write h v pers = Inr (header_bytes h pers v)"
proof -
  have n: "hasPacketNumber h pers \<Longrightarrow>
      PublicHeader_writeNumber h v = Inr (enc_bytes (GetByteOrder v) (unat (ph_PacketNumberLen h)) (ph_PacketNumber h))"
    using writeNumber_enc [of h v] assms by (simp add: header_exact_def)
  show ?thesis
    using assms n unfolding header_exact_def PublicHeader_Write_def header_bytes_def le.writers
    by (cases "hasPacketNumber h pers"; cases "ph_DiversificationNonce h = []") auto
qed

lemma header_tail:
  assumes "hasPacketNumber h' pers = hasPacketNumber h pers" "ph_PacketNumberLen h' = ph_PacketNumberLen h"
    "ph_MultipathFlag h' = ph_MultipathFlag h" "ph_MultipathFlag h \<or> ph_PathID h = 0"
    "if hasPacketNumber h pers
      then dl_ok (ph_PacketNumberLen h) \<and> unat (ph_PacketNumber h) < 2 ^ (8 * unat (ph_PacketNumberLen h))
      else ph_PacketNumber h = 0"
  shows "ParsePublicHeader_tail h' pers v ((if ph_MultipathFlag h then [ph_PathID h] else [])
     @ (if hasPacketNumber h pers then enc_bytes (GetByteOrder v) (unat (ph_PacketNumberLen h)) (ph_PacketNumber h) else [])
     @ r) = Inr (h'\<lparr>ph_PathID := ph_PathID h, ph_PacketNumber := ph_PacketNumber h\<rparr>, r)"
  using assms writePacketNumberLen_enc(2) [OF _ _ trunc_ok_id, of "ph_PacketNumberLen h" "ph_PacketNumber h"]
  by (cases "hasPacketNumber h pers"; cases "ph_MultipathFlag h") (auto simp: ParsePublicHeader_tail_def)

lemma header_parse:
  assumes ok: "header_exact h pers v"
  shows "ParsePublicHeader pers v (header_bytes h pers v @ r) = Inr (h, r)"
proof -
  have pn: "hasPacketNumber h pers \<longrightarrow> dl_ok (ph_PacketNumberLen h)" "\<not> hasPacketNumber h pers \<longrightarrow> ph_PacketNumberLen h = 0"
    using ok by (auto simp: header_exact_def split: if_splits)
  let ?h0 = "PublicHeader_zero\<lparr>ph_ResetFlag := ph_ResetFlag h, ph_VersionFlag := ph_VersionFlag h,
      ph_TruncateConnectionID := ph_TruncateConnectionID h, ph_PacketNumberLen := ph_PacketNumberLen h,
      ph_MultipathFlag := ph_MultipathFlag h\<rparr>"
  let ?h1 = "?h0\<lparr>ph_ConnectionID := ph_ConnectionID h, ph_DiversificationNonce := ph_DiversificationNonce h,
     ph_VersionNumber := ph_VersionNumber h\<rparr>"
  have fin: "?h1\<lparr>ph_PathID := ph_PathID h, ph_PacketNumber := ph_PacketNumber h\<rparr> = h"
    using ok by (simp add: header_exact_def PublicHeader_zero_def)
  have tail: "ParsePublicHeader_tail ?h1 pers v ((if ph_MultipathFlag h then [ph_PathID h] else [])
     @ (if hasPacketNumber h pers then enc_bytes (GetByteOrder v) (unat (ph_PacketNumberLen h)) (ph_PacketNumber h) else [])
     @ r) = Inr (h, r)"
    using header_tail [of ?h1 pers h v r] ok fin by (simp add: header_exact_def hasPacketNumber_def split: if_splits)
  note rd = le.read64_enc le.read32_enc
  show ?thesis
  proof (cases "ph_VersionFlag h")
    case True
    then have c: "pers = PerspectiveClient" "\<not> ph_TruncateConnectionID h" "ph_DiversificationNonce h = []"
        "\<not> ph_ResetFlag h" "ph_ConnectionID h \<noteq> 0" "ph_VersionNumber h = v"
        "VersionTagToNumber (VersionNumberToTag v) = v"
      using ok version_tag_inverse [of v] by (cases pers; auto simp: header_exact_def)+
    have "ParsePublicHeader_version (?h0\<lparr>ph_ConnectionID := ph_ConnectionID h, ph_DiversificationNonce := []\<rparr>) pers v
        (le_bytes 4 (ucast (VersionNumberToTag v)) @ x) = ParsePublicHeader_tail ?h1 pers v x" for x
      using c True by (simp add: ParsePublicHeader_version_def rd PublicHeader_zero_def)
    then show ?thesis using c True tail unfolding header_bytes_def append_Cons ParsePublicHeader_flagByte [OF pn]
      by (simp add: ParsePublicHeader_fields_def rd PublicHeader_zero_def)
  next
    case False
    have c: "ph_TruncateConnectionID h \<longrightarrow> pers = PerspectiveServer" "ph_TruncateConnectionID h \<longleftrightarrow> ph_ConnectionID h = 0"
        "ph_VersionNumber h = 0" "ph_ResetFlag h \<or> v \<noteq> VersionUnknown"
        "ph_DiversificationNonce h \<noteq> [] \<longrightarrow> pers = PerspectiveServer \<and> length (ph_DiversificationNonce h) = 32 \<and> \<not> ph_ResetFlag h"
      using ok False by (auto simp: header_exact_def)
    have v: "ParsePublicHeader_version (?h0\<lparr>ph_ConnectionID := ph_ConnectionID h,
        ph_DiversificationNonce := ph_DiversificationNonce h\<rparr>) pers v x = ParsePublicHeader_tail ?h1 pers v x" for x
      using c False by (simp add: ParsePublicHeader_version_def PublicHeader_zero_def)
    show ?thesis using c False tail v unfolding header_bytes_def append_Cons ParsePublicHeader_flagByte [OF pn]
      by (cases "ph_TruncateConnectionID h"; cases "ph_DiversificationNonce h = []")
        (auto simp: ParsePublicHeader_fields_def rd PublicHeader_zero_def)
  qed
qed

text \<open>
  The packet packer hands over more than goes on the wire: the full packet number, of which \<^verbatim>\<open>Write\<close> keeps the low bytes,
  and the connection ID even when it is truncated. What is left of a header is what the peer reads.
\<close>

definition header_ok :: "PublicHeader \<Rightarrow> Perspective \<Rightarrow> VersionNumber \<Rightarrow> bool" where
  "header_ok h pers version \<longleftrightarrow>
     \<not> (ph_VersionFlag h \<and> ph_ResetFlag h) \<and> \<not> (ph_VersionFlag h \<and> pers = PerspectiveServer) \<and>
     (if hasPacketNumber h pers then dl_ok (ph_PacketNumberLen h) else ph_PacketNumberLen h = 0) \<and>
     (if ph_TruncateConnectionID h then pers = PerspectiveServer else ph_ConnectionID h \<noteq> 0) \<and>
     (ph_DiversificationNonce h \<noteq> [] \<longrightarrow> pers = PerspectiveServer \<and> length (ph_DiversificationNonce h) = 32
        \<and> \<not> ph_ResetFlag h) \<and>
     (if ph_VersionFlag h then ph_VersionNumber h = version \<and> 0 \<le> version \<and> version < 1000
      else ph_VersionNumber h = 0 \<and> (ph_ResetFlag h \<or> version \<noteq> VersionUnknown)) \<and>
     (ph_MultipathFlag h \<or> ph_PathID h = 0) \<and> ph_SupportedVersions h = [] \<and> ph_Raw h = []"

definition header_received :: "PublicHeader \<Rightarrow> PublicHeader" where
  "header_received h = h\<lparr>ph_ConnectionID := (if ph_TruncateConnectionID h then 0 else ph_ConnectionID h),
     ph_PacketNumber := take_bit (8 * unat (ph_PacketNumberLen h)) (ph_PacketNumber h)\<rparr>"

lemma ucast_take_bit: "LENGTH('b) \<le> n \<Longrightarrow> (ucast (take_bit n (w :: 'a::len word)) :: 'b::len word) = ucast w"
  by (rule bit_word_eqI) (auto simp: bit_take_bit_iff bit_ucast_iff)

lemma received_fields [simp]:
  "ph_VersionFlag (header_received h) = ph_VersionFlag h" "ph_ResetFlag (header_received h) = ph_ResetFlag h"
  "ph_TruncateConnectionID (header_received h) = ph_TruncateConnectionID h"
  "ph_MultipathFlag (header_received h) = ph_MultipathFlag h" "ph_PathID (header_received h) = ph_PathID h"
  "ph_PacketNumberLen (header_received h) = ph_PacketNumberLen h"
  "ph_VersionNumber (header_received h) = ph_VersionNumber h"
  "ph_SupportedVersions (header_received h) = ph_SupportedVersions h" "ph_Raw (header_received h) = ph_Raw h"
  "ph_DiversificationNonce (header_received h) = ph_DiversificationNonce h"
  "hasPacketNumber (header_received h) = hasPacketNumber h"
  by (simp_all add: header_received_def hasPacketNumber_def fun_eq_iff)

lemma received_exact:
  assumes "header_ok h pers v" shows "header_exact (header_received h) pers v"
proof -
  have "unat (take_bit n (x :: u64)) < 2 ^ n" for n x
    by (metis take_bit_nat_less_exp unsigned_take_bit_eq)
  then show ?thesis using assms unfolding header_ok_def header_exact_def received_fields
    by (auto simp: header_received_def split: if_splits)
qed

lemma writeNumber_received:
  assumes "dl_ok (ph_PacketNumberLen h)"
  shows "PublicHeader_writeNumber (header_received h) v = PublicHeader_writeNumber h v"
proof -
  have "push_bit 48 1 - 1 = (mask 48 :: u64)" by (simp add: mask_eq_exp_minus_1)
  then have "take_bit 48 x AND (push_bit 48 1 - 1) = (x AND (push_bit 48 1 - 1) :: u64)" for x
    by (auto intro!: bit_word_eqI simp only: bit_and_iff bit_take_bit_iff bit_mask_iff)
  then show ?thesis
    using assms by (auto simp: dl_ok_def PublicHeader_writeNumber_def header_received_def ucast_take_bit)
qed

lemma write_received:
  assumes "header_ok h pers v" shows "PublicHeader_Write (header_received h) v pers = PublicHeader_Write h v pers"
proof -
  have n: "(if \<not> hasPacketNumber h pers then Inr [] else PublicHeader_writeNumber (header_received h) v)
      = (if \<not> hasPacketNumber h pers then Inr [] else PublicHeader_writeNumber h v)"
    using assms by (simp add: header_ok_def writeNumber_received)
  have c: "(if \<not> ph_TruncateConnectionID h then leWriteUint64 (ph_ConnectionID (header_received h)) else Inr [])
      = (if \<not> ph_TruncateConnectionID h then leWriteUint64 (ph_ConnectionID h) else Inr [])"
    by (simp add: header_received_def)
  have f: "PublicHeader_flagByte (header_received h) pers = PublicHeader_flagByte h pers"
    by (simp add: PublicHeader_flagByte_def)
  show ?thesis by (simp only: PublicHeader_Write_def received_fields n c f)
qed

lemma header_length:
  assumes "header_exact h pers v"
  shows "PublicHeader_GetLength h pers = Inr (of_nat (length (header_bytes h pers v)))"
proof -
  have c: "of_nat (unat x) = (ucast x :: u64)" for x :: byte by (rule of_nat_unat)
  have v: "ph_VersionFlag h \<longrightarrow> pers = PerspectiveClient" "\<not> (ph_VersionFlag h \<and> pers = PerspectiveServer)"
      "\<not> (ph_VersionFlag h \<and> ph_ResetFlag h)" "hasPacketNumber h pers \<longrightarrow> dl_ok (ph_PacketNumberLen h)"
    using assms by (cases pers; auto simp: header_exact_def)+
  then show ?thesis unfolding PublicHeader_GetLength_def header_bytes_def by (auto simp: c Let_def dl_ok_def)
qed

lemma header_over_wire:
  assumes "header_ok h pers v"
  shows "\<exists>bs. PublicHeader_Write h v pers = Inr bs \<and> PublicHeader_GetLength h pers = Inr (of_nat (length bs))
    \<and> ParsePublicHeader pers v (bs @ r) = Inr (header_received h, r)"
proof -
  note e = received_exact [OF assms]
  have "PublicHeader_GetLength (header_received h) pers = PublicHeader_GetLength h pers"
    by (simp add: PublicHeader_GetLength_def)
  then show ?thesis
    using header_write [OF e] header_parse [OF e] header_length [OF e] write_received [OF assms] by auto
qed



section \<open>Version negotiation\<close>

lemma readVersionTags_tags:
  "\<forall>v\<in>set vs. 0 \<le> v \<and> v < 1000 \<Longrightarrow>
   readVersionTags (concat (map (\<lambda>v. le_bytes 4 (ucast (VersionNumberToTag v))) vs)) = vs"
proof (induction vs)
  case Nil
  then show ?case by (subst readVersionTags.simps) (simp add: leReadUint32_def)
next
  case (Cons v vs)
  then show ?case by (subst readVersionTags.simps) (simp add: le.read32_enc version_tag_inverse)
qed

lemma compose_bytes:
  "ComposeVersionNegotiation connectionID versions =
     PublicHeader_flagByte (PublicHeader_zero\<lparr>ph_ConnectionID := connectionID, ph_PacketNumber := 1, ph_VersionFlag := True\<rparr>) PerspectiveServer
     # le_bytes 8 connectionID @ concat (map (\<lambda>v. le_bytes 4 (ucast (VersionNumberToTag v))) versions)"
  by (simp add: ComposeVersionNegotiation_def PublicHeader_Write_def PublicHeader_zero_def hasPacketNumber_def le.writers)

text \<open>
  C23: A client that receives the server's version negotiation packet reads the connection ID and
  exactly the versions the server listed, in the server's order, and the whole packet is consumed.
\<close>

theorem version_negotiation_roundtrip:
  assumes "connectionID \<noteq> 0" "\<forall>v\<in>set versions. 0 \<le> v \<and> v < 1000"
  shows "ParsePublicHeader PerspectiveServer ver (ComposeVersionNegotiation connectionID versions)
    = Inr (PublicHeader_zero\<lparr>ph_ConnectionID := connectionID, ph_VersionFlag := True,
        ph_SupportedVersions := versions\<rparr>, [])"
proof -
  let ?h = "PublicHeader_zero\<lparr>ph_ConnectionID := connectionID, ph_PacketNumber := 1, ph_VersionFlag := True\<rparr>"
  let ?tags = "concat (map (\<lambda>v. le_bytes 4 (ucast (VersionNumberToTag v))) versions)"
  have p: "\<not> hasPacketNumber ?h PerspectiveServer" by (simp add: hasPacketNumber_def)
  have "length ?tags = 4 * length versions" by (induction versions) auto
  then have "length ?tags mod 4 = 0" by simp
  then show ?thesis
    using ParsePublicHeader_flagByte [of ?h PerspectiveServer ver "le_bytes 8 connectionID @ ?tags"] p assms(1)
      readVersionTags_tags [OF assms(2)]
    by (simp add: compose_bytes ParsePublicHeader_fields_def ParsePublicHeader_version_def le.read64_enc PublicHeader_zero_def)
qed

theorem version_negotiation_roundtrip_witness:
  "ParsePublicHeader PerspectiveServer VersionUnknown (ComposeVersionNegotiation 12 SupportedVersions)
    = Inr (PublicHeader_zero\<lparr>ph_ConnectionID := 12, ph_VersionFlag := True,
        ph_SupportedVersions := SupportedVersions\<rparr>, [])"
  by (rule version_negotiation_roundtrip) (simp_all add: SupportedVersions_def version_defs)

end
