(* ===== verification/Handshake.thy ===== *)
theory Handshake
  imports Utils PublicHeaders
begin

text \<open>
  The package \<^verbatim>\<open>internal/handshake\<close>: the tags, the tag-value messages of the QUIC crypto
  handshake (\<^verbatim>\<open>handshake_message.go\<close>), the negotiation of connection parameters
  (\<^verbatim>\<open>connection_parameters_manager.go\<close>), and the public reset packet
  (\<^verbatim>\<open>internal/wire/public_reset.go\<close>), whose body is such a message.
\<close>

section \<open>Tags\<close>

type_synonym Tag = u32

text \<open>Four characters, the first in the lowest byte.\<close>

definition tag4 :: "Tag \<Rightarrow> Tag \<Rightarrow> Tag \<Rightarrow> Tag \<Rightarrow> Tag" where
  "tag4 a b c d = a + push_bit 8 b + push_bit 16 c + push_bit 24 d"

definition TagMSPC :: Tag where "TagMSPC = tag4 77 83 80 67"
definition TagMIDS :: Tag where "TagMIDS = tag4 77 73 68 83"
definition TagTCID :: Tag where "TagTCID = tag4 84 67 73 68"
definition TagICSL :: Tag where "TagICSL = tag4 73 67 83 76"
definition TagCFCW :: Tag where "TagCFCW = tag4 67 70 67 87"
definition TagSFCW :: Tag where "TagSFCW = tag4 83 70 67 87"
definition TagPRST :: Tag where "TagPRST = tag4 80 82 83 84"
definition TagRSEQ :: Tag where "TagRSEQ = tag4 82 83 69 81"
definition TagRNON :: Tag where "TagRNON = tag4 82 78 79 78"

lemmas tag_defs = TagMSPC_def TagMIDS_def TagTCID_def TagICSL_def TagCFCW_def TagSFCW_def
  TagPRST_def TagRSEQ_def TagRNON_def tag4_def

definition CryptoTooManyEntries :: ErrorCode where "CryptoTooManyEntries = 30"
definition CryptoInvalidValueLength :: ErrorCode where "CryptoInvalidValueLength = 31"
definition InvalidCryptoMessageParameter :: ErrorCode where "InvalidCryptoMessageParameter = 34"

definition CryptoMaxParams :: u32 where "CryptoMaxParams = 128"
definition CryptoParameterMaxLength :: u32 where "CryptoParameterMaxLength = 4000"

section \<open>Handshake messages\<close>

text \<open>The map \<^verbatim>\<open>Data\<close> is an association list with distinct keys.\<close>

record HandshakeMessage =
  hm_Tag :: Tag
  hm_Data :: "(Tag \<times> byte list) list"

text \<open>
  The loop over the index. \<open>index\<close> holds the entries not read yet; reading past its end would
  be a slice index out of range.
\<close>

fun parseEntries :: "nat \<Rightarrow> byte list \<Rightarrow> u32 \<Rightarrow> (Tag \<times> byte list) list \<Rightarrow> (Tag \<times> byte list) list parser" where
  "parseEntries 0 index dataStart resultMap = preturn resultMap"
| "parseEntries (Suc n) index dataStart resultMap =
     (case pbind leReadUint32 (\<lambda>tag. pbind leReadUint32 (\<lambda>dataEnd. preturn (tag, dataEnd))) index of
        Inl _ \<Rightarrow> pfail (Panic ''slice bounds out of range'')
      | Inr ((tag, dataEnd), index') \<Rightarrow>
          (let dataLen = dataEnd - dataStart in
           pbind (pcheck (dataLen > CryptoParameterMaxLength) (QErr CryptoInvalidValueLength)) (\<lambda>_.
           pbind (ReadFull (unat dataLen)) (\<lambda>data.
             parseEntries n index' dataEnd (AList.update tag data resultMap)))))"

definition ParseHandshakeMessage :: "HandshakeMessage parser" where
  "ParseHandshakeMessage =
     pbind leReadUint32 (\<lambda>messageTag. pbind leReadUint32 (\<lambda>nPairs.
     pbind (pcheck (nPairs > CryptoMaxParams) (QErr CryptoTooManyEntries)) (\<lambda>_.
     pbind (ReadFull (unat (nPairs * 8))) (\<lambda>index.
     pbind (parseEntries (unat nPairs) index 0 []) (\<lambda>resultMap.
       preturn \<lparr>hm_Tag = messageTag, hm_Data = resultMap\<rparr>)))))"

definition getTagsSorted :: "HandshakeMessage \<Rightarrow> Tag list" where
  "getTagsSorted h = sort (map fst (hm_Data h))"

definition PutUint32 :: "u32 \<Rightarrow> byte list" where
  "PutUint32 v = [ucast v, ucast (drop_bit 8 v), ucast (drop_bit 16 v), ucast (drop_bit 24 v)]"

text \<open>The loop of \<^verbatim>\<open>Write\<close>: the index and the values, in the order of the sorted tags.\<close>

fun writeEntries :: "(Tag \<times> byte list) list \<Rightarrow> u32 \<Rightarrow> Tag list \<Rightarrow> byte list \<times> byte list" where
  "writeEntries data offset [] = ([], [])"
| "writeEntries data offset (t # ts) =
     (let v = (case map_of data t of None \<Rightarrow> [] | Some v \<Rightarrow> v);
          offset' = offset + of_nat (length v);
          (index, body) = writeEntries data offset' ts
      in (PutUint32 t @ PutUint32 offset' @ index, v @ body))"

definition HandshakeMessage_Write :: "HandshakeMessage \<Rightarrow> wresult" where
  "HandshakeMessage_Write h =
     (let (index, body) = writeEntries (hm_Data h) 0 (getTagsSorted h) in
      wseq [leWriteUint32 (hm_Tag h), leWriteUint16 (of_nat (length (hm_Data h))), leWriteUint16 0,
            WriteBytes index, WriteBytes body])"

section \<open>Public reset\<close>

record PublicReset =
  pr_RejectedPacketNumber :: PacketNumber
  pr_Nonce :: u64

definition WritePublicReset :: "ConnectionID \<Rightarrow> PacketNumber \<Rightarrow> u64 \<Rightarrow> wresult" where
  "WritePublicReset connectionID rejectedPacketNumber nonceProof = wseq [
     WriteByte 10, leWriteUint64 connectionID, leWriteUint32 TagPRST, leWriteUint32 2,
     leWriteUint32 TagRNON, leWriteUint32 8, leWriteUint32 TagRSEQ, leWriteUint32 16,
     leWriteUint64 nonceProof, leWriteUint64 rejectedPacketNumber]"

text \<open>\<^verbatim>\<open>binary.LittleEndian.Uint64\<close> on a slice of eight bytes.\<close>

definition field64 :: "byte list option \<Rightarrow> string \<Rightarrow> string \<Rightarrow> u64 parser" where
  "field64 d missing invalid =
     (case d of None \<Rightarrow> pfail (Errorf missing)
      | Some bs \<Rightarrow> if length bs \<noteq> 8 then pfail (Errorf invalid)
          else (case leReadUint64 bs of Inl _ \<Rightarrow> pfail (Panic ''index out of range'')
                | Inr (v, _) \<Rightarrow> preturn v))"

definition ParsePublicReset :: "PublicReset parser" where
  "ParsePublicReset =
     pbind ParseHandshakeMessage (\<lambda>msg.
     pbind (pcheck (hm_Tag msg \<noteq> TagPRST) (Errorf ''wrong public reset tag'')) (\<lambda>_.
     pbind (field64 (map_of (hm_Data msg) TagRSEQ) ''RSEQ missing'' ''invalid RSEQ tag'') (\<lambda>rseq.
     pbind (field64 (map_of (hm_Data msg) TagRNON) ''RNON missing'' ''invalid RNON tag'') (\<lambda>rnon.
       preturn \<lparr>pr_RejectedPacketNumber = rseq, pr_Nonce = rnon\<rparr>))))"

section \<open>Connection parameters\<close>

definition InitialStreamFlowControlWindow :: ByteCount where "InitialStreamFlowControlWindow = push_bit 14 1"
definition InitialConnectionFlowControlWindow :: ByteCount where "InitialConnectionFlowControlWindow = push_bit 14 1"
definition ReceiveStreamFlowControlWindow :: ByteCount where "ReceiveStreamFlowControlWindow = push_bit 10 1 * 32"
definition ReceiveConnectionFlowControlWindow :: ByteCount where "ReceiveConnectionFlowControlWindow = push_bit 10 1 * 48"
definition MaxStreamsPerConnection :: u32 where "MaxStreamsPerConnection = 1000"
definition MaxIncomingDynamicStreamsPerConnection :: u32 where "MaxIncomingDynamicStreamsPerConnection = 1000"
definition MaxStreamsMinimumIncrement :: u32 where "MaxStreamsMinimumIncrement = 10"

abbreviation Second :: int where "Second \<equiv> (1000000000 :: int)"

record connectionParametersManager =
  cpm_version :: VersionNumber
  cpm_perspective :: Perspective
  cpm_flowControlNegotiated :: bool
  cpm_truncateConnectionID :: bool
  cpm_maxStreamsPerConnection :: u32
  cpm_maxIncomingDynamicStreamsPerConnection :: u32
  cpm_idleConnectionStateLifetime :: int
  cpm_sendStreamFlowControlWindow :: ByteCount
  cpm_sendConnectionFlowControlWindow :: ByteCount
  cpm_receiveStreamFlowControlWindow :: ByteCount
  cpm_receiveConnectionFlowControlWindow :: ByteCount
  cpm_maxReceiveStreamFlowControlWindow :: ByteCount
  cpm_maxReceiveConnectionFlowControlWindow :: ByteCount

abbreviation ErrMalformedTag :: gerror where "ErrMalformedTag \<equiv> QErr InvalidCryptoMessageParameter"
abbreviation ErrFlowControlRenegotiationNotSupported :: gerror where "ErrFlowControlRenegotiationNotSupported \<equiv> QErr InvalidCryptoMessageParameter"

definition NewConnectionParamatersManager ::
  "Perspective \<Rightarrow> VersionNumber \<Rightarrow> ByteCount \<Rightarrow> ByteCount \<Rightarrow> int \<Rightarrow> connectionParametersManager" where
  "NewConnectionParamatersManager pers v maxReceiveStream maxReceiveConnection idleTimeout =
     \<lparr>cpm_version = v, cpm_perspective = pers,
      cpm_flowControlNegotiated = False, cpm_truncateConnectionID = False,
      cpm_maxStreamsPerConnection = MaxStreamsPerConnection,
      cpm_maxIncomingDynamicStreamsPerConnection = MaxStreamsPerConnection,
      cpm_idleConnectionStateLifetime = idleTimeout,
      cpm_sendStreamFlowControlWindow = InitialStreamFlowControlWindow,
      cpm_sendConnectionFlowControlWindow = InitialConnectionFlowControlWindow,
      cpm_receiveStreamFlowControlWindow = ReceiveStreamFlowControlWindow,
      cpm_receiveConnectionFlowControlWindow = ReceiveConnectionFlowControlWindow,
      cpm_maxReceiveStreamFlowControlWindow = maxReceiveStream,
      cpm_maxReceiveConnectionFlowControlWindow = maxReceiveConnection\<rparr>"

definition negotiateMaxStreamsPerConnection :: "u32 \<Rightarrow> u32" where
  "negotiateMaxStreamsPerConnection clientValue = MinUint32 clientValue MaxStreamsPerConnection"

definition negotiateMaxIncomingDynamicStreamsPerConnection :: "u32 \<Rightarrow> u32" where
  "negotiateMaxIncomingDynamicStreamsPerConnection clientValue =
     MinUint32 clientValue MaxIncomingDynamicStreamsPerConnection"

definition negotiateIdleConnectionStateLifetime :: "connectionParametersManager \<Rightarrow> int \<Rightarrow> int" where
  "negotiateIdleConnectionStateLifetime h clientValue =
     MinDuration clientValue (cpm_idleConnectionStateLifetime h)"

text \<open>One \<^verbatim>\<open>if value, ok := params[tag]; ok\<close> block: read the value and apply it.\<close>

definition setParam ::
  "byte list option \<Rightarrow> (u32 \<Rightarrow> connectionParametersManager \<Rightarrow> connectionParametersManager)
    \<Rightarrow> connectionParametersManager \<Rightarrow> connectionParametersManager outcome" where
  "setParam v upd h =
     (case v of None \<Rightarrow> done_ok h
      | Some bs \<Rightarrow> (case leReadUint32 bs of
            Inl _ \<Rightarrow> fail_with ErrMalformedTag h
          | Inr (clientValue, _) \<Rightarrow> done_ok (upd clientValue h)))"

definition setWindow ::
  "byte list option \<Rightarrow> (u32 \<Rightarrow> connectionParametersManager \<Rightarrow> connectionParametersManager)
    \<Rightarrow> connectionParametersManager \<Rightarrow> connectionParametersManager outcome" where
  "setWindow v upd h =
     (if v \<noteq> None \<and> cpm_flowControlNegotiated h
      then fail_with ErrFlowControlRenegotiationNotSupported h else setParam v upd h)"

definition SetFromMap ::
  "connectionParametersManager \<Rightarrow> (Tag \<rightharpoonup> byte list) \<Rightarrow> connectionParametersManager outcome" where
  "SetFromMap h params =
     obind (obind (obind (obind (obind (obind
       (setParam (if cpm_perspective h = PerspectiveServer then params TagTCID else None)
          (\<lambda>v h. h\<lparr>cpm_truncateConnectionID := (v = 0)\<rparr>) h)
       (setParam (params TagMSPC)
          (\<lambda>v h. h\<lparr>cpm_maxStreamsPerConnection := negotiateMaxStreamsPerConnection v\<rparr>)))
       (setParam (params TagMIDS)
          (\<lambda>v h. h\<lparr>cpm_maxIncomingDynamicStreamsPerConnection := negotiateMaxIncomingDynamicStreamsPerConnection v\<rparr>)))
       (setParam (params TagICSL)
          (\<lambda>v h. h\<lparr>cpm_idleConnectionStateLifetime :=
             negotiateIdleConnectionStateLifetime h (i64 (uint v * Second))\<rparr>)))
       (setWindow (params TagSFCW) (\<lambda>v h. h\<lparr>cpm_sendStreamFlowControlWindow := ucast v\<rparr>)))
       (setWindow (params TagCFCW) (\<lambda>v h. h\<lparr>cpm_sendConnectionFlowControlWindow := ucast v\<rparr>)))
       (\<lambda>h. done_ok (if params TagCFCW \<noteq> None \<or> params TagSFCW \<noteq> None
                     then h\<lparr>cpm_flowControlNegotiated := True\<rparr> else h))"

definition GetSendStreamFlowControlWindow :: "connectionParametersManager \<Rightarrow> ByteCount" where
  "GetSendStreamFlowControlWindow h = cpm_sendStreamFlowControlWindow h"

definition GetSendConnectionFlowControlWindow :: "connectionParametersManager \<Rightarrow> ByteCount" where
  "GetSendConnectionFlowControlWindow h = cpm_sendConnectionFlowControlWindow h"

definition GetReceiveStreamFlowControlWindow :: "connectionParametersManager \<Rightarrow> ByteCount" where
  "GetReceiveStreamFlowControlWindow h = cpm_receiveStreamFlowControlWindow h"

definition GetMaxReceiveStreamFlowControlWindow :: "connectionParametersManager \<Rightarrow> ByteCount" where
  "GetMaxReceiveStreamFlowControlWindow h = cpm_maxReceiveStreamFlowControlWindow h"

definition GetReceiveConnectionFlowControlWindow :: "connectionParametersManager \<Rightarrow> ByteCount" where
  "GetReceiveConnectionFlowControlWindow h = cpm_receiveConnectionFlowControlWindow h"

definition GetMaxReceiveConnectionFlowControlWindow :: "connectionParametersManager \<Rightarrow> ByteCount" where
  "GetMaxReceiveConnectionFlowControlWindow h = cpm_maxReceiveConnectionFlowControlWindow h"

definition GetIdleConnectionStateLifetime :: "connectionParametersManager \<Rightarrow> int" where
  "GetIdleConnectionStateLifetime h = cpm_idleConnectionStateLifetime h"

lemmas param_getters =
  GetSendStreamFlowControlWindow_def GetSendConnectionFlowControlWindow_def
  GetReceiveStreamFlowControlWindow_def GetMaxReceiveStreamFlowControlWindow_def
  GetReceiveConnectionFlowControlWindow_def GetMaxReceiveConnectionFlowControlWindow_def
  GetIdleConnectionStateLifetime_def

definition GetHelloMap :: "connectionParametersManager \<Rightarrow> (Tag \<times> byte list) list" where
  "GetHelloMap h =
     [(TagICSL, PutUint32 (word_of_int (quot (GetIdleConnectionStateLifetime h) Second))),
      (TagMSPC, PutUint32 (cpm_maxStreamsPerConnection h)),
      (TagMIDS, PutUint32 MaxIncomingDynamicStreamsPerConnection),
      (TagCFCW, PutUint32 (ucast (GetReceiveConnectionFlowControlWindow h))),
      (TagSFCW, PutUint32 (ucast (GetReceiveStreamFlowControlWindow h)))]"

definition GetMaxOutgoingStreams :: "connectionParametersManager \<Rightarrow> u32" where
  "GetMaxOutgoingStreams h = cpm_maxIncomingDynamicStreamsPerConnection h"

text \<open>\<^verbatim>\<open>float64(1000) * 1.1\<close> rounds to 1100.\<close>

definition GetMaxIncomingStreams :: "connectionParametersManager \<Rightarrow> u32" where
  "GetMaxIncomingStreams h =
     MaxUint32 (MaxIncomingDynamicStreamsPerConnection + MaxStreamsMinimumIncrement)
       (MaxIncomingDynamicStreamsPerConnection * 11 div 10)"

definition TruncateConnectionID :: "connectionParametersManager \<Rightarrow> bool" where
  "TruncateConnectionID h =
     (if cpm_perspective h = PerspectiveClient then False else cpm_truncateConnectionID h)"

section \<open>A handshake message survives the wire\<close>

lemma PutUint32_bytes: "PutUint32 v = le_bytes 4 (ucast v)"
  using le.write32_enc [of v] by (simp add: PutUint32_def leWriteUint32_def)

lemma leReadUint32_Put [simp]: "leReadUint32 (PutUint32 v @ r) = Inr (v, r)"
  by (simp add: PutUint32_bytes le.read32_enc)

lemma leReadUint32_Put_end [simp]: "leReadUint32 (PutUint32 v) = Inr (v, [])"
  using leReadUint32_Put [of v "[]"] by simp

lemma length_PutUint32 [simp]: "length (PutUint32 v) = 4"
  by (simp add: PutUint32_def)

lemma leWriteUint32_Put: "leWriteUint32 v = Inr (PutUint32 v)"
  by (simp add: leWriteUint32_def PutUint32_def)

definition params_sendable :: "(Tag \<times> byte list) list \<Rightarrow> bool" where
  "params_sendable data \<longleftrightarrow> distinct (map fst data) \<and> length data \<le> 128
     \<and> (\<forall>(t, v) \<in> set data. length v \<le> 4000)"

lemma entry_length: "length v \<le> 4000 \<Longrightarrow> unat ((off + of_nat (length v)) - off :: u32) = length v"
  by (simp add: unat_of_nat)

lemma entry_short: "length v \<le> 4000 \<Longrightarrow> \<not> CryptoParameterMaxLength < of_nat (length v)"
  by (simp add: CryptoParameterMaxLength_def word_less_nat_alt unat_of_nat)

lemma parse_written_entries:
  assumes "\<forall>t\<in>set ts. \<exists>v. map_of data t = Some v \<and> length v \<le> 4000"
  shows "parseEntries (length ts) (fst (writeEntries data off ts) @ irest) off m
           (snd (writeEntries data off ts) @ r)
         = Inr (fold (\<lambda>t. AList.update t (the (map_of data t))) ts m, r)"
  using assms
proof (induction ts arbitrary: off m)
  case (Cons t ts)
  then obtain v where v: "map_of data t = Some v" "length v \<le> 4000" by auto
  have IH: "parseEntries (length ts) (fst (writeEntries data off' ts) @ irest) off' m'
           (snd (writeEntries data off' ts) @ r)
         = Inr (fold (\<lambda>t. AList.update t (the (map_of data t))) ts m', r)" for off' m'
    using Cons by simp
  show ?case
    using v by (simp add: Let_def split_beta IH entry_short unat_of_nat)
qed simp

lemma length_index: "length (fst (writeEntries data off ts)) = 8 * length ts"
  by (induction ts arbitrary: off) (simp_all add: Let_def split_beta)

lemma map_of_fold_update:
  "map_of (fold (\<lambda>t. AList.update t (g t)) ts m) = (\<lambda>t. if t \<in> set ts then Some (g t) else map_of m t)"
  by (induction ts arbitrary: m) (auto simp: fun_eq_iff)

lemma count_field:
  "leReadUint32 ([ucast n, ucast (drop_bit 8 n)] @ [0, 0] @ r) = Inr (ucast (n :: u16), r)"
proof -
  have "PutUint32 (ucast n) = [ucast n, ucast (drop_bit 8 n)] @ [0, 0]"
    by (auto simp: PutUint32_def bit_simps intro!: bit_word_eqI)
      (fastforce dest: bit_imp_le_length)+
  then show ?thesis using leReadUint32_Put [of "ucast n" r] by simp
qed

lemma parse_written_message:
  assumes "params_sendable (hm_Data h)"
  shows "\<exists>bs h'. HandshakeMessage_Write h = Inr bs \<and> ParseHandshakeMessage (bs @ r) = Inr (h', r)
     \<and> hm_Tag h' = hm_Tag h \<and> map_of (hm_Data h') = map_of (hm_Data h)"
proof -
  define data where "data = hm_Data h"
  define ts where "ts = getTagsSorted h"
  define index body where "index = fst (writeEntries data 0 ts)" and "body = snd (writeEntries data 0 ts)"
  have ok: "distinct (map fst data)" "length data \<le> 128" "\<forall>(t, v) \<in> set data. length v \<le> 4000"
    using assms by (auto simp: params_sendable_def data_def)
  have ts: "set ts = fst ` set data" "length ts = length data"
    by (simp_all add: ts_def getTagsSorted_def data_def)
  have vals: "\<forall>t\<in>set ts. \<exists>v. map_of data t = Some v \<and> length v \<le> 4000"
    using ok unfolding ts by (fastforce simp: map_of_eq_Some_iff)
  have n: "unat (of_nat (length data) :: u16) = length data"
    using ok(2) by (simp add: unat_of_nat)
  have n32: "unat (ucast (of_nat (length data) :: u16) :: u32) = length data"
    using n ok(2) by (simp add: unsigned_ucast_eq take_bit_eq_mod)
  have n8: "unat (ucast (of_nat (length data) :: u16) * 8 :: u32) = 8 * length data"
    using ok(2) by (simp add: unat_mult_lem [THEN iffD1] n32)
  let ?bs = "PutUint32 (hm_Tag h) @ ([ucast (of_nat (length data) :: u16), ucast (drop_bit 8 (of_nat (length data) :: u16))]
      @ [0, 0] @ index @ body)"
  have w: "HandshakeMessage_Write h = Inr ?bs"
    by (simp add: HandshakeMessage_Write_def split_beta leWriteUint32_Put leWriteUint16_def
        data_def [symmetric] ts_def [symmetric] index_def body_def)
  have p: "ParseHandshakeMessage (?bs @ r)
      = Inr (\<lparr>hm_Tag = hm_Tag h, hm_Data = fold (\<lambda>t. AList.update t (the (map_of data t))) ts []\<rparr>, r)"
  proof -
    have c: "\<not> CryptoMaxParams < ucast (of_nat (length data) :: u16)"
      using ok(2) n32 by (simp add: CryptoMaxParams_def word_less_nat_alt)
    have f: "ReadFull (8 * length data) (index @ body @ r) = Inr (index, body @ r)"
      by (simp add: index_def length_index ts)
    have e: "parseEntries (length data) index 0 [] (body @ r)
        = Inr (fold (\<lambda>t. AList.update t (the (map_of data t))) ts [], r)"
      using parse_written_entries [OF vals, of 0 "[]" "[]" r] by (simp add: index_def body_def ts)
    show ?thesis
      unfolding ParseHandshakeMessage_def append_assoc
      by (simp del: append_Cons add: count_field [simplified append_assoc] c n8 n32 f e)
  qed
  have m: "map_of (fold (\<lambda>t. AList.update t (the (map_of data t))) ts []) = map_of data"
    unfolding map_of_fold_update fun_eq_iff ts
    by (metis map_of.simps(1) map_of_eq_None_iff option.collapse)
  show ?thesis using w p m by (auto simp: data_def)
qed


text \<open>
  C27: A handshake message survives the wire: for up to 128 parameters of up to 4000 bytes each, the
  receiver reads the same tag and the same value for every parameter, whatever follows the message.
\<close>

theorem handshake_message_roundtrip:
  assumes "params_sendable (hm_Data h)"
  shows "\<exists>bs h'. HandshakeMessage_Write h = Inr bs \<and> ParseHandshakeMessage (bs @ r) = Inr (h', r)
     \<and> hm_Tag h' = hm_Tag h \<and> map_of (hm_Data h') = map_of (hm_Data h)"
  using assms by (rule parse_written_message)

theorem handshake_message_roundtrip_witness:
  "let h = \<lparr>hm_Tag = TagPRST, hm_Data = [(TagRSEQ, [1, 2]), (TagMIDS, [3])]\<rparr> in
   params_sendable (hm_Data h) \<and>
   (\<exists>bs h'. HandshakeMessage_Write h = Inr bs \<and> ParseHandshakeMessage (bs @ [7]) = Inr (h', [7])
     \<and> hm_Tag h' = TagPRST \<and> map_of (hm_Data h') TagMIDS = Some [3])"
proof -
  let ?h = "\<lparr>hm_Tag = TagPRST, hm_Data = [(TagRSEQ, [1, 2]), (TagMIDS, [3])]\<rparr>"
  have ok: "params_sendable (hm_Data ?h)" by (simp add: params_sendable_def tag_defs)
  have m: "map_of (hm_Data ?h) TagMIDS = Some [3]" by (simp add: tag_defs)
  obtain bs h' where "HandshakeMessage_Write ?h = Inr bs" "ParseHandshakeMessage (bs @ [7]) = Inr (h', [7])"
      "hm_Tag h' = hm_Tag ?h" "map_of (hm_Data h') = map_of (hm_Data ?h)"
    using handshake_message_roundtrip [OF ok, of "[7]"] by blast
  then show ?thesis using ok m unfolding Let_def by (metis HandshakeMessage.select_convs(1))
qed

section \<open>A public reset survives the wire\<close>

lemma field64_bytes: "field64 (Some (le_bytes 8 v)) missing invalid bs = Inr (v, bs)"
  using le.read64_enc [of v "[]"] by (simp add: field64_def)

definition reset_message :: "PacketNumber \<Rightarrow> u64 \<Rightarrow> HandshakeMessage" where
  "reset_message rejectedPacketNumber nonceProof = \<lparr>hm_Tag = TagPRST,
     hm_Data = [(TagRNON, le_bytes 8 nonceProof), (TagRSEQ, le_bytes 8 rejectedPacketNumber)]\<rparr>"

lemma reset_tags: "getTagsSorted (reset_message p n) = [TagRNON, TagRSEQ]" "TagRNON \<noteq> TagRSEQ"
  by (simp_all add: getTagsSorted_def reset_message_def tag_defs)

lemma WritePublicReset_message:
  assumes "HandshakeMessage_Write (reset_message p n) = Inr bs"
  shows "WritePublicReset c p n = Inr (10 # le_bytes 8 c @ bs)"
proof -
  have "bs = PutUint32 TagPRST @ PutUint32 2 @ PutUint32 TagRNON @ PutUint32 8 @ PutUint32 TagRSEQ
      @ PutUint32 16 @ le_bytes 8 n @ le_bytes 8 p"
    using assms reset_tags(2) reset_tags(2) [symmetric]
    by (simp add: HandshakeMessage_Write_def reset_tags(1))
      (simp add: reset_message_def leWriteUint32_Put leWriteUint16_def PutUint32_def Let_def)
  then show ?thesis
    by (simp add: WritePublicReset_def leWriteUint32_Put le.write64_enc)
qed

lemma reset_header:
  assumes "connectionID \<noteq> 0"
  shows "\<exists>h. ParsePublicHeader PerspectiveServer version (10 # le_bytes 8 connectionID @ r) = Inr (h, r)
     \<and> ph_ResetFlag h \<and> ph_ConnectionID h = connectionID"
  using assms
  by (simp add: ParsePublicHeader_def PublicHeader_ofFlags_def ParsePublicHeader_fields_def hasPacketNumber_def
      PublicHeader_zero_def ParsePublicHeader_version_def ParsePublicHeader_tail_def le.read64_enc)

text \<open>
  C28: A public reset sent by the server is recognised by the client: its public header has the reset
  flag and the connection ID, and its body gives the rejected packet number and the nonce.
\<close>

theorem public_reset_roundtrip:
  assumes "connectionID \<noteq> 0"
  shows "\<exists>bs h r. WritePublicReset connectionID rejectedPacketNumber nonceProof = Inr bs
     \<and> ParsePublicHeader PerspectiveServer version bs = Inr (h, r)
     \<and> ph_ResetFlag h \<and> ph_ConnectionID h = connectionID
     \<and> ParsePublicReset r
         = Inr (\<lparr>pr_RejectedPacketNumber = rejectedPacketNumber, pr_Nonce = nonceProof\<rparr>, [])"
proof -
  let ?m = "reset_message rejectedPacketNumber nonceProof"
  have "params_sendable (hm_Data ?m)"
    by (simp add: params_sendable_def reset_message_def reset_tags)
  then obtain bs h' where b: "HandshakeMessage_Write ?m = Inr bs" "ParseHandshakeMessage bs = Inr (h', [])"
      "hm_Tag h' = hm_Tag ?m" "map_of (hm_Data h') = map_of (hm_Data ?m)"
    using parse_written_message [of ?m "[]"] by auto
  have "ParsePublicReset bs
      = Inr (\<lparr>pr_RejectedPacketNumber = rejectedPacketNumber, pr_Nonce = nonceProof\<rparr>, [])"
    using b reset_tags(2) by (simp add: ParsePublicReset_def reset_message_def field64_bytes)
  then show ?thesis
    using WritePublicReset_message [OF b(1), of connectionID] reset_header [OF assms, of version bs] by blast
qed

theorem public_reset_roundtrip_witness:
  "\<exists>bs h r. WritePublicReset 5 77 1234 = Inr bs \<and> ParsePublicHeader PerspectiveServer VersionMP bs = Inr (h, r)
     \<and> ph_ResetFlag h \<and> ph_ConnectionID h = 5
     \<and> ParsePublicReset r = Inr (\<lparr>pr_RejectedPacketNumber = 77, pr_Nonce = 1234\<rparr>, [])"
  by (rule public_reset_roundtrip) simp


section \<open>Negotiation of connection parameters\<close>

lemma setParam_Put: "setParam (Some (PutUint32 v)) upd h = (None, upd v h)"
  by (simp add: setParam_def)

lemma setWindow_Put:
  "\<not> cpm_flowControlNegotiated h \<Longrightarrow> setWindow (Some (PutUint32 v)) upd h = (None, upd v h)"
  by (simp add: setWindow_def setParam_Put)

lemma hello_lookup:
  "map_of (GetHelloMap c) TagTCID = None"
  "map_of (GetHelloMap c) TagMSPC = Some (PutUint32 (cpm_maxStreamsPerConnection c))"
  "map_of (GetHelloMap c) TagMIDS = Some (PutUint32 MaxIncomingDynamicStreamsPerConnection)"
  "map_of (GetHelloMap c) TagICSL = Some (PutUint32 (word_of_int (quot (cpm_idleConnectionStateLifetime c) Second)))"
  "map_of (GetHelloMap c) TagSFCW = Some (PutUint32 (ucast (cpm_receiveStreamFlowControlWindow c)))"
  "map_of (GetHelloMap c) TagCFCW = Some (PutUint32 (ucast (cpm_receiveConnectionFlowControlWindow c)))"
  by (simp_all add: GetHelloMap_def param_getters tag_defs)

lemma ucast_32_64: "w < 2 ^ 32 \<Longrightarrow> ucast (ucast (w :: u64) :: u32) = w"
  by (simp add: word_unat_eq_iff word_less_nat_alt unsigned_ucast_eq take_bit_eq_mod unat_mod)

text \<open>Once the windows are set, no message changes them.\<close>

lemma setParam_keeps: "(\<And>v h. f (upd v h) = f h) \<Longrightarrow> f (snd (setParam p upd h)) = f h"
  by (auto simp: setParam_def split: option.splits sum.splits)

lemma setWindow_negotiated:
  "cpm_flowControlNegotiated h \<Longrightarrow> snd (setWindow p upd h) = h"
  "cpm_flowControlNegotiated h \<Longrightarrow> p \<noteq> None \<Longrightarrow> fst (setWindow p upd h) \<noteq> None"
  by (auto simp: setWindow_def setParam_def)

definition windows_set_to :: "ByteCount \<Rightarrow> ByteCount \<Rightarrow> connectionParametersManager \<Rightarrow> bool" where
  "windows_set_to sw cw h \<longleftrightarrow> cpm_flowControlNegotiated h
     \<and> cpm_sendStreamFlowControlWindow h = sw \<and> cpm_sendConnectionFlowControlWindow h = cw"

lemma SetFromMap_negotiated:
  assumes "windows_set_to sw cw h"
  shows "windows_set_to sw cw (snd (SetFromMap h params))"
proof -
  have p: "windows_set_to sw cw h \<Longrightarrow> windows_set_to sw cw (snd (setParam v upd h))"
    if "\<And>v h. windows_set_to sw cw (upd v h) = windows_set_to sw cw h" for v upd h
    using setParam_keeps [of "windows_set_to sw cw" upd, OF that] by simp
  have w: "windows_set_to sw cw h \<Longrightarrow> windows_set_to sw cw (snd (setWindow v upd h))" for v upd h
    by (subst setWindow_negotiated(1)) (simp_all add: windows_set_to_def)
  show ?thesis
    unfolding SetFromMap_def
    by (intro obind_invariant [where I = "windows_set_to sw cw"] p w assms)
      (simp_all add: windows_set_to_def)
qed


text \<open>
  The hello messages hold the connection parameters and what the crypto setups add to them (\<^verbatim>\<open>getTags\<close> of the client,
  \<^verbatim>\<open>handleCHLO\<close> of the server): other tags, and from a client that asks for it the tag that truncates the connection ID.
\<close>

definition hello_extra :: "(Tag \<times> byte list) list \<Rightarrow> bool" where
  "hello_extra extra \<longleftrightarrow> distinct (map fst extra) \<and> length extra \<le> 120
     \<and> (\<forall>(t, v) \<in> set extra. length v \<le> 4000 \<and> t \<notin> {TagICSL, TagMSPC, TagMIDS, TagCFCW, TagSFCW}
          \<and> (t = TagTCID \<longrightarrow> v = PutUint32 0))"

lemma hello_sendable: "hello_extra extra \<Longrightarrow> params_sendable (GetHelloMap c @ extra)"
  by (auto simp: params_sendable_def hello_extra_def GetHelloMap_def) (simp_all add: tag_defs)

lemma hello_lookup_extra:
  assumes "hello_extra extra"
  shows "map_of (GetHelloMap c @ extra) TagTCID \<in> {None, Some (PutUint32 0)}"
    and "t \<in> {TagICSL, TagMSPC, TagMIDS, TagCFCW, TagSFCW} \<Longrightarrow> map_of (GetHelloMap c @ extra) t = map_of (GetHelloMap c) t"
proof -
  have "map_of extra TagTCID \<in> {None, Some (PutUint32 0)}"
    using assms by (cases "map_of extra TagTCID") (auto simp: hello_extra_def dest: map_of_SomeD)
  then show "map_of (GetHelloMap c @ extra) TagTCID \<in> {None, Some (PutUint32 0)}"
    by (simp add: map_add_def hello_lookup)
  assume "t \<in> {TagICSL, TagMSPC, TagMIDS, TagCFCW, TagSFCW}"
  then show "map_of (GetHelloMap c @ extra) t = map_of (GetHelloMap c) t"
    by (auto simp: map_add_def hello_lookup)
qed

lemma SetFromMap_hello:
  assumes "\<not> cpm_flowControlNegotiated s" "hello_extra extra"
  shows "\<exists>b. SetFromMap s (map_of (GetHelloMap c @ extra)) = (None, s\<lparr>cpm_truncateConnectionID := b,
     cpm_maxStreamsPerConnection := min (cpm_maxStreamsPerConnection c) MaxStreamsPerConnection,
     cpm_maxIncomingDynamicStreamsPerConnection := MaxIncomingDynamicStreamsPerConnection,
     cpm_idleConnectionStateLifetime :=
       min (i64 (uint (word_of_int (quot (cpm_idleConnectionStateLifetime c) Second) :: u32) * Second))
         (cpm_idleConnectionStateLifetime s),
     cpm_sendStreamFlowControlWindow := ucast (ucast (cpm_receiveStreamFlowControlWindow c) :: u32),
     cpm_sendConnectionFlowControlWindow := ucast (ucast (cpm_receiveConnectionFlowControlWindow c) :: u32),
     cpm_flowControlNegotiated := True\<rparr>)"
proof -
  let ?p = "map_of (GetHelloMap c @ extra)"
  have n: "setParam None upd h = (None, h)" for upd h by (simp add: setParam_def)
  have l: "?p TagICSL = map_of (GetHelloMap c) TagICSL" "?p TagMSPC = map_of (GetHelloMap c) TagMSPC"
      "?p TagMIDS = map_of (GetHelloMap c) TagMIDS" "?p TagCFCW = map_of (GetHelloMap c) TagCFCW"
      "?p TagSFCW = map_of (GetHelloMap c) TagSFCW"
    by (simp_all add: hello_lookup_extra(2) [OF assms(2)] del: map_of_append)
  obtain b where b: "setParam (if cpm_perspective s = PerspectiveServer then ?p TagTCID else None)
      (\<lambda>v h. h\<lparr>cpm_truncateConnectionID := (v = 0)\<rparr>) s = (None, s\<lparr>cpm_truncateConnectionID := b\<rparr>)"
  proof -
    have "\<exists>b. s = s\<lparr>cpm_truncateConnectionID := b\<rparr>" by (rule exI [of _ "cpm_truncateConnectionID s"]) simp
    then have "\<exists>b. setParam (if cpm_perspective s = PerspectiveServer then ?p TagTCID else None)
      (\<lambda>v h. h\<lparr>cpm_truncateConnectionID := (v = 0)\<rparr>) s = (None, s\<lparr>cpm_truncateConnectionID := b\<rparr>)"
      using hello_lookup_extra(1) [OF assms(2), of c] by (auto simp: n setParam_Put simp del: map_of_append)
    then show ?thesis using that by blast
  qed
  show ?thesis
    using assms(1)
    by (intro exI [of _ b]) (simp add: SetFromMap_def b l hello_lookup n setParam_Put setWindow_Put negotiateMaxStreamsPerConnection_def
        negotiateMaxIncomingDynamicStreamsPerConnection_def negotiateIdleConnectionStateLifetime_def
        del: uint_word_of_int_eq map_of_append)
qed

lemma idle_seconds:
  assumes "0 \<le> d" "d < 2 ^ 32 * Second"
  shows "i64 (uint (word_of_int (quot d Second) :: u32) * Second) = d div Second * Second"
proof -
  have b: "0 \<le> d div Second" "d div Second < 2 ^ 32" using assms by auto
  then have "uint (word_of_int (quot d Second) :: u32) = d div Second"
    using assms by (simp add: quot_nonneg uint_word_of_int)
  then show ?thesis using b by (simp add: i64_id)
qed

lemma later_messages_keep_windows:
  "windows_set_to sw cw h \<Longrightarrow> windows_set_to sw cw (fold (\<lambda>params h. snd (SetFromMap h params)) ps h)"
  by (induction ps arbitrary: h) (simp_all add: SetFromMap_negotiated)

definition hello_fits :: "connectionParametersManager \<Rightarrow> bool" where
  "hello_fits c \<longleftrightarrow> GetReceiveStreamFlowControlWindow c < 2 ^ 32 \<and> GetReceiveConnectionFlowControlWindow c < 2 ^ 32
     \<and> 0 \<le> GetIdleConnectionStateLifetime c \<and> GetIdleConnectionStateLifetime c < 2 ^ 32 * Second"

text \<open>One end applies the hello message of the other.\<close>

lemma hello_applied:
  assumes "\<not> cpm_flowControlNegotiated s" "hello_fits c" "hello_extra extra"
  obtains bs m s' where "HandshakeMessage_Write \<lparr>hm_Tag = tag, hm_Data = GetHelloMap c @ extra\<rparr> = Inr bs"
    "ParseHandshakeMessage (bs @ r) = Inr (m, r)" "SetFromMap s (map_of (hm_Data m)) = (None, s')"
    "windows_set_to (GetReceiveStreamFlowControlWindow c) (GetReceiveConnectionFlowControlWindow c) s'"
    "GetMaxOutgoingStreams s' \<le> GetMaxIncomingStreams c"
    "GetIdleConnectionStateLifetime s'
       = min (GetIdleConnectionStateLifetime c div Second * Second) (GetIdleConnectionStateLifetime s)"
    "GetReceiveStreamFlowControlWindow s' = GetReceiveStreamFlowControlWindow s"
    "GetReceiveConnectionFlowControlWindow s' = GetReceiveConnectionFlowControlWindow s"
proof -
  obtain bs m where w: "HandshakeMessage_Write \<lparr>hm_Tag = tag, hm_Data = GetHelloMap c @ extra\<rparr> = Inr bs"
      "ParseHandshakeMessage (bs @ r) = Inr (m, r)" "map_of (hm_Data m) = map_of (GetHelloMap c @ extra)"
    using parse_written_message [of "\<lparr>hm_Tag = tag, hm_Data = GetHelloMap c @ extra\<rparr>" r] hello_sendable [OF assms(3)] by auto
  obtain b where set: "SetFromMap s (map_of (hm_Data m)) = (None, s\<lparr>cpm_truncateConnectionID := b,
     cpm_maxStreamsPerConnection := min (cpm_maxStreamsPerConnection c) MaxStreamsPerConnection,
     cpm_maxIncomingDynamicStreamsPerConnection := MaxIncomingDynamicStreamsPerConnection,
     cpm_idleConnectionStateLifetime :=
       min (i64 (uint (word_of_int (quot (cpm_idleConnectionStateLifetime c) Second) :: u32) * Second))
         (cpm_idleConnectionStateLifetime s),
     cpm_sendStreamFlowControlWindow := ucast (ucast (cpm_receiveStreamFlowControlWindow c) :: u32),
     cpm_sendConnectionFlowControlWindow := ucast (ucast (cpm_receiveConnectionFlowControlWindow c) :: u32),
     cpm_flowControlNegotiated := True\<rparr>)" (is "_ = (None, ?s)")
    using SetFromMap_hello [OF assms(1,3), of c] unfolding w(3) by blast
  have c: "GetReceiveStreamFlowControlWindow c < 2 ^ 32" "GetReceiveConnectionFlowControlWindow c < 2 ^ 32"
      "0 \<le> GetIdleConnectionStateLifetime c" "GetIdleConnectionStateLifetime c < 2 ^ 32 * Second"
    using assms(2) by (simp_all add: hello_fits_def)
  have win: "windows_set_to (GetReceiveStreamFlowControlWindow c) (GetReceiveConnectionFlowControlWindow c) ?s"
    using c(1,2) by (simp add: windows_set_to_def param_getters ucast_32_64)
  have "GetMaxOutgoingStreams ?s \<le> GetMaxIncomingStreams c"
    "GetIdleConnectionStateLifetime ?s
       = min (GetIdleConnectionStateLifetime c div Second * Second) (GetIdleConnectionStateLifetime s)"
    "GetReceiveStreamFlowControlWindow ?s = GetReceiveStreamFlowControlWindow s"
    "GetReceiveConnectionFlowControlWindow ?s = GetReceiveConnectionFlowControlWindow s"
    using idle_seconds [of "GetIdleConnectionStateLifetime c"] c(3,4)
    by (simp_all add: GetMaxOutgoingStreams_def GetMaxIncomingStreams_def
        MaxIncomingDynamicStreamsPerConnection_def MaxStreamsMinimumIncrement_def param_getters
        del: uint_word_of_int_eq)
  then show thesis using that [OF w(1,2) set win] by blast
qed



end
