(* ===== verification/FlowControl.thy ===== *)
theory FlowControl
  imports Handshake AckFrames
begin

text \<open>
  The package \<^verbatim>\<open>internal/flowcontrol\<close>: the flow controller of one stream or of the connection
  (\<^verbatim>\<open>flow_controller.go\<close>) and the manager that keeps one per stream
  (\<^verbatim>\<open>flow_control_manager.go\<close>). The pointers to the connection parameters and to the RTT
  statistics, which every controller of a connection shares, are the record \<open>fcEnv\<close>; the clock is
  an argument of the operations that read it.
\<close>

section \<open>Flow controller\<close>

record fcEnv =
  env_connectionParameters :: connectionParametersManager
  env_smoothedRTT :: int
  env_remoteRTTs :: "(PathID \<times> int) list"

record flowController =
  fc_streamID :: StreamID
  fc_contributesToConnection :: bool
  fc_bytesSent :: ByteCount
  fc_sendWindow :: ByteCount
  fc_bytesRetrans :: ByteCount
  fc_lastWindowUpdateTime :: int
  fc_bytesRead :: ByteCount
  fc_highestReceived :: ByteCount
  fc_receiveWindow :: ByteCount
  fc_receiveWindowIncrement :: ByteCount
  fc_maxReceiveWindowIncrement :: ByteCount

abbreviation ErrReceivedSmallerByteOffset :: gerror where "ErrReceivedSmallerByteOffset \<equiv> Errorf ''Received a smaller byte offset''"

definition newFlowController :: "StreamID \<Rightarrow> bool \<Rightarrow> fcEnv \<Rightarrow> flowController" where
  "newFlowController streamID contributesToConnection e =
     (let cp = env_connectionParameters e;
          w = (if streamID = 0 then GetReceiveConnectionFlowControlWindow cp
               else GetReceiveStreamFlowControlWindow cp);
          m = (if streamID = 0 then GetMaxReceiveConnectionFlowControlWindow cp
               else GetMaxReceiveStreamFlowControlWindow cp)
      in \<lparr>fc_streamID = streamID, fc_contributesToConnection = contributesToConnection,
          fc_bytesSent = 0, fc_sendWindow = 0, fc_bytesRetrans = 0, fc_lastWindowUpdateTime = 0,
          fc_bytesRead = 0, fc_highestReceived = 0, fc_receiveWindow = w,
          fc_receiveWindowIncrement = w, fc_maxReceiveWindowIncrement = m\<rparr>)"

definition flowController_ContributesToConnection :: "flowController \<Rightarrow> bool" where
  "flowController_ContributesToConnection c = fc_contributesToConnection c"

definition flowController_getSendWindow :: "fcEnv \<Rightarrow> flowController \<Rightarrow> ByteCount" where
  "flowController_getSendWindow e c =
     (if fc_sendWindow c = 0 then
        if fc_streamID c = 0 then GetSendConnectionFlowControlWindow (env_connectionParameters e)
        else GetSendStreamFlowControlWindow (env_connectionParameters e)
      else fc_sendWindow c)"

definition flowController_AddBytesSent :: "ByteCount \<Rightarrow> flowController \<Rightarrow> flowController" where
  "flowController_AddBytesSent n c = c\<lparr>fc_bytesSent := fc_bytesSent c + n\<rparr>"

definition flowController_GetBytesSent :: "flowController \<Rightarrow> ByteCount" where
  "flowController_GetBytesSent c = fc_bytesSent c"

definition flowController_AddBytesRetrans :: "ByteCount \<Rightarrow> flowController \<Rightarrow> flowController" where
  "flowController_AddBytesRetrans n c = c\<lparr>fc_bytesRetrans := fc_bytesRetrans c + n\<rparr>"

definition flowController_GetBytesRetrans :: "flowController \<Rightarrow> ByteCount" where
  "flowController_GetBytesRetrans c = fc_bytesRetrans c"

definition flowController_UpdateSendWindow :: "ByteCount \<Rightarrow> flowController \<Rightarrow> bool \<times> flowController" where
  "flowController_UpdateSendWindow newOffset c =
     (if newOffset > fc_sendWindow c then (True, c\<lparr>fc_sendWindow := newOffset\<rparr>) else (False, c))"

definition flowController_SendWindowSize :: "fcEnv \<Rightarrow> flowController \<Rightarrow> ByteCount" where
  "flowController_SendWindowSize e c =
     (let sendWindow = flowController_getSendWindow e c in
      if fc_bytesSent c > sendWindow then 0 else sendWindow - fc_bytesSent c)"

definition flowController_SendWindowOffset :: "fcEnv \<Rightarrow> flowController \<Rightarrow> ByteCount" where
  "flowController_SendWindowOffset e c = flowController_getSendWindow e c"

text \<open>The increment, or the error for a smaller offset, and the controller afterwards.\<close>

definition flowController_UpdateHighestReceived :: "ByteCount \<Rightarrow> flowController \<Rightarrow> (ByteCount \<times> gerror option) \<times> flowController" where
  "flowController_UpdateHighestReceived byteOffset c =
     (if byteOffset = fc_highestReceived c then ((0, None), c)
      else if byteOffset > fc_highestReceived c
      then ((byteOffset - fc_highestReceived c, None), c\<lparr>fc_highestReceived := byteOffset\<rparr>)
      else ((0, Some ErrReceivedSmallerByteOffset), c))"

definition flowController_IncrementHighestReceived :: "ByteCount \<Rightarrow> flowController \<Rightarrow> flowController" where
  "flowController_IncrementHighestReceived increment c =
     c\<lparr>fc_highestReceived := fc_highestReceived c + increment\<rparr>"

definition flowController_AddBytesRead :: "int \<Rightarrow> ByteCount \<Rightarrow> flowController \<Rightarrow> flowController" where
  "flowController_AddBytesRead now n c =
     (let c1 = (if fc_bytesRead c = 0 then c\<lparr>fc_lastWindowUpdateTime := now\<rparr> else c)
      in c1\<lparr>fc_bytesRead := fc_bytesRead c1 + n\<rparr>)"

definition maxRemoteRTT :: "fcEnv \<Rightarrow> int" where
  "maxRemoteRTT e = fold (\<lambda>(_, remoteRTT) m. MaxDuration m remoteRTT) (env_remoteRTTs e) 0"

definition maybeAdjustWindowIncrement :: "fcEnv \<Rightarrow> int \<Rightarrow> flowController \<Rightarrow> flowController" where
  "maybeAdjustWindowIncrement e now c =
     (if fc_lastWindowUpdateTime c = 0 then c
      else if env_smoothedRTT e = 0 then c
      else if timeSub now (fc_lastWindowUpdateTime c)
            \<ge> i64 (2 * MaxDuration (env_smoothedRTT e) (maxRemoteRTT e)) then c
      else c\<lparr>fc_receiveWindowIncrement :=
               MinByteCount (2 * fc_receiveWindowIncrement c) (fc_maxReceiveWindowIncrement c)\<rparr>)"

definition MaybeUpdateWindow :: "fcEnv \<Rightarrow> int \<Rightarrow> flowController \<Rightarrow> (bool \<times> ByteCount \<times> ByteCount) \<times> flowController" where
  "MaybeUpdateWindow e now c =
     (let diff = fc_receiveWindow c - fc_bytesRead c in
      if diff < fc_receiveWindowIncrement c div 2 then
        let oldWindowIncrement = fc_receiveWindowIncrement c;
            c1 = maybeAdjustWindowIncrement e now c;
            newWindowIncrement = (if fc_receiveWindowIncrement c1 \<noteq> oldWindowIncrement
                                  then fc_receiveWindowIncrement c1 else 0);
            c2 = c1\<lparr>fc_lastWindowUpdateTime := now,
                    fc_receiveWindow := fc_bytesRead c1 + fc_receiveWindowIncrement c1\<rparr>
        in ((True, newWindowIncrement, fc_receiveWindow c2), c2)
      else ((False, fc_receiveWindowIncrement c, fc_receiveWindow c), c))"

definition EnsureMinimumWindowIncrement :: "ByteCount \<Rightarrow> flowController \<Rightarrow> flowController" where
  "EnsureMinimumWindowIncrement inc c =
     (if inc > fc_receiveWindowIncrement c
      then c\<lparr>fc_receiveWindowIncrement := MinByteCount inc (fc_maxReceiveWindowIncrement c),
             fc_lastWindowUpdateTime := 0\<rparr>
      else c)"

definition CheckFlowControlViolation :: "flowController \<Rightarrow> bool" where
  "CheckFlowControlViolation c \<longleftrightarrow> fc_highestReceived c > fc_receiveWindow c"

section \<open>Flow control manager\<close>

record flowControlManager =
  fm_env :: fcEnv
  fm_streamFlowController :: "(StreamID \<times> flowController) list"
  fm_connFlowController :: flowController

record WindowUpdate =
  upd_StreamID :: StreamID
  upd_Offset :: ByteCount

abbreviation errMapAccess :: gerror where "errMapAccess \<equiv> Errorf ''Error accessing the flowController map.''"

definition NewFlowControlManager :: "fcEnv \<Rightarrow> flowControlManager" where
  "NewFlowControlManager e =
     \<lparr>fm_env = e, fm_streamFlowController = [], fm_connFlowController = newFlowController 0 False e\<rparr>"

definition getFlowController :: "flowControlManager \<Rightarrow> StreamID \<Rightarrow> flowController result" where
  "getFlowController f streamID =
     (case map_of (fm_streamFlowController f) streamID of None \<Rightarrow> Inl errMapAccess | Some c \<Rightarrow> Inr c)"

text \<open>The controller of a stream is changed in place through its pointer.\<close>

definition setFlowController :: "StreamID \<Rightarrow> flowController \<Rightarrow> flowControlManager \<Rightarrow> flowControlManager" where
  "setFlowController streamID c f =
     f\<lparr>fm_streamFlowController := AList.update streamID c (fm_streamFlowController f)\<rparr>"

definition flowControlManager_NewStream :: "StreamID \<Rightarrow> bool \<Rightarrow> flowControlManager \<Rightarrow> flowControlManager" where
  "flowControlManager_NewStream streamID contributesToConnection f =
     (case map_of (fm_streamFlowController f) streamID of
        Some _ \<Rightarrow> f
      | None \<Rightarrow> setFlowController streamID (newFlowController streamID contributesToConnection (fm_env f)) f)"

definition flowControlManager_RemoveStream :: "StreamID \<Rightarrow> flowControlManager \<Rightarrow> flowControlManager" where
  "flowControlManager_RemoveStream streamID f =
     f\<lparr>fm_streamFlowController := AList.delete streamID (fm_streamFlowController f)\<rparr>"

text \<open>The part \<^verbatim>\<open>ResetStream\<close> and \<^verbatim>\<open>UpdateHighestReceived\<close> share: both checks.\<close>

definition accountReceived :: "StreamID \<Rightarrow> ByteCount \<Rightarrow> flowController \<Rightarrow> flowControlManager \<Rightarrow> flowControlManager outcome" where
  "accountReceived streamID increment c f =
     (let f1 = setFlowController streamID c f in
      if CheckFlowControlViolation c then fail_with (QErr FlowControlReceivedTooMuchData) f1
      else if flowController_ContributesToConnection c then
        let f2 = f1\<lparr>fm_connFlowController :=
                   flowController_IncrementHighestReceived increment (fm_connFlowController f1)\<rparr>
        in if CheckFlowControlViolation (fm_connFlowController f2)
           then fail_with (QErr FlowControlReceivedTooMuchData) f2 else done_ok f2
      else done_ok f1)"

definition flowControlManager_ResetStream :: "StreamID \<Rightarrow> ByteCount \<Rightarrow> flowControlManager \<Rightarrow> flowControlManager outcome" where
  "flowControlManager_ResetStream streamID byteOffset f =
     (case getFlowController f streamID of
        Inl err \<Rightarrow> fail_with err f
      | Inr c \<Rightarrow>
          (let ((increment, err), c1) = flowController_UpdateHighestReceived byteOffset c in
           if err \<noteq> None then fail_with (QErr StreamDataAfterTermination) f
           else accountReceived streamID increment c1 f))"

definition flowControlManager_UpdateHighestReceived :: "StreamID \<Rightarrow> ByteCount \<Rightarrow> flowControlManager \<Rightarrow> flowControlManager outcome" where
  "flowControlManager_UpdateHighestReceived streamID byteOffset f =
     (case getFlowController f streamID of
        Inl err \<Rightarrow> fail_with err f
      | Inr c \<Rightarrow>
          (let ((increment, _), c1) = flowController_UpdateHighestReceived byteOffset c in
           accountReceived streamID increment c1 f))"

text \<open>Apply an operation to a stream's controller and, if it contributes, to the connection's.\<close>

definition onBoth :: "(flowController \<Rightarrow> flowController) \<Rightarrow> StreamID \<Rightarrow> flowControlManager \<Rightarrow> flowControlManager outcome" where
  "onBoth op streamID f =
     (case getFlowController f streamID of
        Inl err \<Rightarrow> fail_with err f
      | Inr c \<Rightarrow>
          (let f1 = setFlowController streamID (op c) f in
           done_ok (if flowController_ContributesToConnection c
             then f1\<lparr>fm_connFlowController := op (fm_connFlowController f1)\<rparr> else f1)))"

definition flowControlManager_AddBytesRead :: "int \<Rightarrow> StreamID \<Rightarrow> ByteCount \<Rightarrow> flowControlManager \<Rightarrow> flowControlManager outcome" where
  "flowControlManager_AddBytesRead now streamID n f = onBoth (flowController_AddBytesRead now n) streamID f"

text \<open>
  \<^verbatim>\<open>protocol.ByteCount(float64(inc) * 1.5)\<close>. Below \<open>2 ^ 51\<close> the product is exact in
  \<^verbatim>\<open>float64\<close> and the conversion drops the half; the increments are bounded by the configured
  maxima, which are tens of megabytes.
\<close>

definition connectionIncrement :: "ByteCount \<Rightarrow> ByteCount" where
  "connectionIncrement inc = of_nat (unat inc * 3 div 2)"

fun windowUpdates_loop ::
  "fcEnv \<Rightarrow> int \<Rightarrow> bool \<Rightarrow> (StreamID \<times> flowController) list \<Rightarrow> flowController
    \<Rightarrow> WindowUpdate list \<times> (StreamID \<times> flowController) list \<times> flowController" where
  "windowUpdates_loop e now force [] conn = ([], [], conn)"
| "windowUpdates_loop e now force ((streamID, c) # cs) conn =
     (let ((necessary, newIncrement, offset), c1) = MaybeUpdateWindow e now c;
          send = (force \<or> necessary);
          conn1 = (if send \<and> flowController_ContributesToConnection c1 \<and> newIncrement \<noteq> 0
                   then EnsureMinimumWindowIncrement (connectionIncrement newIncrement) conn else conn);
          (res, cs1, conn2) = windowUpdates_loop e now force cs conn1
      in ((if send then [\<lparr>upd_StreamID = streamID, upd_Offset = offset\<rparr>] else []) @ res,
          (streamID, c1) # cs1, conn2))"

definition GetWindowUpdates :: "int \<Rightarrow> bool \<Rightarrow> flowControlManager \<Rightarrow> WindowUpdate list \<times> flowControlManager" where
  "GetWindowUpdates now force f =
     (let (res, cs, conn) = windowUpdates_loop (fm_env f) now force (fm_streamFlowController f) (fm_connFlowController f);
          ((necessary, _, offset), conn1) = MaybeUpdateWindow (fm_env f) now conn
      in (res @ (if force \<or> necessary then [\<lparr>upd_StreamID = 0, upd_Offset = offset\<rparr>] else []),
          f\<lparr>fm_streamFlowController := cs, fm_connFlowController := conn1\<rparr>))"

definition GetReceiveWindow :: "flowControlManager \<Rightarrow> StreamID \<Rightarrow> ByteCount result" where
  "GetReceiveWindow f streamID =
     (if streamID = 0 then Inr (fc_receiveWindow (fm_connFlowController f))
      else rbind (getFlowController f streamID) (\<lambda>c. Inr (fc_receiveWindow c)))"

definition flowControlManager_AddBytesSent :: "StreamID \<Rightarrow> ByteCount \<Rightarrow> flowControlManager \<Rightarrow> flowControlManager outcome" where
  "flowControlManager_AddBytesSent streamID n f = onBoth (flowController_AddBytesSent n) streamID f"

definition flowControlManager_GetBytesSent :: "flowControlManager \<Rightarrow> StreamID \<Rightarrow> ByteCount result" where
  "flowControlManager_GetBytesSent f streamID =
     rbind (getFlowController f streamID) (\<lambda>c. Inr (flowController_GetBytesSent c))"

definition flowControlManager_AddBytesRetrans :: "StreamID \<Rightarrow> ByteCount \<Rightarrow> flowControlManager \<Rightarrow> flowControlManager outcome" where
  "flowControlManager_AddBytesRetrans streamID n f = onBoth (flowController_AddBytesRetrans n) streamID f"

definition flowControlManager_GetBytesRetrans :: "flowControlManager \<Rightarrow> StreamID \<Rightarrow> ByteCount result" where
  "flowControlManager_GetBytesRetrans f streamID =
     rbind (getFlowController f streamID) (\<lambda>c. Inr (flowController_GetBytesRetrans c))"

definition flowControlManager_SendWindowSize :: "flowControlManager \<Rightarrow> StreamID \<Rightarrow> ByteCount result" where
  "flowControlManager_SendWindowSize f streamID =
     rbind (getFlowController f streamID) (\<lambda>c.
       let res = flowController_SendWindowSize (fm_env f) c in
       Inr (if flowController_ContributesToConnection c
            then MinByteCount res (flowController_SendWindowSize (fm_env f) (fm_connFlowController f))
            else res))"

definition RemainingConnectionWindowSize :: "flowControlManager \<Rightarrow> ByteCount" where
  "RemainingConnectionWindowSize f = flowController_SendWindowSize (fm_env f) (fm_connFlowController f)"

definition flowControlManager_UpdateWindow :: "StreamID \<Rightarrow> ByteCount \<Rightarrow> flowControlManager \<Rightarrow> bool result \<times> flowControlManager" where
  "flowControlManager_UpdateWindow streamID offset f =
     (if streamID = 0 then
        let (updated, c) = flowController_UpdateSendWindow offset (fm_connFlowController f)
        in (Inr updated, f\<lparr>fm_connFlowController := c\<rparr>)
      else (case getFlowController f streamID of
          Inl err \<Rightarrow> (Inl err, f)
        | Inr c \<Rightarrow> (let (updated, c1) = flowController_UpdateSendWindow offset c
                    in (Inr updated, setFlowController streamID c1 f))))"

end
