(* ===== verification/Streams.thy ===== *)
theory Streams
  imports StreamSorter FlowControl
begin

text \<open>
  A stream (\<^verbatim>\<open>stream.go\<close>): reading from the sorter under flow control, writing into the buffer that the framer
  empties, closing, cancelling and resetting. A call that blocks is modelled by its phases: a phase that finds nothing
  to do is blocked, leaves the state as it is, and is tried again after another operation. The flow control manager is
  shared by all streams and passed along. Callbacks are the list of calls an operation makes.
\<close>

section \<open>State\<close>

datatype callback = OnData | OnReset StreamID ByteCount

record stream =
  st_streamID :: StreamID
  st_readPosInFrame :: int
  st_writeOffset :: ByteCount
  st_readOffset :: ByteCount
  st_err :: "gerror option"
  st_cancelled :: bool
  st_finishedReading :: bool
  st_finishedWriting :: bool
  st_resetLocally :: bool
  st_resetRemotely :: bool
  st_frameQueue :: streamFrameSorter
  st_readChan :: bool
  st_readDeadline :: int
  st_dataForWriting :: "byte list option"
  st_finSent :: bool
  st_rstSent :: bool
  st_writeChan :: bool
  st_writeDeadline :: int
  st_ctxDone :: bool

abbreviation errDeadline :: gerror where "errDeadline \<equiv> Errorf ''deadline exceeded''"
abbreviation errWriteOnClosed :: gerror where "errWriteOnClosed \<equiv> Errorf ''write on closed stream''"
abbreviation errBytesRead :: gerror where "errBytesRead \<equiv> Errorf ''BUG: bytesRead > len(p) in stream.Read''"
abbreviation errReadPos :: gerror where "errReadPos \<equiv> Errorf ''BUG: readPosInFrame > frame.DataLen in stream.Read''"
abbreviation errNilFrame :: gerror where "errNilFrame \<equiv> Panic ''nil pointer dereference''"

definition newStream :: "StreamID \<Rightarrow> stream" where
  "newStream streamID =
     \<lparr>st_streamID = streamID, st_readPosInFrame = 0, st_writeOffset = 0, st_readOffset = 0, st_err = None,
      st_cancelled = False, st_finishedReading = False, st_finishedWriting = False, st_resetLocally = False,
      st_resetRemotely = False, st_frameQueue = newStreamFrameSorter, st_readChan = False, st_readDeadline = 0,
      st_dataForWriting = None, st_finSent = False, st_rstSent = False, st_writeChan = False, st_writeDeadline = 0,
      st_ctxDone = False\<rparr>"

text \<open>A send on a channel with room for one element, which is skipped when the channel is full.\<close>

definition signalRead :: "stream \<Rightarrow> stream" where
  "signalRead s = s\<lparr>st_readChan := True\<rparr>"

definition signalWrite :: "stream \<Rightarrow> stream" where
  "signalWrite s = s\<lparr>st_writeChan := True\<rparr>"

section \<open>Reading\<close>

text \<open>
  What one round of the loop in \<^verbatim>\<open>Read\<close> comes to: it waits for data, it goes on with the bytes copied so far, or it
  returns them with an error or without.
\<close>

datatype readResult = ReadBlocks | ReadMore "byte list" | ReadReturns "byte list" "gerror option"

text \<open>The copy from the frame at the head of the queue into a buffer of \<open>n\<close> bytes, of which \<open>acc\<close> are filled.\<close>

definition readFrame :: "int \<Rightarrow> nat \<Rightarrow> byte list \<Rightarrow> StreamFrame \<Rightarrow> stream \<Rightarrow> flowControlManager
    \<Rightarrow> readResult \<times> callback list \<times> stream \<times> flowControlManager" where
  "readFrame now n acc frame s f =
     (let dataLen = int (length (sf_Data frame)); pos = st_readPosInFrame s;
          m = min (int n - int (length acc)) (dataLen - pos) in
      if length acc > n then (ReadReturns acc (Some errBytesRead), [], s, f)
      else if pos > dataLen then (ReadReturns acc (Some errReadPos), [], s, f)
      else if pos < 0 then (ReadReturns acc (Some errSliceBounds), [], s, f)
      else
        let acc' = acc @ take (nat m) (drop (nat pos) (sf_Data frame));
            s1 = s\<lparr>st_readPosInFrame := pos + m, st_readOffset := st_readOffset s + of_int m\<rparr>;
            f1 = (if st_resetRemotely s1 then f else snd (flowControlManager_AddBytesRead now (st_streamID s1) (of_int m) f)) in
        if st_readPosInFrame s1 \<ge> dataLen then
          let s2 = s1\<lparr>st_frameQueue := snd (streamFrameSorter_Pop (st_frameQueue s1))\<rparr> in
          if sf_FinBit frame
          then (ReadReturns acc' (Some EOF), [OnData], s2\<lparr>st_finishedReading := True\<rparr>, f1)
          else (ReadMore acc', [OnData], s2, f1)
        else (ReadMore acc', [OnData], s1, f1))"

definition Read_step :: "int \<Rightarrow> nat \<Rightarrow> byte list \<Rightarrow> stream \<Rightarrow> flowControlManager
    \<Rightarrow> readResult \<times> callback list \<times> stream \<times> flowControlManager" where
  "Read_step now n acc s f =
     (let frame = streamFrameSorter_Head (st_frameQueue s) in
      if frame = None \<and> acc \<noteq> [] then (ReadReturns acc (st_err s), [], s, f)
      else if st_resetLocally s \<or> st_cancelled s then
        case st_err s of
          Some err \<Rightarrow> (ReadReturns acc (Some err), [], s, f)
        | None \<Rightarrow> (case frame of None \<Rightarrow> (ReadReturns acc (Some errNilFrame), [], s, f)
                   | Some fr \<Rightarrow> readFrame now n acc fr s f)
      else if st_readDeadline s \<noteq> 0 \<and> st_readDeadline s \<le> now then (ReadReturns acc (Some errDeadline), [], s, f)
      else case frame of
          None \<Rightarrow> (ReadBlocks, [], s, f)
        | Some fr \<Rightarrow> readFrame now n acc fr (s\<lparr>st_readPosInFrame := sint (st_readOffset s - sf_Offset fr)\<rparr>) f)"

text \<open>
  The loop ends or blocks: a round that goes on has copied at least one byte or taken a frame off the queue.
\<close>

lemma Pop_shorter:
  assumes "streamFrameSorter_Head q = Some frame" "sf_Offset frame = sfs_readPosition q"
  shows "length (sfs_queuedFrames (snd (streamFrameSorter_Pop q))) < length (sfs_queuedFrames q)"
proof -
  have "(sfs_readPosition q, frame) \<in> set (sfs_queuedFrames q)"
    using assms by (simp add: streamFrameSorter_Head_def map_of_SomeD)
  then show ?thesis using assms by (auto simp: streamFrameSorter_Pop_def AList.delete_eq intro: length_filter_less)
qed

fun Read_loop :: "nat \<Rightarrow> int \<Rightarrow> nat \<Rightarrow> byte list \<Rightarrow> stream \<Rightarrow> flowControlManager
    \<Rightarrow> readResult \<times> callback list \<times> stream \<times> flowControlManager" where
  "Read_loop fuel now n acc s f =
     (if n \<le> length acc then (ReadReturns acc None, [], s, f)
      else case Read_step now n acc s f of
          (ReadMore acc', cs, s', f') \<Rightarrow>
            (case fuel of
               0 \<Rightarrow> (ReadMore acc', cs, s', f')
             | Suc k \<Rightarrow> (let (r, cs', t) = Read_loop k now n acc' s' f' in (r, cs @ cs', t)))
        | r \<Rightarrow> r)"

declare Read_loop.simps [simp del]

text \<open>The number of rounds is bounded by the room in the buffer and the number of queued frames.\<close>

definition Read :: "int \<Rightarrow> nat \<Rightarrow> stream \<Rightarrow> flowControlManager
    \<Rightarrow> readResult \<times> callback list \<times> stream \<times> flowControlManager" where
  "Read now n s f =
     (if st_cancelled s \<or> st_resetLocally s then (ReadReturns [] (st_err s), [], s, f)
      else if st_finishedReading s then (ReadReturns [] (Some EOF), [], s, f)
      else Read_loop (n + length (sfs_queuedFrames (st_frameQueue s))) now n [] s f)"

section \<open>Writing\<close>

text \<open>
  \<^verbatim>\<open>Write\<close> puts the data into the buffer and then waits until the framer has emptied it, an error occurs or the deadline
  has passed. \<open>Write_begin\<close> is the part before the wait: the result if \<^verbatim>\<open>Write\<close> returns at once. \<open>Write_end\<close> is a
  round of the wait: nothing while it goes on, then the number of bytes and the error that are returned.
\<close>

definition Write_begin :: "byte list \<Rightarrow> stream \<Rightarrow> (nat \<times> gerror option) option \<times> callback list \<times> stream" where
  "Write_begin p s =
     (if st_resetLocally s \<or> st_err s \<noteq> None then (Some (0, st_err s), [], s)
      else if st_finishedWriting s then (Some (0, Some errWriteOnClosed), [], s)
      else if p = [] then (Some (0, None), [], s)
      else (None, [OnData], s\<lparr>st_dataForWriting := Some p\<rparr>))"

definition Write_end :: "int \<Rightarrow> nat \<Rightarrow> stream \<Rightarrow> (nat \<times> gerror option) option" where
  "Write_end now n s =
     (if st_writeDeadline s \<noteq> 0 \<and> st_writeDeadline s \<le> now then Some (0, Some errDeadline)
      else if st_dataForWriting s = None \<or> st_err s \<noteq> None then
        if st_err s \<noteq> None
        then Some (n - (case st_dataForWriting s of None \<Rightarrow> 0 | Some d \<Rightarrow> length d), st_err s)
        else Some (n, None)
      else None)"

definition lenOfDataForWriting :: "stream \<Rightarrow> ByteCount" where
  "lenOfDataForWriting s =
     (if st_err s = None then of_nat (case st_dataForWriting s of None \<Rightarrow> 0 | Some d \<Rightarrow> length d) else 0)"

definition getDataForWriting :: "ByteCount \<Rightarrow> stream \<Rightarrow> byte list option \<times> stream" where
  "getDataForWriting maxBytes s =
     (if st_err s \<noteq> None then (None, s)
      else case st_dataForWriting s of
          None \<Rightarrow> (None, s)
        | Some d \<Rightarrow>
            if of_nat (length d) > maxBytes
            then (Some (take (unat maxBytes) d),
                  s\<lparr>st_dataForWriting := Some (drop (unat maxBytes) d),
                    st_writeOffset := st_writeOffset s + of_nat (length (take (unat maxBytes) d))\<rparr>)
            else (Some d,
                  (signalWrite (s\<lparr>st_dataForWriting := None\<rparr>))\<lparr>st_writeOffset := st_writeOffset s + of_nat (length d)\<rparr>))"

definition stream_Close :: "stream \<Rightarrow> callback list \<times> stream" where
  "stream_Close s = ([OnData], s\<lparr>st_finishedWriting := True, st_ctxDone := True\<rparr>)"

definition finishedWriteAndSentFin :: "stream \<Rightarrow> bool" where
  "finishedWriteAndSentFin s \<longleftrightarrow> st_finishedWriting s \<and> st_finSent s"

definition shouldSendReset :: "stream \<Rightarrow> bool" where
  "shouldSendReset s \<longleftrightarrow>
     (if st_rstSent s then False else (st_resetLocally s \<or> st_resetRemotely s) \<and> \<not> finishedWriteAndSentFin s)"

definition shouldSendFin :: "stream \<Rightarrow> bool" where
  "shouldSendFin s \<longleftrightarrow> st_finishedWriting s \<and> \<not> st_finSent s \<and> st_err s = None \<and> st_dataForWriting s = None"

definition sentFin :: "stream \<Rightarrow> stream" where
  "sentFin s = s\<lparr>st_finSent := True\<rparr>"

section \<open>Frames from the peer, deadlines, errors\<close>

definition AddStreamFrame :: "StreamFrame \<Rightarrow> stream \<Rightarrow> flowControlManager \<Rightarrow> gerror option \<times> stream \<times> flowControlManager" where
  "AddStreamFrame frame s f =
     (case flowControlManager_UpdateHighestReceived (st_streamID s) (sf_Offset frame + StreamFrame_DataLen frame) f of
        (Some err, f') \<Rightarrow> (Some err, s, f')
      | (None, f') \<Rightarrow>
          (let (e, q) = streamFrameSorter_Push frame (st_frameQueue s); s1 = s\<lparr>st_frameQueue := q\<rparr> in
           if e \<noteq> None \<and> e \<noteq> Some errDuplicateStreamData then (e, s1, f')
           else (None, signalRead s1, f')))"

definition SetReadDeadline :: "int \<Rightarrow> stream \<Rightarrow> stream" where
  "SetReadDeadline t s =
     (let s1 = s\<lparr>st_readDeadline := t\<rparr> in if t < st_readDeadline s then signalRead s1 else s1)"

definition SetWriteDeadline :: "int \<Rightarrow> stream \<Rightarrow> stream" where
  "SetWriteDeadline t s =
     (let s1 = s\<lparr>st_writeDeadline := t\<rparr> in if t < st_writeDeadline s then signalWrite s1 else s1)"

definition SetDeadline :: "int \<Rightarrow> stream \<Rightarrow> stream" where
  "SetDeadline t s = SetWriteDeadline t (SetReadDeadline t s)"

definition CloseRemote :: "ByteCount \<Rightarrow> stream \<Rightarrow> flowControlManager \<Rightarrow> stream \<times> flowControlManager" where
  "CloseRemote offset s f =
     snd (AddStreamFrame \<lparr>sf_StreamID = 0, sf_FinBit = True, sf_DataLenPresent = False, sf_Offset = offset, sf_Data = []\<rparr> s f)"

definition Cancel :: "gerror option \<Rightarrow> stream \<Rightarrow> stream" where
  "Cancel err s =
     (let s1 = s\<lparr>st_cancelled := True, st_ctxDone := True\<rparr> in
      if st_err s1 = None then signalWrite (signalRead (s1\<lparr>st_err := err\<rparr>)) else s1)"

text \<open>The callback that queues a RST_STREAM frame, once.\<close>

definition maybeSendReset :: "stream \<Rightarrow> callback list \<times> stream" where
  "maybeSendReset s =
     (if shouldSendReset s then ([OnReset (st_streamID s) (st_writeOffset s)], s\<lparr>st_rstSent := True\<rparr>) else ([], s))"

definition stream_Reset :: "gerror option \<Rightarrow> stream \<Rightarrow> callback list \<times> stream" where
  "stream_Reset err s =
     (if st_resetLocally s then ([], s)
      else
        let s1 = s\<lparr>st_resetLocally := True, st_ctxDone := True\<rparr>;
            s2 = (if st_err s1 = None then signalWrite (signalRead (s1\<lparr>st_err := err\<rparr>)) else s1)
        in maybeSendReset s2)"

definition RegisterRemoteError :: "gerror option \<Rightarrow> stream \<Rightarrow> callback list \<times> stream" where
  "RegisterRemoteError err s =
     (if st_resetRemotely s then ([], s)
      else
        let s1 = s\<lparr>st_resetRemotely := True, st_ctxDone := True\<rparr>;
            s2 = (if st_err s1 = None then signalWrite (s1\<lparr>st_err := err\<rparr>) else s1)
        in maybeSendReset s2)"

definition stream_finished :: "stream \<Rightarrow> bool" where
  "stream_finished s \<longleftrightarrow> st_cancelled s
     \<or> (st_finishedReading s \<and> finishedWriteAndSentFin s)
     \<or> (st_resetRemotely s \<and> st_rstSent s)
     \<or> (st_finishedReading s \<and> st_rstSent s)
     \<or> (finishedWriteAndSentFin s \<and> st_resetRemotely s)"

definition stream_GetBytesSent :: "stream \<Rightarrow> flowControlManager \<Rightarrow> ByteCount result" where
  "stream_GetBytesSent s f = flowControlManager_GetBytesSent f (st_streamID s)"

definition stream_GetBytesRetrans :: "stream \<Rightarrow> flowControlManager \<Rightarrow> ByteCount result" where
  "stream_GetBytesRetrans s f = flowControlManager_GetBytesRetrans f (st_streamID s)"

section \<open>What is read is the stream\<close>

text \<open>
  The receiving half of a stream of bytes \<open>c\<close> from which \<open>R\<close> has been read: the sorter has handed out frames up to the
  frame being read, and everything that was read is the beginning of the stream.
\<close>

definition reading_ok :: "(nat \<Rightarrow> byte) \<Rightarrow> stream \<Rightarrow> byte list \<Rightarrow> bool" where
  "reading_ok c s R \<longleftrightarrow> (\<exists>out. sorter_inv c (st_frameQueue s) out \<and> length out \<le> length R)
     \<and> unat (st_readOffset s) = length R \<and> R = map c [0..<length R]"

lemma sint_nonneg_64:
  assumes "0 \<le> sint (w :: u64)" shows "sint w = int (unat w)"
proof -
  have "take_bit 64 (uint w) = uint w" using uint_lt2p [of w] by (intro take_bit_int_eq_self) simp_all
  then have "sint w = uint w - 2 ^ 64 * of_bool (bit (uint w) 63)"
    by (simp add: sint_uint signed_take_bit_eq_take_bit_minus)
  then show ?thesis using assms uint_lt2p [of w] by (cases "bit (uint w) 63") auto
qed

lemma map_upt_append:
  assumes "R = map c [0..<length R]" "\<And>i. i < length d \<Longrightarrow> d ! i = c (length R + i)"
  shows "R @ d = map c [0..<length (R @ d)]"
proof (rule nth_equalityI)
  fix i assume "i < length (R @ d)"
  moreover have "R ! i = c i" if "i < length R" using assms(1) that by (metis add_0 length_map length_upt nth_map_upt minus_nat.diff_0)
  ultimately show "(R @ d) ! i = map c [0..<length (R @ d)] ! i"
    using assms(2) [of "i - length R"] by (simp add: nth_append del: upt_Suc)
qed simp

text \<open>One copy out of the frame at the head of the queue.\<close>

lemma readFrame_ok:
  assumes inv: "reading_ok c s R" and hd: "streamFrameSorter_Head (st_frameQueue s) = Some frame"
    and pos: "st_readPosInFrame s = sint (st_readOffset s - sf_Offset frame)"
    and step: "readFrame now n acc frame s f = (r, cs, s', f')"
  shows "\<exists>d. reading_ok c s' (R @ d) \<and> (r = ReadMore (acc @ d) \<or> (\<exists>e. r = ReadReturns (acc @ d) e))"
proof -
  obtain out where out: "sorter_inv c (st_frameQueue s) out" "length out \<le> length R"
    and R: "unat (st_readOffset s) = length R" "R = map c [0..<length R]"
    using inv by (auto simp: reading_ok_def)
  have fr: "sf_Offset frame = sfs_readPosition (st_frameQueue s)" "frame_in c frame"
    using out(1) hd by (auto simp: sorter_inv_def queue_in_def streamFrameSorter_Head_def)
  have off: "unat (sf_Offset frame) = length out" using out(1) fr(1) by (simp add: sorter_inv_def)
  define k where "k = length R - length out"
  define m where "m = min (n - length acc) (length (sf_Data frame) - k)"
  define d where "d = take m (drop k (sf_Data frame))"
  show ?thesis
  proof (cases "length acc > n \<or> st_readPosInFrame s > int (length (sf_Data frame)) \<or> st_readPosInFrame s < 0")
    case True
    then show ?thesis using step inv by (auto simp: readFrame_def Let_def split: if_splits intro!: exI [of _ "[]"])
  next
    case False
    then have "st_readPosInFrame s = int (unat (st_readOffset s - sf_Offset frame))"
      using pos sint_nonneg_64 by simp
    also have "unat (st_readOffset s - sf_Offset frame) = k"
      using R(1) off out(2) by (subst unat_minus_le) (simp_all add: k_def word_le_nat_alt)
    finally have p: "st_readPosInFrame s = int k" .
    have kl: "k \<le> length (sf_Data frame)" using False p by simp
    have mi: "min (int n - int (length acc)) (int (length (sf_Data frame)) - int k) = int m"
      using False kl by (auto simp: m_def min_def)
    have len: "length d = m" using kl by (simp add: d_def m_def)
    have dc: "d ! i = c (length R + i)" if "i < m" for i
    proof -
      have "k + i < length (sf_Data frame)" using that kl by (auto simp: m_def less_diff_conv add.commute)
      then have "sf_Data frame ! (k + i) = c (length out + (k + i))" using fr(2) off by (auto simp: frame_in_def)
      moreover have "d ! i = sf_Data frame ! (k + i)" using that kl len by (simp add: d_def)
      ultimately show ?thesis using out(2) by (simp add: k_def)
    qed
    have no: "unat (st_readOffset s + of_nat m) = length R + m"
    proof -
      have "length out + length (sf_Data frame) < 2 ^ 64" using fr(2) off by (simp add: frame_in_def)
      moreover have "m \<le> length (sf_Data frame) - k" by (simp add: m_def)
      ultimately have "length R + m < 2 ^ 64" using out(2) kl unfolding k_def by linarith
      then show ?thesis using R(1) by (subst unat_plus_less) (simp_all add: unat_of_nat)
    qed
    have R': "R @ d = map c [0..<length (R @ d)]" by (rule map_upt_append [OF R(2)]) (simp add: dc len)
    define s1 where "s1 = s\<lparr>st_readPosInFrame := int k + int m, st_readOffset := st_readOffset s + of_nat m\<rparr>"
    have ok1: "reading_ok c s1 (R @ d)" using out R' no by (auto simp: reading_ok_def s1_def len)
    have ok2: "reading_ok c (s1\<lparr>st_frameQueue := snd (streamFrameSorter_Pop (st_frameQueue s))\<rparr>) (R @ d)"
      if "length (sf_Data frame) \<le> k + m"
    proof -
      have "fst (streamFrameSorter_Pop (st_frameQueue s)) = Some frame" using hd by (simp add: streamFrameSorter_Pop_def)
      then have "sorter_inv c (snd (streamFrameSorter_Pop (st_frameQueue s))) (out @ sf_Data frame)"
        using Pop_inv [OF out(1), of frame] by (simp add: prod_eq_iff)
      moreover have "length (out @ sf_Data frame) \<le> length (R @ d)" using that out(2) by (simp add: k_def len)
      ultimately show ?thesis using R' no by (auto simp: reading_ok_def s1_def len)
    qed
    have fin: "reading_ok c (t\<lparr>st_finishedReading := b\<rparr>) Q = reading_ok c t Q" for t b Q by (simp add: reading_ok_def)
    have acc: "take m (drop k (sf_Data frame)) = d" by (simp add: d_def)
    show ?thesis
      using step False ok1 ok2 unfolding readFrame_def Let_def mi p
      by (auto simp: s1_def acc fin split: if_splits intro!: exI [of _ d])
  qed
qed

lemma Read_step_ok:
  assumes "reading_ok c s R" "st_cancelled s \<or> st_resetLocally s \<longrightarrow> st_err s \<noteq> None"
    and step: "Read_step now n acc s f = (r, cs, s', f')"
  shows "r = ReadBlocks \<and> s' = s \<and> f' = f
    \<or> (\<exists>d. reading_ok c s' (R @ d) \<and> (r = ReadMore (acc @ d) \<or> (\<exists>e. r = ReadReturns (acc @ d) e)))"
proof -
  have u: "reading_ok c (s\<lparr>st_readPosInFrame := x\<rparr>) R" for x using assms(1) by (simp add: reading_ok_def)
  have q: "\<exists>d. reading_ok c s' (R @ d) \<and> (r = ReadMore (acc @ d) \<or> (\<exists>e. r = ReadReturns (acc @ d) e))"
    if "streamFrameSorter_Head (st_frameQueue s) = Some fr"
      "readFrame now n acc fr (s\<lparr>st_readPosInFrame := sint (st_readOffset s - sf_Offset fr)\<rparr>) f = (r, cs, s', f')" for fr
    by (rule readFrame_ok [OF u _ _ that(2)]) (simp_all add: that(1))
  have e: "\<exists>d. reading_ok c s (R @ d) \<and> (ReadReturns acc x = ReadMore (acc @ d) \<or> (\<exists>e. ReadReturns acc x = ReadReturns (acc @ d) e))" for x
    using assms(1) by (intro exI [of _ "[]"]) simp
  show ?thesis
    using step assms(2) q e unfolding Read_step_def Let_def
    by (cases "streamFrameSorter_Head (st_frameQueue s)") (auto split: if_splits option.splits)
qed

text \<open>A round that goes on leaves less room or fewer frames, so the bound on the number of rounds is never reached.\<close>

lemma Read_step_progress:
  assumes "reading_ok c s R" "st_cancelled s \<or> st_resetLocally s \<longrightarrow> st_err s \<noteq> None" "length acc < n"
    and step: "Read_step now n acc s f = (ReadMore acc', cs, s', f')"
  shows "(n - length acc') + length (sfs_queuedFrames (st_frameQueue s')) < (n - length acc) + length (sfs_queuedFrames (st_frameQueue s))
    \<and> st_cancelled s' = st_cancelled s \<and> st_resetLocally s' = st_resetLocally s \<and> st_err s' = st_err s"
proof -
  obtain fr where h: "streamFrameSorter_Head (st_frameQueue s) = Some fr"
    and r: "readFrame now n acc fr (s\<lparr>st_readPosInFrame := sint (st_readOffset s - sf_Offset fr)\<rparr>) f = (ReadMore acc', cs, s', f')"
    using step assms(2) unfolding Read_step_def Let_def by (auto split: if_splits option.splits)
  have "sf_Offset fr = sfs_readPosition (st_frameQueue s)"
    using assms(1) h by (auto simp: reading_ok_def sorter_inv_def queue_in_def streamFrameSorter_Head_def)
  note pop = Pop_shorter [OF h this]
  show ?thesis
    using r pop assms(3) unfolding readFrame_def Let_def by (auto split: if_splits)
qed

lemma Read_step_blocks:
  assumes "Read_step now n acc s f = (ReadBlocks, cs, s', f')" shows "acc = [] \<and> cs = []"
  using assms unfolding Read_step_def readFrame_def Let_def by (auto split: if_splits option.splits)

lemma Read_step_len:
  assumes "length acc \<le> n" "Read_step now n acc s f = (r, cs, s', f')" "r = ReadMore acc' \<or> r = ReadReturns acc' e"
  shows "length acc' \<le> n"
  using assms unfolding Read_step_def readFrame_def Let_def by (auto split: if_splits option.splits)

lemma Read_loop_ok:
  assumes "reading_ok c s (R @ acc)" "st_cancelled s \<or> st_resetLocally s \<longrightarrow> st_err s \<noteq> None" "length acc \<le> n"
    and "n - length acc + length (sfs_queuedFrames (st_frameQueue s)) \<le> fuel"
    and "Read_loop fuel now n acc s f = (r, cs, s', f')"
  shows "r = ReadBlocks \<and> acc = [] \<and> reading_ok c s' R
    \<or> (\<exists>d e. r = ReadReturns (acc @ d) e \<and> reading_ok c s' (R @ acc @ d) \<and> length (acc @ d) \<le> n)"
  using assms
proof (induction fuel arbitrary: acc s f cs)
  case 0
  then show ?case by (cases "n \<le> length acc") (auto simp: reading_ok_def Read_loop.simps)
next
  case (Suc k)
  show ?case
  proof (cases "n \<le> length acc")
    case True
    then show ?thesis using Suc.prems by (auto simp: Read_loop.simps)
  next
    case False
    obtain r1 c1 s1 f1 where st: "Read_step now n acc s f = (r1, c1, s1, f1)" by (cases "Read_step now n acc s f") auto
    note ok = Read_step_ok [OF Suc.prems(1,2) st]
    show ?thesis
    proof (cases r1)
      case ReadBlocks
      then have "acc = []" using Read_step_blocks st by blast
      then show ?thesis using Suc.prems False st ok ReadBlocks by (auto simp: Read_loop.simps)
    next
      case (ReadReturns x e)
      then show ?thesis using Suc.prems False st ok Read_step_len [OF Suc.prems(3) st, of x e] by (auto simp: Read_loop.simps)
    next
      case (ReadMore acc1)
      then obtain d where d: "acc1 = acc @ d" "reading_ok c s1 (R @ acc1)" using ok by auto
      have lp: "n - length acc1 + length (sfs_queuedFrames (st_frameQueue s1)) \<le> k"
        "st_cancelled s1 \<or> st_resetLocally s1 \<longrightarrow> st_err s1 \<noteq> None"
        using Read_step_progress [OF Suc.prems(1,2) _ st [unfolded ReadMore]] False Suc.prems(2,4) by auto
      obtain c2 where rc: "Read_loop k now n acc1 s1 f1 = (r, c2, s', f')"
        using Suc.prems(5) False st by (auto simp: ReadMore Read_loop.simps [of "Suc k"] split: prod.splits)
      show ?thesis
        using Suc.IH [OF d(2) lp(2) _ lp(1) rc] Read_step_len [OF Suc.prems(3) st, of acc1] d(1) ReadMore by auto
    qed
  qed
qed

text \<open>A call of \<^verbatim>\<open>Read\<close> blocks, or returns the next bytes of the stream, at most as many as the buffer holds.\<close>

lemma Read_ok:
  assumes "reading_ok c s R" "st_cancelled s \<or> st_resetLocally s \<longrightarrow> st_err s \<noteq> None"
    and "Read now n s f = (r, cs, s', f')"
  shows "r = ReadBlocks \<and> reading_ok c s' R
    \<or> (\<exists>d e. r = ReadReturns d e \<and> reading_ok c s' (R @ d) \<and> length d \<le> n)"
proof (cases "st_cancelled s \<or> st_resetLocally s \<or> st_finishedReading s")
  case True
  then show ?thesis using assms by (auto simp: Read_def split: if_splits)
next
  case False
  then show ?thesis using Read_loop_ok [of c s R "[]" n "n + length (sfs_queuedFrames (st_frameQueue s))" now f r cs s' f'] assms by (simp add: Read_def)
qed

text \<open>Frames of the stream keep the receiving half in order, and the other operations do not touch it.\<close>

lemma AddStreamFrame_ok:
  assumes "reading_ok c s R" "frame_in c frame" "unat (sf_Offset frame) + length (sf_Data frame) < 2 ^ 64 - 1"
  shows "reading_ok c (fst (snd (AddStreamFrame frame s f))) R"
proof -
  have "sorter_inv c (snd (streamFrameSorter_Push frame (st_frameQueue s))) out" if "sorter_inv c (st_frameQueue s) out" for out
    using Push_inv [OF that assms(2,3)] by simp
  then have "reading_ok c (s\<lparr>st_frameQueue := snd (streamFrameSorter_Push frame (st_frameQueue s))\<rparr>) R"
    using assms(1) by (auto simp: reading_ok_def)
  then show ?thesis
    using assms(1) by (auto simp: AddStreamFrame_def reading_ok_def signalRead_def Let_def split: prod.splits option.splits)
qed

text \<open>What the other operations leave alone: the receiving half, and, but for the last three, the sending half.\<close>

abbreviation same_receiving :: "stream \<Rightarrow> stream \<Rightarrow> bool" where
  "same_receiving s s' \<equiv> st_frameQueue s' = st_frameQueue s \<and> st_readOffset s' = st_readOffset s \<and> st_streamID s' = st_streamID s"

abbreviation same_sending :: "stream \<Rightarrow> stream \<Rightarrow> bool" where
  "same_sending s s' \<equiv> st_dataForWriting s' = st_dataForWriting s \<and> st_writeOffset s' = st_writeOffset s"

lemma same_receiving_ok: "same_receiving s s' \<Longrightarrow> reading_ok c s R \<Longrightarrow> reading_ok c s' R"
  by (simp add: reading_ok_def)

lemmas stream_op_defs = signalRead_def signalWrite_def Let_def SetReadDeadline_def SetWriteDeadline_def SetDeadline_def
  Cancel_def maybeSendReset_def stream_Reset_def RegisterRemoteError_def stream_Close_def sentFin_def

lemma other_ops_same:
  "same_receiving s (SetDeadline t s) \<and> same_sending s (SetDeadline t s)"
  "same_receiving s (Cancel e s) \<and> same_sending s (Cancel e s)"
  "same_receiving s (snd (stream_Reset e s)) \<and> same_sending s (snd (stream_Reset e s))"
  "same_receiving s (snd (RegisterRemoteError e s)) \<and> same_sending s (snd (RegisterRemoteError e s))"
  "same_receiving s (snd (stream_Close s)) \<and> same_sending s (snd (stream_Close s))"
  "same_receiving s (sentFin s) \<and> same_sending s (sentFin s)"
  "same_receiving s (snd (snd (Write_begin p s))) \<and> st_writeOffset (snd (snd (Write_begin p s))) = st_writeOffset s"
  "same_receiving s (snd (getDataForWriting m s))"
  by (simp_all add: stream_op_defs Write_begin_def getDataForWriting_def split: option.splits)

section \<open>A cut frame keeps its FIN\<close>

definition fin_frame :: "ByteCount \<Rightarrow> byte list \<Rightarrow> StreamFrame" where
  "fin_frame off bytes = \<lparr>sf_StreamID = 5, sf_FinBit = True, sf_DataLenPresent = True, sf_Offset = off, sf_Data = bytes\<rparr>"

lemma push_tail_first:
  assumes "0 < a" "a < b" "b < protocol_MaxByteCount" "length xs = unat a" "length (xs @ ys) = unat b"
  shows "streamFrameSorter_Push (fin_frame a ys) newStreamFrameSorter =
    (None, \<lparr>sfs_queuedFrames = [(a, fin_frame a ys)], sfs_readPosition = 0,
      sfs_gaps = [\<lparr>bi_Start = 0, bi_End = a\<rparr>, \<lparr>bi_Start = b, bi_End = protocol_MaxByteCount\<rparr>]\<rparr>)"
proof -
  have "length ys = unat (b - a)" using assms by (simp add: unat_minus_le less_imp_le)
  then have d: "StreamFrame_DataLen (fin_frame a ys) = b - a" "sf_Offset (fin_frame a ys) = a"
    by (simp_all add: StreamFrame_DataLen_def fin_frame_def)
  have f: "0 < b" "\<not> b \<le> 0" "a \<le> protocol_MaxByteCount" "\<not> protocol_MaxByteCount \<le> b" "\<not> protocol_MaxByteCount < b"
    "b - a \<noteq> 0" "a \<noteq> 0" "b \<noteq> protocol_MaxByteCount" "a + (b - a) = b" "\<not> a < 0" "b \<noteq> 0" "b \<noteq> a"
    using assms(1-3) by (auto simp: not_le)
  have l: "\<not> length (sf_Data (fin_frame a ys)) < unat (b - a)" "take (unat (b - a)) (sf_Data (fin_frame a ys)) = sf_Data (fin_frame a ys)"
    using \<open>length ys = unat (b - a)\<close> by (simp_all add: fin_frame_def)
  have u: "(fin_frame a ys)\<lparr>sf_Offset := a, sf_Data := sf_Data (fin_frame a ys)\<rparr> = fin_frame a ys" by (simp add: fin_frame_def)
  show ?thesis
    by (simp add: streamFrameSorter_Push_def pushFrame_def insertFrame_def storeFrame_def cutFront_def newStreamFrameSorter_def
      adjustGaps_def d MaxStreamFrameSorterGaps_def Let_def f l u)
qed

lemma push_whole_second:
  assumes "0 < a" "a < b" "b < protocol_MaxByteCount" "length xs = unat a" "length (xs @ ys) = unat b"
  shows "streamFrameSorter_Push (fin_frame 0 (xs @ ys)) \<lparr>sfs_queuedFrames = [(a, fin_frame a ys)], sfs_readPosition = 0,
      sfs_gaps = [\<lparr>bi_Start = 0, bi_End = a\<rparr>, \<lparr>bi_Start = b, bi_End = protocol_MaxByteCount\<rparr>]\<rparr> =
    (None, \<lparr>sfs_queuedFrames = [(a, fin_frame a ys), (0, fin_frame 0 xs)], sfs_readPosition = 0,
      sfs_gaps = [\<lparr>bi_Start = b, bi_End = protocol_MaxByteCount\<rparr>]\<rparr>)"
proof -
  have d: "StreamFrame_DataLen (fin_frame 0 (xs @ ys)) = b" "sf_Offset (fin_frame 0 (xs @ ys)) = 0"
    using assms(5) by (simp_all add: StreamFrame_DataLen_def fin_frame_def)
  have f: "0 < b" "\<not> b \<le> 0" "\<not> b < a" "a \<le> b" "a \<noteq> 0" "b \<noteq> 0" "b - (b - a) = a" "\<not> a < 0" "\<not> a < a"
    using assms(1-3) by (auto simp: not_le not_less)
  have l: "\<not> length (sf_Data (fin_frame 0 (xs @ ys))) < unat a" "take (unat a) (sf_Data (fin_frame 0 (xs @ ys))) = xs"
    using assms(4) by (simp_all add: fin_frame_def)
  have u: "(fin_frame 0 (xs @ ys))\<lparr>sf_Offset := 0\<rparr> = fin_frame 0 (xs @ ys)"
    "(fin_frame 0 (xs @ ys))\<lparr>sf_Data := xs\<rparr> = fin_frame 0 xs" "sf_Offset (fin_frame 0 xs) = 0" by (simp_all add: fin_frame_def)
  show ?thesis
    using assms(2)
    by (simp add: streamFrameSorter_Push_def pushFrame_def insertFrame_def storeFrame_def cutFront_def
      adjustGaps_def d MaxStreamFrameSorterGaps_def Let_def f l u)
qed

text \<open>
  C36: A stream can end before its last byte. When the end of a stream was retransmitted in two frames and the second of
  them arrives before the original one, the original, which carries FIN, is cut at its end and keeps the flag: \<^verbatim>\<open>Read\<close>
  reports the end of the stream after the first part, although all bytes have arrived.
\<close>

theorem cut_fin_frame_ends_stream_early:
  assumes "xs \<noteq> []" "ys \<noteq> []" "length (xs @ ys) < 2 ^ 62" "length xs \<le> n"
  shows "let q1 = snd (streamFrameSorter_Push (fin_frame (of_nat (length xs)) ys) newStreamFrameSorter);
             (e, q2) = streamFrameSorter_Push (fin_frame 0 (xs @ ys)) q1;
             (r, cs, s, f') = Read now n ((newStream 5)\<lparr>st_frameQueue := q2\<rparr>) f
         in e = None \<and> sfs_gaps q2 = [\<lparr>bi_Start = of_nat (length (xs @ ys)), bi_End = protocol_MaxByteCount\<rparr>]
           \<and> r = ReadReturns xs (Some EOF) \<and> st_finishedReading s"
proof -
  let ?a = "of_nat (length xs) :: ByteCount" and ?b = "of_nat (length (xs @ ys)) :: ByteCount"
  have u: "unat ?a = length xs" "unat ?b = length (xs @ ys)" using assms(3) by (simp_all only: unat_of_nat) simp_all
  have ab: "0 < ?a" "?a < ?b" "?b < protocol_MaxByteCount" "length xs = unat ?a" "length (xs @ ys) = unat ?b"
    using u assms(1-3) by (simp_all only: word_less_nat_alt) (simp_all add: protocol_MaxByteCount_def)
  have n: "n \<noteq> 0" "?a \<noteq> 0" using assms(1,4) ab(1) by (cases n, auto)
  show ?thesis
    unfolding push_tail_first [OF ab] Let_def snd_conv push_whole_second [OF ab] prod.case
    using assms(4) n
    by (simp add: Read_def Read_loop.simps Read_step_def readFrame_def newStream_def streamFrameSorter_Head_def fin_frame_def
        Let_def split: prod.splits)
qed

theorem cut_fin_frame_ends_stream_early_witness:
  "\<forall>f. let q1 = snd (streamFrameSorter_Push (fin_frame (of_nat (length [1, 2 :: byte])) [3]) newStreamFrameSorter);
       (e, q2) = streamFrameSorter_Push (fin_frame 0 ([1, 2] @ [3])) q1;
       (r, cs, s, f') = Read 0 10 ((newStream 5)\<lparr>st_frameQueue := q2\<rparr>) f
   in e = None \<and> sfs_gaps q2 = [\<lparr>bi_Start = of_nat (length ([1, 2 :: byte] @ [3])), bi_End = protocol_MaxByteCount\<rparr>]
     \<and> r = ReadReturns [1, 2] (Some EOF) \<and> st_finishedReading s"
  by (intro allI cut_fin_frame_ends_stream_early) simp_all

end
