(* ===== verification/StreamScheduler.thy ===== *)
theory StreamScheduler
  imports Streams
begin

text \<open>
  The stream scheduler (\<^verbatim>\<open>stream_scheduler.go\<close>): a tree of streams with weights, through which a weighted round robin
  walks to find the stream that sends next, and the step that takes a STREAM frame from a stream. Nodes live in a heap;
  the address of a node is its stream ID, 0 for the root, which the header stream occupies. A pointer to a stream is its
  stream ID. Recursion along the tree is bounded by the number of nodes, which a path in a tree cannot exceed; running
  into the bound is a stack overflow.
\<close>

section \<open>Nodes\<close>

record node =
  nd_id :: StreamID
  nd_stream :: "StreamID option"
  nd_weight :: byte
  nd_childrensWeight :: u32
  nd_state :: byte
  nd_activeChildren :: u16
  nd_quantum :: u16
  nd_parent :: "StreamID option"
  nd_children :: "StreamID list"
  nd_nextChild :: u16
  nd_lowestQuantum :: u16
  nd_numerator :: u64
  nd_denominator :: u64
  nd_waiting :: byte

type_synonym nodes = "StreamID \<Rightarrow> node"

record Priority =
  pr_Dependency :: StreamID
  pr_Weight :: byte
  pr_Exclusive :: bool

record streamScheduler =
  sch_nodes :: nodes
  sch_toSend :: "StreamID option"
  sch_openStreams :: int
  sch_nodeMap :: "(StreamID \<times> StreamID) list"
  sch_blockedLast :: bool

abbreviation nodeIdle :: byte where "nodeIdle \<equiv> (0 :: byte)"
abbreviation nodeActive :: byte where "nodeActive \<equiv> (1 :: byte)"
abbreviation nodeClosed :: byte where "nodeClosed \<equiv> (2 :: byte)"
abbreviation sch_root :: StreamID where "sch_root \<equiv> (0 :: StreamID)"
abbreviation errStackOverflow :: gerror where "errStackOverflow \<equiv> Panic ''stack overflow''"
abbreviation errIndexRange :: gerror where "errIndexRange \<equiv> Panic ''index out of range''"

definition DefaultStreamWeight :: byte where "DefaultStreamWeight = 15"

definition newNode :: "StreamID \<Rightarrow> StreamID option \<Rightarrow> StreamID option \<Rightarrow> node" where
  "newNode i strm parent =
     \<lparr>nd_id = i, nd_stream = strm, nd_weight = DefaultStreamWeight, nd_childrensWeight = 0, nd_state = nodeIdle,
      nd_activeChildren = 0, nd_quantum = 0, nd_parent = parent, nd_children = [], nd_nextChild = 0,
      nd_lowestQuantum = 256, nd_numerator = 1, nd_denominator = 1, nd_waiting = 0\<rparr>"

definition newStreamScheduler :: streamScheduler where
  "newStreamScheduler =
     \<lparr>sch_nodes = (\<lambda>_. newNode 0 None None), sch_toSend = None, sch_openStreams = 0, sch_nodeMap = [],
      sch_blockedLast = False\<rparr>"

text \<open>The number of nodes and one more: a bound on recursion along the tree.\<close>

definition sch_depth :: "streamScheduler \<Rightarrow> nat" where
  "sch_depth sch = length (sch_nodeMap sch) + 2"

section \<open>Weights\<close>

primrec addWeight :: "nat \<Rightarrow> StreamID \<Rightarrow> StreamID \<Rightarrow> nodes \<Rightarrow> nodes result" where
  "addWeight 0 n child h = Inl errStackOverflow"
| "addWeight (Suc k) n child h =
     (let nd = (h n)\<lparr>nd_childrensWeight := nd_childrensWeight (h n) + (ucast (nd_weight (h child)) + 1),
                     nd_activeChildren := nd_activeChildren (h n) + 1, nd_children := nd_children (h n) @ [child]\<rparr>;
          h1 = h(n := nd) in
      case nd_parent nd of
        Some p \<Rightarrow> if nd_state nd \<noteq> nodeActive \<and> nd_activeChildren nd = 1 then addWeight k p n h1 else Inr h1
      | None \<Rightarrow> Inr h1)"

text \<open>The index of the child in the list of children, 0 when it is not there.\<close>

fun childIndex :: "StreamID \<Rightarrow> StreamID list \<Rightarrow> nat" where
  "childIndex child [] = 0"
| "childIndex child (c # cs) = (if c = child then 0 else if child \<in> set cs then Suc (childIndex child cs) else 0)"

definition deleteAt :: "nat \<Rightarrow> 'a list \<Rightarrow> 'a list" where
  "deleteAt i xs = take i xs @ drop (Suc i) xs"

primrec removeWeight :: "nat \<Rightarrow> StreamID \<Rightarrow> StreamID \<Rightarrow> nodes \<Rightarrow> nodes result" where
  "removeWeight 0 n child h = Inl errStackOverflow"
| "removeWeight (Suc k) n child h =
     (if nd_children (h n) = [] then Inl errSliceBounds
      else
        let children = deleteAt (childIndex child (nd_children (h n))) (nd_children (h n));
            nd = (h n)\<lparr>nd_children := children,
                       nd_nextChild := (if children = [] then 0 else nd_nextChild (h n) mod of_nat (length children)),
                       nd_childrensWeight := nd_childrensWeight (h n) - (ucast (nd_weight (h child)) - 1),
                       nd_activeChildren := nd_activeChildren (h n) - 1\<rparr>;
            h1 = h(n := nd) in
        case nd_parent nd of
          Some p \<Rightarrow> if nd_activeChildren nd = 0 then removeWeight k p n h1 else Inr h1
        | None \<Rightarrow> Inr h1)"

definition deactivateNode :: "nat \<Rightarrow> StreamID \<Rightarrow> nodes \<Rightarrow> nodes result" where
  "deactivateNode k n h =
     (let h1 = h(n := (h n)\<lparr>nd_state := nodeClosed, nd_stream := None\<rparr>) in
      case nd_parent (h1 n) of
        Some p \<Rightarrow> if nd_activeChildren (h1 n) = 0 then removeWeight k p n h1 else Inr h1
      | None \<Rightarrow> Inr h1)"

text \<open>Moving on to the next child, of the parent and of all nodes above it.\<close>

definition nextSibling :: "StreamID \<Rightarrow> nodes \<Rightarrow> nodes" where
  "nextSibling p h =
     h(p := (h p)\<lparr>nd_nextChild := (nd_nextChild (h p) + 1) mod of_nat (length (nd_children (h p)))\<rparr>)"

primrec node_skip :: "nat \<Rightarrow> StreamID \<Rightarrow> nodes \<Rightarrow> nodes result" where
  "node_skip 0 n h = Inl errStackOverflow"
| "node_skip (Suc k) n h =
     (let h1 = h(n := (h n)\<lparr>nd_quantum := 0\<rparr>) in
      case nd_parent (h1 n) of
        Some p \<Rightarrow> if (of_nat (length (nd_children (h1 p))) :: u16) = 0 then Inl (Panic ''integer divide by zero'')
                  else node_skip k p (nextSibling p h1)
      | None \<Rightarrow> Inr h1)"

section \<open>Streams enter the tree\<close>

definition addNode :: "StreamID option \<Rightarrow> streamScheduler \<Rightarrow> streamScheduler outcome" where
  "addNode child sch =
     (case child of
        None \<Rightarrow> fail_with (Errorf ''attempt to add unknown node'') sch
      | Some c \<Rightarrow>
          if c = 1 then done_ok sch
          else if c = 3
          then done_ok (sch\<lparr>sch_nodes := (sch_nodes sch)(sch_root := (sch_nodes sch sch_root)\<lparr>nd_stream := Some c, nd_state := nodeActive\<rparr>),
                            sch_nodeMap := AList.update 3 sch_root (sch_nodeMap sch)\<rparr>)
          else done_ok (sch\<lparr>sch_nodes := (sch_nodes sch)(c := newNode c (Some c) (Some sch_root)),
                            sch_nodeMap := AList.update c c (sch_nodeMap sch)\<rparr>))"

definition maybeSetWeight :: "StreamID \<Rightarrow> byte \<Rightarrow> streamScheduler \<Rightarrow> streamScheduler outcome" where
  "maybeSetWeight i weight sch =
     (if i = 1 \<or> i = 3 then done_ok sch
      else case map_of (sch_nodeMap sch) i of
          None \<Rightarrow> fail_with (Errorf ''setting weight of unknown stream'') sch
        | Some n \<Rightarrow>
            let h = sch_nodes sch; nd = h n in
            if nd_weight nd = weight then done_ok sch
            else if nd_state nd = nodeActive \<or> nd_activeChildren nd > 0 then
              case nd_parent nd of
                None \<Rightarrow> fail_with errNilFrame sch
              | Some p \<Rightarrow>
                  let diff = int (unat weight) - int (unat (nd_weight nd));
                      h1 = h(p := (h p)\<lparr>nd_childrensWeight := of_int (int (unat (nd_childrensWeight (h p))) + diff)\<rparr>)
                  in done_ok (sch\<lparr>sch_nodes := h1(n := (h1 n)\<lparr>nd_weight := weight\<rparr>)\<rparr>)
            else done_ok (sch\<lparr>sch_nodes := h(n := nd\<lparr>nd_weight := weight\<rparr>)\<rparr>))"

definition setActive :: "StreamID \<Rightarrow> streamScheduler \<Rightarrow> streamScheduler outcome" where
  "setActive i sch =
     (if i = 1 then done_ok sch
      else if i = 3 then done_ok sch
      else case map_of (sch_nodeMap sch) i of
          None \<Rightarrow> fail_with (Errorf ''setting unknown stream active'') sch
        | Some n \<Rightarrow>
            let h = (sch_nodes sch)(n := (sch_nodes sch n)\<lparr>nd_state := nodeActive\<rparr>) in
            case nd_parent (h n) of
              None \<Rightarrow> fail_with errNilFrame (sch\<lparr>sch_nodes := h\<rparr>)
            | Some p \<Rightarrow>
                (case addWeight (sch_depth sch) p n h of
                   Inl e \<Rightarrow> fail_with e (sch\<lparr>sch_nodes := h\<rparr>)
                 | Inr h1 \<Rightarrow> done_ok (sch\<lparr>sch_nodes := h1, sch_openStreams := sch_openStreams sch + 1\<rparr>)))"

section \<open>Dependencies\<close>

text \<open>A node counts for its parent while it sends or something below it does.\<close>

definition node_counts :: "StreamID \<Rightarrow> nodes \<Rightarrow> bool" where
  "node_counts n h \<longleftrightarrow> nd_state (h n) = nodeActive \<or> nd_activeChildren (h n) > 0"

text \<open>
  A stream that is made dependent on one of its own descendants: the walk from the new parent upwards, which moves
  the new parent to the old parent when it meets the child.
\<close>

primrec unlinkDescendant :: "nat \<Rightarrow> nat \<Rightarrow> StreamID option \<Rightarrow> StreamID \<Rightarrow> StreamID \<Rightarrow> StreamID option \<Rightarrow> nodes \<Rightarrow> nodes result" where
  "unlinkDescendant 0 d n child newParent oldParent h = Inl errStackOverflow"
| "unlinkDescendant (Suc k) d n child newParent oldParent h =
     (case n of
        None \<Rightarrow> Inl errNilFrame
      | Some a \<Rightarrow>
          if nd_parent (h a) = None then Inr h
          else
            rbind (if a = child then
                     rbind (if node_counts newParent h then
                              case nd_parent (h newParent) of
                                None \<Rightarrow> Inl errNilFrame
                              | Some q \<Rightarrow> rbind (removeWeight d q newParent h)
                                  (\<lambda>h1. case oldParent of Some p \<Rightarrow> addWeight d p newParent h1 | None \<Rightarrow> Inr h1)
                            else Inr h)
                       (\<lambda>h2. Inr (h2(newParent := (h2 newParent)\<lparr>nd_parent := oldParent\<rparr>)))
                   else Inr h)
              (\<lambda>h3. unlinkDescendant k d (nd_parent (h3 a)) child newParent oldParent h3))"

definition removeFromParent :: "nat \<Rightarrow> StreamID \<Rightarrow> nodes \<Rightarrow> nodes result" where
  "removeFromParent d child h =
     (case nd_parent (h child) of
        None \<Rightarrow> Inr h
      | Some p \<Rightarrow>
          rbind (if node_counts child h then removeWeight d p child h else Inr h)
            (\<lambda>h1. Inr (h1(child := (h1 child)\<lparr>nd_parent := None\<rparr>))))"

text \<open>
  The loop over the children of the new parent for an exclusive dependency. It ranges over the slice as it was at the
  start, while \<^verbatim>\<open>removeWeight\<close> shifts the elements of the array behind it: \<open>arr\<close> is that array, of which the current
  children are the first part.
\<close>

primrec adoptChildren :: "nat \<Rightarrow> nat \<Rightarrow> StreamID list \<Rightarrow> nat \<Rightarrow> StreamID \<Rightarrow> StreamID \<Rightarrow> nodes \<Rightarrow> nodes result" where
  "adoptChildren d 0 arr i child newParent h = Inr h"
| "adoptChildren d (Suc k) arr i child newParent h =
     (let c = arr ! i in
      if c = newParent then adoptChildren d k arr (Suc i) child newParent h
      else if node_counts c h then
        let l = length (nd_children (h newParent)) in
        rbind (addWeight d child c h) (\<lambda>h1.
        rbind (removeWeight d newParent c h1) (\<lambda>h2.
          adoptChildren d k (nd_children (h2 newParent) @ drop (l - 1) arr) (Suc i) child newParent
            (h2(c := (h2 c)\<lparr>nd_parent := Some child\<rparr>))))
      else adoptChildren d k arr (Suc i) child newParent (h(c := (h c)\<lparr>nd_parent := Some child\<rparr>)))"

definition moveNode :: "nat \<Rightarrow> StreamID \<Rightarrow> StreamID \<Rightarrow> bool \<Rightarrow> nodes \<Rightarrow> nodes result" where
  "moveNode d child newParent exclusive h =
     rbind (unlinkDescendant d d (nd_parent (h newParent)) child newParent (nd_parent (h child)) h) (\<lambda>h1.
     rbind (removeFromParent d child h1) (\<lambda>h2.
     rbind (if exclusive
            then adoptChildren d (length (nd_children (h2 newParent))) (nd_children (h2 newParent)) 0 child newParent h2
            else Inr h2) (\<lambda>h3.
       let h4 = h3(child := (h3 child)\<lparr>nd_parent := Some newParent\<rparr>) in
       if node_counts child h4 then addWeight d newParent child h4 else Inr h4)))"

definition maybeSetParent :: "StreamID \<Rightarrow> StreamID \<Rightarrow> bool \<Rightarrow> streamScheduler \<Rightarrow> streamScheduler outcome" where
  "maybeSetParent childID parentID exclusive sch =
     (if childID = parentID then fail_with (Errorf ''setting stream as its own parent'') sch
      else if childID = 1 then fail_with (Errorf ''setting parent of crypto stream'') sch
      else if childID = 3 then fail_with (Errorf ''setting parent of header stream'') sch
      else if parentID = 1 then fail_with (Errorf ''setting parent to crypto stream'') sch
      else
        let parentID' = (if parentID = 3 then 0 else parentID); h = sch_nodes sch in
        case map_of (sch_nodeMap sch) childID of
          None \<Rightarrow> fail_with (Errorf ''setting unknown stream as exclusive child'') sch
        | Some child \<Rightarrow>
            if \<not> exclusive \<and> (case nd_parent (h child) of None \<Rightarrow> False | Some p \<Rightarrow> nd_id (h p) = parentID')
            then done_ok sch
            else case map_of (sch_nodeMap sch) parentID' of
                None \<Rightarrow> fail_with (Errorf ''setting stream as exclusive child of unknown stream'') sch
              | Some newParent \<Rightarrow>
                  (case moveNode (sch_depth sch) child newParent exclusive h of
                     Inl e \<Rightarrow> fail_with e sch
                   | Inr h1 \<Rightarrow> done_ok (sch\<lparr>sch_nodes := h1\<rparr>)))"

section \<open>The stream that sends next\<close>

definition bytesUntilCompletion :: "(StreamID \<Rightarrow> stream) \<Rightarrow> node \<Rightarrow> streamScheduler \<Rightarrow> ByteCount result" where
  "bytesUntilCompletion strm nd sch =
     (case nd_stream nd of
        None \<Rightarrow> Inl errNilFrame
      | Some i \<Rightarrow>
          let L = MaxPacketSize; len = lenOfDataForWriting (strm i); left = (if L < len then len - L else len) in
          if ucast (nd_lowestQuantum nd) * L \<ge> left \<or> sch_openStreams sch = 1 then Inr len
          else if nd_numerator nd = 0 then Inl (Panic ''integer divide by zero'')
          else Inr ((nd_denominator nd - nd_numerator nd) * left + len div nd_numerator nd))"

text \<open>
  The first part of a visit: a new round fills the quantum; the shares of the parent are passed down.
\<close>

definition visitNode :: "StreamID \<Rightarrow> nodes \<Rightarrow> nodes" where
  "visitNode n h =
     (let nd = h n;
          nd1 = (if nd_quantum nd = 0 then nd\<lparr>nd_quantum := ucast (nd_weight nd) + 1\<rparr> else nd);
          nd2 = (case nd_parent nd1 of
                   None \<Rightarrow> nd1
                 | Some p \<Rightarrow>
                     nd1\<lparr>nd_lowestQuantum :=
                           (if nd_activeChildren (h p) = 1 then nd_lowestQuantum (h p)
                            else let quantum = nd_quantum nd1 - 1 in
                              if quantum < nd_quantum nd1 - 1 then quantum else nd_lowestQuantum (h p)),
                         nd_numerator := ucast (nd_weight nd1 + 1) * nd_numerator (h p),
                         nd_denominator := ucast (nd_childrensWeight (h p)) * nd_denominator (h p)\<rparr>)
      in h(n := nd2))"

text \<open>The last part: without a result, or with its quantum used up, the node gives way to its sibling.\<close>

definition leaveNode :: "StreamID \<Rightarrow> StreamID option \<Rightarrow> nodes \<Rightarrow> nodes" where
  "leaveNode n found h =
     (case nd_parent (h n) of
        None \<Rightarrow> h
      | Some p \<Rightarrow> if (found = None \<or> nd_quantum (h n) = 0) \<and> nd_children (h p) \<noteq> [] then nextSibling p h else h)"

text \<open>The loop over the children of a node: \<open>visit\<close> is the recursive call.\<close>

primrec visitChildren :: "nat \<Rightarrow> (StreamID \<Rightarrow> streamScheduler \<Rightarrow> (StreamID option \<times> streamScheduler) result) \<Rightarrow> nat
    \<Rightarrow> StreamID \<Rightarrow> streamScheduler \<Rightarrow> (StreamID option \<times> streamScheduler) result" where
  "visitChildren 0 visit i n sch = Inr (None, sch)"
| "visitChildren (Suc k) visit i n sch =
     (let cs = nd_children (sch_nodes sch n); next = unat (nd_nextChild (sch_nodes sch n)) in
      if i \<ge> length cs then Inr (None, sch)
      else if next \<ge> length cs then Inl errIndexRange
      else rbind (visit (cs ! next) sch) (\<lambda>(found, sch1).
        if found \<noteq> None
        then Inr (found, sch1\<lparr>sch_nodes := (sch_nodes sch1)(n := (sch_nodes sch1 n)\<lparr>nd_quantum := nd_quantum (sch_nodes sch1 n) - 1\<rparr>)\<rparr>)
        else visitChildren k visit (Suc i) n sch1))"

definition streamWindow :: "flowControlManager \<Rightarrow> StreamID option \<Rightarrow> ByteCount" where
  "streamWindow f strm =
     (case strm of
        None \<Rightarrow> 0
      | Some i \<Rightarrow> (case flowControlManager_SendWindowSize f i of Inl _ \<Rightarrow> 0 | Inr w \<Rightarrow> w))"

primrec traverse :: "nat \<Rightarrow> (StreamID \<Rightarrow> stream) \<Rightarrow> flowControlManager \<Rightarrow> StreamID \<Rightarrow> streamScheduler
    \<Rightarrow> (StreamID option \<times> streamScheduler) result" where
  "traverse 0 strm f n sch = Inl errStackOverflow"
| "traverse (Suc k) strm f n sch =
     (let h = visitNode n (sch_nodes sch); nd = h n; sch1 = sch\<lparr>sch_nodes := h\<rparr>; sw = streamWindow f (nd_stream nd);
          leave = (\<lambda>(found, sch'). Inr (found, sch'\<lparr>sch_nodes := leaveNode n found (sch_nodes sch')\<rparr>)) in
      if (case nd_stream nd of None \<Rightarrow> False | Some i \<Rightarrow> finishedWriteAndSentFin (strm i)) then
        rbind (deactivateNode (sch_depth sch) n h)
          (\<lambda>h1. Inr (None, sch1\<lparr>sch_nodes := h1, sch_openStreams := sch_openStreams sch1 - 1\<rparr>))
      else if nd_id nd = 0 \<and> (case nd_stream nd of None \<Rightarrow> False | Some i \<Rightarrow> lenOfDataForWriting (strm i) > 0) \<and> sw > 0
      then leave (Some n, sch1)
      else if nd_id nd \<noteq> 0 \<and> nd_state nd = nodeActive \<and> nd_quantum nd > 0 \<and> nd_stream nd \<noteq> None \<and> sw > 0
      then leave (Some n, sch1\<lparr>sch_nodes := h(n := nd\<lparr>nd_quantum := nd_quantum nd - 1\<rparr>)\<rparr>)
      else if nd_activeChildren nd > 0 \<and> nd_quantum nd > 0
      then rbind (visitChildren (length (nd_children nd)) (traverse k strm f) 0 n sch1) leave
      else leave (None, sch1))"

definition schedule :: "(StreamID \<Rightarrow> stream) \<Rightarrow> flowControlManager \<Rightarrow> streamScheduler \<Rightarrow> (StreamID option \<times> streamScheduler) result" where
  "schedule strm f sch = traverse (sch_depth sch) strm f sch_root sch"

section \<open>Taking a frame from a stream\<close>

text \<open>The result of an attempt: the frame, the bytes it takes in the packet, and whether other streams may follow.\<close>

type_synonym taken = "StreamFrame option \<times> ByteCount \<times> bool"

definition emptyStreamFrame :: "stream \<Rightarrow> StreamFrame" where
  "emptyStreamFrame s =
     \<lparr>sf_StreamID = st_streamID s, sf_FinBit = False, sf_DataLenPresent = True, sf_Offset = st_writeOffset s, sf_Data = []\<rparr>"

definition frameHeaderBytes :: "StreamFrame \<Rightarrow> ByteCount" where
  "frameHeaderBytes frame = (case StreamFrame_MinLength frame VersionWhatever of Inl _ \<Rightarrow> 0 | Inr l \<Rightarrow> l)"

text \<open>The BLOCKED frame that is due after a frame was taken.\<close>

definition queueBlocked :: "stream \<Rightarrow> StreamFrame \<Rightarrow> ByteCount \<Rightarrow> flowControlManager \<Rightarrow> BlockedFrame list \<Rightarrow> BlockedFrame list" where
  "queueBlocked s frame sendWindowSize f blocked =
     (if RemainingConnectionWindowSize f = 0 then blocked @ [\<lparr>bl_StreamID = 0\<rparr>]
      else if \<not> sf_FinBit frame \<and> sendWindowSize - StreamFrame_DataLen frame = 0
      then blocked @ [\<lparr>bl_StreamID = st_streamID s\<rparr>]
      else blocked)"

text \<open>The second half: data of at most \<open>maxLen\<close> bytes, FIN if it is due, and the accounting.\<close>

definition takeData :: "ByteCount \<Rightarrow> ByteCount \<Rightarrow> ByteCount \<Rightarrow> stream \<Rightarrow> flowControlManager \<Rightarrow> BlockedFrame list
    \<Rightarrow> StreamFrame option \<times> stream \<times> flowControlManager \<times> BlockedFrame list" where
  "takeData lenStreamData maxLen sendWindowSize s f blocked =
     (let (bytes, s1) = (if lenStreamData \<noteq> 0 then getDataForWriting maxLen s else (None, s));
          fin = shouldSendFin s1 in
      if bytes = None \<and> \<not> fin then (None, s1, f, blocked)
      else
        let s2 = (if fin then sentFin s1 else s1);
            frame = (emptyStreamFrame s)\<lparr>sf_FinBit := fin, sf_Data := (case bytes of None \<Rightarrow> [] | Some d \<Rightarrow> d)\<rparr>;
            f1 = snd (flowControlManager_AddBytesSent (st_streamID s) (StreamFrame_DataLen frame) f)
        in (Some frame, s2, f1, queueBlocked s frame sendWindowSize f1 blocked))"

definition takeFrame :: "ByteCount \<Rightarrow> ByteCount \<Rightarrow> stream \<Rightarrow> flowControlManager \<Rightarrow> BlockedFrame list
    \<Rightarrow> taken \<times> stream \<times> flowControlManager \<times> BlockedFrame list" where
  "takeFrame currentLen maxBytes s f blocked =
     (if st_streamID s = 1 then ((None, currentLen, True), s, f, blocked)
      else
        let headerBytes = frameHeaderBytes (emptyStreamFrame s) in
        if currentLen + headerBytes > maxBytes then ((None, currentLen, False), s, f, blocked)
        else
          let lenStreamData = lenOfDataForWriting s;
              sendWindowSize = (if lenStreamData \<noteq> 0 then streamWindow f (Some (st_streamID s)) else 0);
              room = maxBytes - currentLen - headerBytes;
              maxLen = (if lenStreamData \<noteq> 0 then MinByteCount room sendWindowSize else room) in
          if maxLen = 0 then ((None, currentLen, True), s, f, blocked)
          else case takeData lenStreamData maxLen sendWindowSize s f blocked of
              (None, t) \<Rightarrow> ((None, currentLen, True), t)
            | (Some frame, t) \<Rightarrow>
                (let len = currentLen + (headerBytes + StreamFrame_DataLen frame) in ((Some frame, len, len \<noteq> maxBytes), t)))"

definition send :: "ByteCount \<Rightarrow> stream \<Rightarrow> flowControlManager \<Rightarrow> BlockedFrame list
    \<Rightarrow> taken \<times> stream \<times> flowControlManager \<times> BlockedFrame list" where
  "send maxBytes s f blocked = takeFrame 0 maxBytes s f blocked"

section \<open>What the scheduler picks\<close>

text \<open>A stream that may send: it has credit at flow control and has not sent its FIN.\<close>

definition sendable :: "(StreamID \<Rightarrow> stream) \<Rightarrow> flowControlManager \<Rightarrow> StreamID option \<Rightarrow> bool" where
  "sendable strm f so \<longleftrightarrow> (\<exists>i. so = Some i \<and> streamWindow f so > 0 \<and> \<not> finishedWriteAndSentFin (strm i))"

lemma visitNode_stream [simp]: "nd_stream (visitNode n h a) = nd_stream (h a)"
  by (simp add: visitNode_def Let_def split: option.splits)

lemma leaveNode_stream [simp]: "nd_stream (leaveNode n found h a) = nd_stream (h a)"
  by (simp add: leaveNode_def nextSibling_def split: option.splits)

text \<open>The loop over the children returns what one of the visits returned, with the stream still in place.\<close>

lemma visitChildren_found:
  assumes "\<And>c sch a sch'. visit c sch = Inr (Some a, sch') \<Longrightarrow> P (nd_stream (sch_nodes sch' a))"
    and "visitChildren k visit i n sch = Inr (Some a, sch')"
  shows "P (nd_stream (sch_nodes sch' a))"
  using assms(2)
proof (induction k arbitrary: i sch)
  case (Suc k)
  let ?c = "nd_children (sch_nodes sch n) ! unat (nd_nextChild (sch_nodes sch n))"
  obtain found sch1 where v: "visit ?c sch = Inr (found, sch1)" and i: "i < length (nd_children (sch_nodes sch n))"
    using Suc.prems by (auto simp: Let_def rbind_def split: if_splits sum.splits)
  show ?case
  proof (cases found)
    case None
    then show ?thesis using Suc v i by (auto simp: Let_def split: if_splits)
  next
    case (Some b)
    then show ?thesis using Suc.prems v i assms(1) [of ?c sch b sch1] by (auto simp: Let_def split: if_splits)
  qed
qed simp

lemma traverse_found: "traverse k strm f n sch = Inr (Some a, sch') \<Longrightarrow> sendable strm f (nd_stream (sch_nodes sch' a))"
proof (induction k arbitrary: n sch a sch')
  case (Suc k)
  let ?h = "visitNode n (sch_nodes sch)" and ?sch = "sch\<lparr>sch_nodes := visitNode n (sch_nodes sch)\<rparr>"
  show ?case
  proof (cases "\<exists>sch1. visitChildren (length (nd_children (?h n))) (traverse k strm f) 0 n ?sch = Inr (Some a, sch1)
      \<and> sch' = sch1\<lparr>sch_nodes := leaveNode n (Some a) (sch_nodes sch1)\<rparr>")
    case True
    then show ?thesis using visitChildren_found [of "traverse k strm f" "sendable strm f"] Suc.IH by fastforce
  next
    case False
    then show ?thesis using Suc.prems
      by (auto simp: Let_def rbind_def sendable_def split: if_splits option.splits sum.splits)
  qed
qed simp

text \<open>The stream the scheduler picks may send.\<close>

lemma schedule_found:
  assumes "schedule strm f sch = Inr (Some a, sch')"
  shows "\<exists>i. nd_stream (sch_nodes sch' a) = Some i \<and> streamWindow f (Some i) > 0 \<and> \<not> finishedWriteAndSentFin (strm i)"
  using traverse_found [of "sch_depth sch" strm f sch_root sch a sch'] assms by (auto simp: schedule_def sendable_def)

section \<open>Where the weights go wrong\<close>

text \<open>
  A child that enters and leaves the tree leaves a weight of 2 behind, so the shares of its siblings get smaller with
  every stream that was ever open.
\<close>

lemma weight_is_left_behind:
  assumes "nd_parent (h n) = None" "n \<noteq> c" "c \<notin> set (nd_children (h n))"
  shows "\<exists>h1 h2. addWeight (Suc k) n c h = Inr h1 \<and> removeWeight (Suc k) n c h1 = Inr h2
    \<and> nd_childrensWeight (h2 n) = nd_childrensWeight (h n) + 2 \<and> nd_children (h2 n) = nd_children (h n)"
proof -
  have "childIndex c (cs @ [c]) = length cs" if "c \<notin> set cs" for cs using that by (induction cs) auto
  then show ?thesis using assms by (simp add: Let_def deleteAt_def)
qed

text \<open>The greatest weight wraps to a share of zero, by which the estimate of the remaining bytes then divides.\<close>

lemma greatest_weight_divides_by_zero:
  assumes "nd_weight (h n) = 255" "nd_parent (h n) = Some p" "n \<noteq> p" "nd_stream (h n) = Some i"
    and "unat (nd_lowestQuantum (h p)) \<le> 256" "sch_openStreams sch \<noteq> 1"
    and "lenOfDataForWriting (strm i) > 257 * MaxPacketSize"
  shows "bytesUntilCompletion strm (visitNode n h n) sch = Inl (Panic ''integer divide by zero'')"
proof -
  let ?q = "nd_lowestQuantum (h p)" and ?len = "lenOfDataForWriting (strm i)"
  have q: "unat (ucast ?q :: ByteCount) \<le> 256" using assms(5) by (simp add: unsigned_ucast_eq take_bit_nat_less_eq_self [THEN order_trans])
  have "unat ((ucast ?q :: ByteCount) * MaxPacketSize) \<le> 256 * 1350"
    using q by (subst unat_mult_lem [THEN iffD1]) (simp_all add: MaxPacketSize_def mult_le_mono)
  moreover have "unat (?len - MaxPacketSize) > 256 * 1350" "MaxPacketSize < ?len"
    using assms(7) by (simp_all add: MaxPacketSize_def word_less_nat_alt unat_minus_le word_le_nat_alt)
  ultimately have "\<not> ?len - MaxPacketSize \<le> ucast ?q * MaxPacketSize" "MaxPacketSize < ?len" by (auto simp: word_le_nat_alt)
  then show ?thesis using assms
    by (auto simp: bytesUntilCompletion_def visitNode_def Let_def)
qed

end
