(* ===== verification/FlowSafety.thy ===== *)
theory FlowSafety
  imports FlowControl
begin

text \<open>
  Flow control between two ends of a connection. A sender and a receiver, each with the flow control
  manager of \<^verbatim>\<open>internal/flowcontrol\<close>, exchange STREAM, RST_STREAM and WINDOW_UPDATE frames over a network
  that delays, repeats, reorders and loses them, and open, reset and remove streams. The invariant of the reachable states gives: no frame of an
  honest sender is ever reported as a violation, on the level of the streams and of the connection.
\<close>

section \<open>What one call does to a controller\<close>

text \<open>A controller whose increments are within the configured maximum and which cannot wrap around.\<close>

definition receiving_ok :: "flowController \<Rightarrow> bool" where
  "receiving_ok c \<longleftrightarrow> fc_receiveWindowIncrement c \<le> fc_maxReceiveWindowIncrement c
     \<and> unat (fc_maxReceiveWindowIncrement c) < 2 ^ 51
     \<and> fc_bytesRead c \<le> fc_highestReceived c \<and> fc_highestReceived c \<le> fc_receiveWindow c
     \<and> unat (fc_highestReceived c) < 2 ^ 62"

text \<open>Only the window, its increment and the time of the last update may differ.\<close>

definition tuned :: "flowController \<Rightarrow> flowController \<Rightarrow> bool" where
  "tuned c c' \<longleftrightarrow> c' = c\<lparr>fc_receiveWindow := fc_receiveWindow c',
      fc_receiveWindowIncrement := fc_receiveWindowIncrement c', fc_lastWindowUpdateTime := fc_lastWindowUpdateTime c'\<rparr>
     \<and> fc_receiveWindow c \<le> fc_receiveWindow c'
     \<and> fc_receiveWindowIncrement c \<le> fc_receiveWindowIncrement c'
     \<and> fc_receiveWindowIncrement c' \<le> fc_maxReceiveWindowIncrement c"

lemma tuned_fields:
  assumes "tuned c c'"
  shows "fc_streamID c' = fc_streamID c" "fc_contributesToConnection c' = fc_contributesToConnection c"
    "fc_bytesSent c' = fc_bytesSent c" "fc_sendWindow c' = fc_sendWindow c"
    "fc_bytesRetrans c' = fc_bytesRetrans c" "fc_bytesRead c' = fc_bytesRead c"
    "fc_highestReceived c' = fc_highestReceived c"
    "fc_maxReceiveWindowIncrement c' = fc_maxReceiveWindowIncrement c"
  using assms by (cases c; cases c'; simp add: tuned_def)+


lemma tuned_refl: "fc_receiveWindowIncrement c \<le> fc_maxReceiveWindowIncrement c \<Longrightarrow> tuned c c"
  by (simp add: tuned_def)

lemma tuned_trans: "tuned a b \<Longrightarrow> tuned b c \<Longrightarrow> tuned a c"
  by (cases a; cases b; cases c; auto simp: tuned_def)

lemma tuned_receiving_ok: "tuned c c' \<Longrightarrow> receiving_ok c \<Longrightarrow> receiving_ok c'"
  by (cases c; cases c'; auto simp: tuned_def receiving_ok_def)

lemma increment_doubled:
  assumes "(i :: ByteCount) \<le> m" "unat m < 2 ^ 51"
  shows "i \<le> min (2 * i) m"
proof -
  have "unat i < 2 ^ 51" using assms by (simp add: word_le_nat_alt)
  then have "unat (2 * i) = 2 * unat i" by (simp add: unat_word_ariths)
  then show ?thesis using assms by (simp add: word_le_nat_alt unat_min)
qed

lemma maybeAdjust_tuned:
  assumes "receiving_ok c"
  shows "tuned c (maybeAdjustWindowIncrement e now c)"
  using assms increment_doubled [of "fc_receiveWindowIncrement c" "fc_maxReceiveWindowIncrement c"]
  by (auto simp: maybeAdjustWindowIncrement_def tuned_def receiving_ok_def)

lemma tuned_window:
  assumes "tuned c c1" "fc_receiveWindow c \<le> w"
  shows "tuned c (c1\<lparr>fc_lastWindowUpdateTime := t, fc_receiveWindow := w\<rparr>)"
proof -
  obtain a b d where c1: "c1 = c\<lparr>fc_receiveWindow := a, fc_receiveWindowIncrement := b, fc_lastWindowUpdateTime := d\<rparr>"
    using assms(1) unfolding tuned_def by blast
  show ?thesis using assms unfolding c1 tuned_def by simp
qed

lemma MaybeUpdateWindow_tuned:
  assumes "receiving_ok c" "MaybeUpdateWindow e now c = ((necessary, newIncrement, offset), c')"
  shows "tuned c c'" "offset = fc_receiveWindow c'"
    "fc_receiveWindowIncrement c' div 2 \<le> fc_receiveWindow c' - fc_bytesRead c'"
    "\<not> necessary \<Longrightarrow> c' = c"
proof -
  define c1 where "c1 = maybeAdjustWindowIncrement e now c"
  have t: "tuned c c1" unfolding c1_def by (rule maybeAdjust_tuned [OF assms(1)])
  note f = tuned_fields [OF t]
  have small: "unat (fc_bytesRead c) < 2 ^ 62" "unat (fc_receiveWindowIncrement c1) < 2 ^ 51"
    "fc_bytesRead c \<le> fc_receiveWindow c"
    using assms(1) t unfolding receiving_ok_def tuned_def word_le_nat_alt by linarith+
  have plus: "unat (fc_bytesRead c + fc_receiveWindowIncrement c1)
      = unat (fc_bytesRead c) + unat (fc_receiveWindowIncrement c1)"
    using small by (intro unat_plus_less) simp
  have grow: "fc_receiveWindow c \<le> fc_bytesRead c + fc_receiveWindowIncrement c1"
    if "fc_receiveWindow c - fc_bytesRead c < fc_receiveWindowIncrement c div 2"
  proof -
    have "unat (fc_receiveWindow c) - unat (fc_bytesRead c) < unat (fc_receiveWindowIncrement c) div 2"
      using that small(3) by (simp add: word_less_nat_alt unat_minus_le unat_div)
    moreover have "unat (fc_receiveWindowIncrement c) \<le> unat (fc_receiveWindowIncrement c1)"
      using t by (simp add: tuned_def word_le_nat_alt)
    ultimately show ?thesis unfolding word_le_nat_alt plus by linarith
  qed
  have half: "i div 2 \<le> (i :: ByteCount)" for i by (simp add: word_le_nat_alt unat_div)
  consider (upd) "fc_receiveWindow c - fc_bytesRead c < fc_receiveWindowIncrement c div 2"
    | (keep) "\<not> fc_receiveWindow c - fc_bytesRead c < fc_receiveWindowIncrement c div 2" by blast
  then have "tuned c c' \<and> offset = fc_receiveWindow c'
    \<and> fc_receiveWindowIncrement c' div 2 \<le> fc_receiveWindow c' - fc_bytesRead c'
    \<and> (\<not> necessary \<longrightarrow> c' = c)"
  proof cases
    case upd
    then have c': "c' = c1\<lparr>fc_lastWindowUpdateTime := now,
        fc_receiveWindow := fc_bytesRead c1 + fc_receiveWindowIncrement c1\<rparr>"
      and o: "offset = fc_receiveWindow c'" "necessary"
      using assms(2) by (auto simp: MaybeUpdateWindow_def Let_def c1_def)
    have "tuned c c'" unfolding c' using tuned_window [OF t] grow [OF upd] f by simp
    then show ?thesis using o f half by (simp add: c')
  next
    case keep
    then have "c' = c" "offset = fc_receiveWindow c"
      using assms(2) by (auto simp: MaybeUpdateWindow_def)
    then show ?thesis using keep assms(1) by (simp add: receiving_ok_def tuned_refl not_less)
  qed
  then show "tuned c c'" "offset = fc_receiveWindow c'"
    "fc_receiveWindowIncrement c' div 2 \<le> fc_receiveWindow c' - fc_bytesRead c'"
    "\<not> necessary \<Longrightarrow> c' = c" by blast+
qed

lemma EnsureMinimum_tuned:
  "fc_receiveWindowIncrement c \<le> fc_maxReceiveWindowIncrement c \<Longrightarrow> tuned c (EnsureMinimumWindowIncrement inc c)"
  by (auto simp: EnsureMinimumWindowIncrement_def tuned_def min_def)

lemma EnsureMinimum_window: "fc_receiveWindow (EnsureMinimumWindowIncrement inc c) = fc_receiveWindow c"
  by (simp add: EnsureMinimumWindowIncrement_def)


section \<open>The manager as a function from streams to controllers\<close>

text \<open>Stream 1 is the crypto stream and stream 3 the header stream (\<^verbatim>\<open>session.newStream\<close>).\<close>

definition streamContributes :: "StreamID \<Rightarrow> bool" where
  "streamContributes sid \<longleftrightarrow> \<not> (sid = 1 \<or> sid = 3)"

definition session_newStream :: "StreamID \<Rightarrow> flowControlManager \<Rightarrow> flowControlManager" where
  "session_newStream sid f = flowControlManager_NewStream sid (streamContributes sid) f"

text \<open>The controller of a stream, a fresh one if the stream is not open yet.\<close>

definition ctl :: "flowControlManager \<Rightarrow> StreamID \<Rightarrow> flowController" where
  "ctl f sid = (case map_of (fm_streamFlowController f) sid of
      Some c \<Rightarrow> c | None \<Rightarrow> newFlowController sid (streamContributes sid) (fm_env f))"

abbreviation is_open :: "flowControlManager \<Rightarrow> StreamID \<Rightarrow> bool" where
  "is_open f sid \<equiv> map_of (fm_streamFlowController f) sid \<noteq> None"

definition total :: "(flowController \<Rightarrow> ByteCount) \<Rightarrow> (StreamID \<Rightarrow> flowController) \<Rightarrow> nat" where
  "total g cs = (\<Sum>sid\<in>UNIV. if streamContributes sid then unat (g (cs sid)) else 0)"

definition manager_wf :: "flowControlManager \<Rightarrow> bool" where
  "manager_wf f \<longleftrightarrow> distinct (map fst (fm_streamFlowController f)) \<and> \<not> is_open f 0
     \<and> (\<forall>sid. fc_streamID (ctl f sid) = sid \<and> fc_contributesToConnection (ctl f sid) = streamContributes sid)
     \<and> fc_streamID (fm_connFlowController f) = 0"

lemma getFlowController_open: "is_open f sid \<Longrightarrow> getFlowController f sid = Inr (ctl f sid)"
  by (auto simp: getFlowController_def ctl_def)

lemma getFlowController_closed: "\<not> is_open f sid \<Longrightarrow> getFlowController f sid = Inl errMapAccess"
  by (simp add: getFlowController_def)

lemma setFlowController_simps [simp]:
  "ctl (setFlowController sid c f) = (ctl f)(sid := c)"
  "fm_env (setFlowController sid c f) = fm_env f"
  "fm_connFlowController (setFlowController sid c f) = fm_connFlowController f"
  "is_open (setFlowController sid c f) j \<longleftrightarrow> j = sid \<or> is_open f j"
  by (auto simp: setFlowController_def ctl_def fun_eq_iff split: option.splits)

lemma ctl_conn [simp]: "ctl (f\<lparr>fm_connFlowController := c\<rparr>) = ctl f"
  by (simp add: ctl_def fun_eq_iff split: option.splits)

lemma manager_wf_set:
  assumes "manager_wf f" "sid \<noteq> 0" "fc_streamID c = sid" "fc_contributesToConnection c = streamContributes sid"
  shows "manager_wf (setFlowController sid c f)"
proof -
  have "distinct (map fst (fm_streamFlowController (setFlowController sid c f)))"
    using assms(1) by (simp add: setFlowController_def manager_wf_def distinct_keys_update)
  then show ?thesis using assms unfolding manager_wf_def setFlowController_simps by simp
qed

lemma manager_wf_conn:
  "manager_wf f \<Longrightarrow> fc_streamID c = 0 \<Longrightarrow> manager_wf (f\<lparr>fm_connFlowController := c\<rparr>)"
  by (simp add: manager_wf_def)

lemma newStream_simps [simp]:
  "ctl (session_newStream sid f) = ctl f"
  "fm_env (session_newStream sid f) = fm_env f"
  "fm_connFlowController (session_newStream sid f) = fm_connFlowController f"
proof -
  have "\<not> is_open f sid \<Longrightarrow> (ctl f)(sid := newFlowController sid (streamContributes sid) (fm_env f)) = ctl f"
    by (auto simp: fun_eq_iff ctl_def)
  then show "ctl (session_newStream sid f) = ctl f"
    "fm_env (session_newStream sid f) = fm_env f"
    "fm_connFlowController (session_newStream sid f) = fm_connFlowController f"
    by (auto simp: session_newStream_def flowControlManager_NewStream_def split: option.splits)
qed

lemma manager_wf_newStream: "manager_wf f \<Longrightarrow> sid \<noteq> 0 \<Longrightarrow> manager_wf (session_newStream sid f)"
  by (auto simp: session_newStream_def flowControlManager_NewStream_def newFlowController_def Let_def
      intro!: manager_wf_set split: option.splits)

lemma total_replace:
  "total g (cs(sid := c)) + (if streamContributes sid then unat (g (cs sid)) else 0)
   = total g cs + (if streamContributes sid then unat (g c) else 0)"
  using sum_replace [where A = UNIV and k = sid and v = c and f = cs
      and h = "\<lambda>i c. if streamContributes i then unat (g c) else 0"]
  by (simp add: total_def)


section \<open>Two ends of a connection\<close>

text \<open>
  A sender and a receiver, each with its flow control manager. \<open>in_flight\<close> holds the end offsets of the
  STREAM frames and the final offsets of the RST_STREAM frames that were sent, \<open>updates\<close> the WINDOW_UPDATE frames.
  Nothing is ever taken out of these sets: a frame may arrive late, several times or never. \<open>gone_sender\<close> and
  \<open>gone_receiver\<close> are auxiliary: they keep the controllers of the streams that were removed, as they were then,
  and no operation of the program reads them.
\<close>

record fcSystem =
  sender :: flowControlManager
  receiver :: flowControlManager
  in_flight :: "(StreamID \<times> ByteCount) set"
  updates :: "WindowUpdate set"
  gone_sender :: "(StreamID \<times> flowController) list"
  gone_receiver :: "(StreamID \<times> flowController) list"

text \<open>
  The steps. The sender adds bytes only within \<^verbatim>\<open>SendWindowSize\<close>, as the stream framer does; the
  application reads only bytes that were received. No stream and no connection carries \<open>2 ^ 62\<close> bytes.
  Either end may remove a stream (\<^verbatim>\<open>session.garbageCollectStreams\<close>); the ID of a removed stream is not opened
  again, which the streams map sees to. A stream that is reset sends how many bytes it had sent. The round trip times
  that tune the windows may change at any moment.
\<close>

inductive fc_step :: "fcSystem \<Rightarrow> fcSystem \<Rightarrow> bool" where
  open_sender: "sid \<noteq> 0 \<Longrightarrow> sid \<notin> fst ` set (gone_sender s) \<Longrightarrow> fc_step s (s\<lparr>sender := session_newStream sid (sender s)\<rparr>)"
| open_receiver: "sid \<noteq> 0 \<Longrightarrow> sid \<notin> fst ` set (gone_receiver s) \<Longrightarrow> fc_step s (s\<lparr>receiver := session_newStream sid (receiver s)\<rparr>)"
| send: "flowControlManager_SendWindowSize (sender s) sid = Inr w \<Longrightarrow> n \<le> w
    \<Longrightarrow> unat (fc_bytesSent (ctl (sender s) sid)) + unat n < 2 ^ 62
    \<Longrightarrow> unat (fc_bytesSent (fm_connFlowController (sender s))) + unat n < 2 ^ 62
    \<Longrightarrow> flowControlManager_AddBytesSent sid n (sender s) = (None, f)
    \<Longrightarrow> fc_step s (s\<lparr>sender := f, in_flight := insert (sid, fc_bytesSent (ctl f sid)) (in_flight s)\<rparr>)"
| deliver: "(sid, off) \<in> in_flight s \<Longrightarrow> is_open (receiver s) sid
    \<Longrightarrow> fc_step s (s\<lparr>receiver := snd (flowControlManager_UpdateHighestReceived sid off (receiver s))\<rparr>)"
| read: "is_open (receiver s) sid
    \<Longrightarrow> n \<le> fc_highestReceived (ctl (receiver s) sid) - fc_bytesRead (ctl (receiver s) sid)
    \<Longrightarrow> fc_step s (s\<lparr>receiver := snd (flowControlManager_AddBytesRead now sid n (receiver s))\<rparr>)"
| update: "GetWindowUpdates now force (receiver s) = (us, f)
    \<Longrightarrow> fc_step s (s\<lparr>receiver := f, updates := set us \<union> updates s\<rparr>)"
| deliver_update: "u \<in> updates s
    \<Longrightarrow> fc_step s (s\<lparr>sender := snd (flowControlManager_UpdateWindow (upd_StreamID u) (upd_Offset u) (sender s))\<rparr>)"
| reset: "is_open (sender s) sid
    \<Longrightarrow> fc_step s (s\<lparr>in_flight := insert (sid, fc_bytesSent (ctl (sender s) sid)) (in_flight s)\<rparr>)"
| deliver_reset: "(sid, off) \<in> in_flight s \<Longrightarrow> is_open (receiver s) sid
    \<Longrightarrow> fc_step s (s\<lparr>receiver := snd (flowControlManager_ResetStream sid off (receiver s))\<rparr>)"
| remove_sender: "is_open (sender s) sid
    \<Longrightarrow> fc_step s (s\<lparr>sender := flowControlManager_RemoveStream sid (sender s),
                     gone_sender := (sid, ctl (sender s) sid) # gone_sender s\<rparr>)"
| remove_receiver: "is_open (receiver s) sid
    \<Longrightarrow> fc_step s (s\<lparr>receiver := flowControlManager_RemoveStream sid (receiver s),
                     gone_receiver := (sid, ctl (receiver s) sid) # gone_receiver s\<rparr>)"
| rtt_sender: "env_connectionParameters e = env_connectionParameters (fm_env (sender s))
    \<Longrightarrow> fc_step s (s\<lparr>sender := (sender s)\<lparr>fm_env := e\<rparr>\<rparr>)"
| rtt_receiver: "env_connectionParameters e = env_connectionParameters (fm_env (receiver s))
    \<Longrightarrow> fc_step s (s\<lparr>receiver := (receiver s)\<lparr>fm_env := e\<rparr>\<rparr>)"

text \<open>
  Where it starts: the sender's initial windows are within the receiver's (see the negotiation of
  parameters), and the receiver's initial increments within its maxima.
\<close>

definition windows_agree :: "fcEnv \<Rightarrow> fcEnv \<Rightarrow> bool" where
  "windows_agree es er \<longleftrightarrow>
     (let cs = env_connectionParameters es; cr = env_connectionParameters er in
      GetSendStreamFlowControlWindow cs \<le> GetReceiveStreamFlowControlWindow cr
      \<and> GetSendConnectionFlowControlWindow cs \<le> GetReceiveConnectionFlowControlWindow cr
      \<and> GetReceiveStreamFlowControlWindow cr \<le> GetMaxReceiveStreamFlowControlWindow cr
      \<and> GetReceiveConnectionFlowControlWindow cr \<le> GetMaxReceiveConnectionFlowControlWindow cr
      \<and> unat (GetMaxReceiveStreamFlowControlWindow cr) < 2 ^ 51
      \<and> unat (GetMaxReceiveConnectionFlowControlWindow cr) < 2 ^ 51)"

inductive fc_reachable :: "fcEnv \<Rightarrow> fcEnv \<Rightarrow> fcSystem \<Rightarrow> bool" for es er where
  start: "fc_reachable es er \<lparr>sender = NewFlowControlManager es, receiver = NewFlowControlManager er,
            in_flight = {}, updates = {}, gone_sender = [], gone_receiver = []\<rparr>"
| step: "fc_reachable es er s \<Longrightarrow> fc_step s s' \<Longrightarrow> fc_reachable es er s'"

subsection \<open>The invariant\<close>

text \<open>
  One controller of the sender against the controller of the receiver for the same stream, or for the
  connection: what was received was sent, what was sent was granted, what was granted is allowed.
  \<open>low\<close> is the receiver's initial window, below which no update ever goes.
\<close>

definition pair_ok :: "fcEnv \<Rightarrow> ByteCount \<Rightarrow> flowController \<Rightarrow> flowController \<Rightarrow> bool" where
  "pair_ok es low c d \<longleftrightarrow> receiving_ok d
     \<and> fc_highestReceived d \<le> fc_bytesSent c
     \<and> fc_bytesSent c \<le> flowController_getSendWindow es c
     \<and> flowController_getSendWindow es c \<le> fc_receiveWindow d
     \<and> unat (fc_bytesSent c) < 2 ^ 62
     \<and> low \<le> fc_receiveWindow d
     \<and> flowController_getSendWindow es (c\<lparr>fc_sendWindow := 0\<rparr>) \<le> low"

definition initial_window :: "fcEnv \<Rightarrow> StreamID \<Rightarrow> ByteCount" where
  "initial_window e sid = (if sid = 0 then GetReceiveConnectionFlowControlWindow (env_connectionParameters e)
     else GetReceiveStreamFlowControlWindow (env_connectionParameters e))"

definition receive_window :: "flowControlManager \<Rightarrow> StreamID \<Rightarrow> ByteCount" where
  "receive_window f sid = fc_receiveWindow (if sid = 0 then fm_connFlowController f else ctl f sid)"

abbreviation same_parameters :: "fcEnv \<Rightarrow> fcEnv \<Rightarrow> bool" where
  "same_parameters e e' \<equiv> env_connectionParameters e = env_connectionParameters e'"

lemma same_parameters_simps:
  assumes "same_parameters e e'"
  shows "newFlowController sid b e = newFlowController sid b e'"
    "flowController_getSendWindow e c = flowController_getSendWindow e' c"
    "flowController_SendWindowSize e c = flowController_SendWindowSize e' c"
  using assms by (simp_all add: newFlowController_def flowController_SendWindowSize_def flowController_getSendWindow_def)

definition fc_inv :: "fcEnv \<Rightarrow> fcEnv \<Rightarrow> fcSystem \<Rightarrow> bool" where
  "fc_inv es er s \<longleftrightarrow>
     manager_wf (sender s) \<and> manager_wf (receiver s) \<and> same_parameters (fm_env (sender s)) es
     \<and> same_parameters (fm_env (receiver s)) er
     \<and> (\<forall>sid. pair_ok es (initial_window er sid) (ctl (sender s) sid) (ctl (receiver s) sid))
     \<and> pair_ok es (initial_window er 0) (fm_connFlowController (sender s)) (fm_connFlowController (receiver s))
     \<and> unat (fc_bytesSent (fm_connFlowController (sender s))) = total fc_bytesSent (ctl (sender s))
     \<and> unat (fc_highestReceived (fm_connFlowController (receiver s))) = total fc_highestReceived (ctl (receiver s))
     \<and> unat (fc_bytesRead (fm_connFlowController (receiver s))) = total fc_bytesRead (ctl (receiver s))
     \<and> (\<forall>(sid, off) \<in> in_flight s. sid \<noteq> 0 \<and> off \<le> fc_bytesSent (ctl (sender s) sid))
     \<and> (\<forall>u \<in> updates s. initial_window er (upd_StreamID u) \<le> upd_Offset u
          \<and> upd_Offset u \<le> receive_window (receiver s) (upd_StreamID u))"

lemma total_mono:
  "(\<And>sid. streamContributes sid \<Longrightarrow> g (cs sid) \<le> h (ds sid)) \<Longrightarrow> total g cs \<le> total h ds"
  unfolding total_def by (rule sum_mono) (simp add: word_le_nat_alt)


subsection \<open>One pair of controllers\<close>

lemma SendWindowSize_bound:
  assumes "n \<le> flowController_SendWindowSize e c" "fc_bytesSent c \<le> flowController_getSendWindow e c"
    "unat (fc_bytesSent c) + unat n < 2 ^ 62"
  shows "unat (fc_bytesSent c + n) = unat (fc_bytesSent c) + unat n"
    "fc_bytesSent c + n \<le> flowController_getSendWindow e c"
proof -
  show u: "unat (fc_bytesSent c + n) = unat (fc_bytesSent c) + unat n"
    using assms(3) by (intro unat_plus_less) simp
  have "unat n \<le> unat (flowController_getSendWindow e c) - unat (fc_bytesSent c)"
    using assms(1,2) by (simp add: flowController_SendWindowSize_def Let_def word_le_nat_alt not_less [symmetric]
        unat_minus_le split: if_splits)
  then show "fc_bytesSent c + n \<le> flowController_getSendWindow e c"
    using assms(2) unfolding word_le_nat_alt u by linarith
qed

lemma pair_send:
  assumes "pair_ok es low c d" "n \<le> flowController_SendWindowSize es c" "unat (fc_bytesSent c) + unat n < 2 ^ 62"
  shows "pair_ok es low (flowController_AddBytesSent n c) d"
proof -
  note b = SendWindowSize_bound [OF assms(2) _ assms(3)]
  have le: "fc_bytesSent c \<le> flowController_getSendWindow es c" using assms(1) by (simp add: pair_ok_def)
  have w: "flowController_getSendWindow es (flowController_AddBytesSent n c) = flowController_getSendWindow es c"
    "flowController_getSendWindow es ((flowController_AddBytesSent n c)\<lparr>fc_sendWindow := 0\<rparr>)
      = flowController_getSendWindow es (c\<lparr>fc_sendWindow := 0\<rparr>)"
    by (simp_all add: flowController_getSendWindow_def flowController_AddBytesSent_def)
  have m: "fc_bytesSent c \<le> fc_bytesSent c + n" using b(1) [OF le] by (simp add: word_le_nat_alt)
  show ?thesis
    using assms(1,3) b [OF le] m unfolding pair_ok_def w by (auto simp: flowController_AddBytesSent_def)
qed

lemma pair_receive:
  assumes "pair_ok es low c d" "off \<le> fc_bytesSent c" "fc_highestReceived d \<le> off"
  shows "pair_ok es low c (d\<lparr>fc_highestReceived := off\<rparr>)"
proof -
  have "unat off < 2 ^ 62" "off \<le> fc_receiveWindow d" "fc_bytesRead d \<le> off"
    using assms unfolding pair_ok_def receiving_ok_def word_le_nat_alt by linarith+
  then show ?thesis using assms by (simp add: pair_ok_def receiving_ok_def)
qed

lemma pair_read:
  assumes "pair_ok es low c d" "fc_bytesRead d + n \<le> fc_highestReceived d"
  shows "pair_ok es low c (flowController_AddBytesRead now n d)"
  using assms by (auto simp: pair_ok_def receiving_ok_def flowController_AddBytesRead_def Let_def)

lemma pair_tuned:
  assumes "pair_ok es low c d" "tuned d d'"
  shows "pair_ok es low c d'"
  using assms tuned_receiving_ok [OF assms(2)] tuned_fields(7) [OF assms(2)]
  by (auto simp: pair_ok_def tuned_def)

lemma pair_update:
  assumes "pair_ok es low c d" "low \<le> off" "off \<le> fc_receiveWindow d"
  shows "pair_ok es low (snd (flowController_UpdateSendWindow off c)) d"
proof (cases "fc_sendWindow c < off")
  case True
  let ?c = "c\<lparr>fc_sendWindow := off\<rparr>"
  have nz: "off \<noteq> 0" using True by auto
  have w: "flowController_getSendWindow es ?c = off"
    "flowController_getSendWindow es (?c\<lparr>fc_sendWindow := 0\<rparr>) = flowController_getSendWindow es (c\<lparr>fc_sendWindow := 0\<rparr>)"
    using nz by (simp_all add: flowController_getSendWindow_def)
  have "flowController_getSendWindow es c \<le> off"
  proof (cases "fc_sendWindow c = 0")
    case True
    then have "c\<lparr>fc_sendWindow := 0\<rparr> = c" by simp
    then show ?thesis using assms(1,2) by (auto simp: pair_ok_def)
  next
    case False
    then show ?thesis using \<open>fc_sendWindow c < off\<close> by (simp add: flowController_getSendWindow_def)
  qed
  then have "pair_ok es low ?c d"
    using assms unfolding pair_ok_def w by auto
  then show ?thesis using True by (simp add: flowController_UpdateSendWindow_def)
next
  case False
  then show ?thesis using assms(1) by (simp add: flowController_UpdateSendWindow_def)
qed

subsection \<open>The steps preserve the invariant\<close>

lemma fc_invD:
  assumes "fc_inv es er s"
  shows "manager_wf (sender s)" "manager_wf (receiver s)" "same_parameters (fm_env (sender s)) es"
    "same_parameters (fm_env (receiver s)) er"
    "pair_ok es (initial_window er sid) (ctl (sender s) sid) (ctl (receiver s) sid)"
    "pair_ok es (initial_window er 0) (fm_connFlowController (sender s)) (fm_connFlowController (receiver s))"
    "unat (fc_bytesSent (fm_connFlowController (sender s))) = total fc_bytesSent (ctl (sender s))"
    "unat (fc_highestReceived (fm_connFlowController (receiver s))) = total fc_highestReceived (ctl (receiver s))"
    "unat (fc_bytesRead (fm_connFlowController (receiver s))) = total fc_bytesRead (ctl (receiver s))"
    "(sid, off) \<in> in_flight s \<Longrightarrow> sid \<noteq> 0 \<and> off \<le> fc_bytesSent (ctl (sender s) sid)"
    "u \<in> updates s \<Longrightarrow> initial_window er (upd_StreamID u) \<le> upd_Offset u
       \<and> upd_Offset u \<le> receive_window (receiver s) (upd_StreamID u)"
  using assms unfolding fc_inv_def by auto

lemma wf_ctl:
  assumes "manager_wf f"
  shows "fc_streamID (ctl f sid) = sid" "fc_contributesToConnection (ctl f sid) = streamContributes sid"
    "fc_streamID (fm_connFlowController f) = 0" "is_open f sid \<Longrightarrow> sid \<noteq> 0"
  using assms unfolding manager_wf_def by auto

lemma onBoth_open:
  assumes "manager_wf f" "is_open f sid"
  shows "onBoth op sid f = (None, let f1 = setFlowController sid (op (ctl f sid)) f in
     if streamContributes sid then f1\<lparr>fm_connFlowController := op (fm_connFlowController f)\<rparr> else f1)"
  using assms wf_ctl [OF assms(1)]
  by (simp add: onBoth_def getFlowController_open [OF assms(2)] Let_def flowController_ContributesToConnection_def)

lemma manager_wf_both:
  assumes "manager_wf f" "is_open f sid"
    and "\<And>c. fc_streamID (op c) = fc_streamID c \<and> fc_contributesToConnection (op c) = fc_contributesToConnection c"
  shows "manager_wf (snd (onBoth op sid f))"
  using assms wf_ctl(1-3) [OF assms(1)] wf_ctl(4) [OF assms(1,2)]
  by (auto simp: onBoth_open Let_def intro!: manager_wf_set manager_wf_conn)

lemma inv_send:
  assumes I: "fc_inv es er s"
    and w: "flowControlManager_SendWindowSize (sender s) sid = Inr w" "n \<le> w"
    and lim: "unat (fc_bytesSent (ctl (sender s) sid)) + unat n < 2 ^ 62"
      "unat (fc_bytesSent (fm_connFlowController (sender s))) + unat n < 2 ^ 62"
    and f: "flowControlManager_AddBytesSent sid n (sender s) = (None, f)"
  shows "fc_inv es er (s\<lparr>sender := f, in_flight := insert (sid, fc_bytesSent (ctl f sid)) (in_flight s)\<rparr>)"
proof -
  let ?c = "ctl (sender s) sid" and ?k = "fm_connFlowController (sender s)"
  let ?add = "flowController_AddBytesSent n"
  have op: "is_open (sender s) sid"
    using f by (cases "is_open (sender s) sid")
      (auto simp: flowControlManager_AddBytesSent_def onBoth_def getFlowController_closed)
  note wf = fc_invD(1) [OF I] and env = fc_invD(3) [OF I]
  have sz: "n \<le> flowController_SendWindowSize es ?c"
    "streamContributes sid \<Longrightarrow> n \<le> flowController_SendWindowSize es ?k"
    using w wf_ctl(2) [OF wf, of sid] same_parameters_simps(3) [OF env] getFlowController_open [OF op]
    by (auto simp: flowControlManager_SendWindowSize_def flowController_ContributesToConnection_def Let_def
        split: if_splits)
  have ps: "pair_ok es (initial_window er sid) (?add ?c) (ctl (receiver s) sid)"
    by (rule pair_send [OF fc_invD(5) [OF I] sz(1) lim(1)])
  have pk: "pair_ok es (initial_window er 0) (?add ?k) (fm_connFlowController (receiver s))" if "streamContributes sid"
    by (rule pair_send [OF fc_invD(6) [OF I] sz(2) [OF that] lim(2)])
  have fe: "f = (let f1 = setFlowController sid (?add ?c) (sender s) in
      if streamContributes sid then f1\<lparr>fm_connFlowController := ?add ?k\<rparr> else f1)"
    using f by (simp add: flowControlManager_AddBytesSent_def onBoth_open [OF wf op])
  have wf': "manager_wf f"
    using manager_wf_both [OF wf op, of ?add] f
    by (simp add: flowControlManager_AddBytesSent_def flowController_AddBytesSent_def)
  have cf: "ctl f = (ctl (sender s))(sid := ?add ?c)" "same_parameters (fm_env f) es"
      "fm_connFlowController f = (if streamContributes sid then ?add ?k else ?k)"
    using env by (simp_all add: fe Let_def)
  have plus: "unat (fc_bytesSent (?add ?c)) = unat (fc_bytesSent ?c) + unat n"
    "unat (fc_bytesSent (?add ?k)) = unat (fc_bytesSent ?k) + unat n"
    unfolding flowController_AddBytesSent_def using lim by (auto intro!: unat_plus_less)
  have tot: "unat (fc_bytesSent (fm_connFlowController f)) = total fc_bytesSent (ctl f)"
    using total_replace [of fc_bytesSent "ctl (sender s)" sid "?add ?c"] fc_invD(7) [OF I] plus
    by (simp add: cf split: if_splits)
  have fl: "sid' \<noteq> 0 \<and> off \<le> fc_bytesSent (ctl f sid')" if "(sid', off) \<in> insert (sid, fc_bytesSent (ctl f sid)) (in_flight s)" for sid' off
  proof -
    have "fc_bytesSent ?c \<le> fc_bytesSent (?add ?c)" using plus by (simp add: word_le_nat_alt)
    then show ?thesis
      using that fc_invD(10) [OF I] wf_ctl(4) [OF wf op] by (fastforce simp: cf)
  qed
  show ?thesis
    using I wf' ps pk tot fl unfolding fc_inv_def by (auto simp: cf)
qed


lemma total_same: "g c = g (cs sid) \<Longrightarrow> total g (cs(sid := c)) = total g cs"
  using total_replace [of g cs sid c] by (auto split: if_splits)

lemma unat_split_less: "x < (y :: u64) \<Longrightarrow> unat y = unat x + unat (y - x)"
  by (simp add: unat_minus_le word_less_nat_alt word_le_nat_alt)

text \<open>Delivering a frame: both checks pass, and the connection keeps the sum of its streams.\<close>

lemma deliver_ok:
  assumes I: "fc_inv es er s" and fl: "(sid, off) \<in> in_flight s" and op: "is_open (receiver s) sid"
  shows "fst (flowControlManager_UpdateHighestReceived sid off (receiver s)) = None"
    "fc_inv es er (s\<lparr>receiver := snd (flowControlManager_UpdateHighestReceived sid off (receiver s))\<rparr>)"
proof -
  let ?d = "ctl (receiver s) sid" and ?k = "fm_connFlowController (receiver s)"
  note wf = fc_invD(2) [OF I]
  define d' where "d' = snd (flowController_UpdateHighestReceived off ?d)"
  define inc where "inc = fst (fst (flowController_UpdateHighestReceived off ?d))"
  define k' where "k' = flowController_IncrementHighestReceived inc ?k"
  define f1 where "f1 = setFlowController sid d' (receiver s)"
  define f' where "f' = (if streamContributes sid then f1\<lparr>fm_connFlowController := k'\<rparr> else f1)"
  have sent: "off \<le> fc_bytesSent (ctl (sender s) sid)" using fc_invD(10) [OF I fl] by simp
  have P: "pair_ok es (initial_window er sid) (ctl (sender s) sid) ?d" by (rule fc_invD(5) [OF I])
  have pd: "pair_ok es (initial_window er sid) (ctl (sender s) sid) d'"
    using pair_receive [OF P sent] P by (auto simp: d'_def flowController_UpdateHighestReceived_def)
  have incr: "unat (fc_highestReceived d') = unat (fc_highestReceived ?d) + unat inc"
    "fc_bytesRead d' = fc_bytesRead ?d" "fc_streamID d' = fc_streamID ?d"
    "fc_contributesToConnection d' = fc_contributesToConnection ?d"
    "fc_receiveWindow d' = fc_receiveWindow ?d"
    by (auto simp: d'_def inc_def flowController_UpdateHighestReceived_def intro: unat_split_less)
  have cf: "ctl f' = (ctl (receiver s))(sid := d')" by (simp add: f'_def f1_def)
  have hi: "total fc_highestReceived (ctl f') \<le> total fc_bytesSent (ctl (sender s))"
    using pd fc_invD(5) [OF I] by (intro total_mono) (auto simp: cf pair_ok_def)
  have sum: "total fc_highestReceived (ctl f') = total fc_highestReceived (ctl (receiver s)) + unat inc"
    if "streamContributes sid"
    using total_replace [of fc_highestReceived "ctl (receiver s)" sid d'] incr that by (simp add: cf)
  have big: "unat (fc_highestReceived ?k) + unat inc \<le> unat (fc_bytesSent (fm_connFlowController (sender s)))"
    if "streamContributes sid"
    using hi sum [OF that] fc_invD(7,8) [OF I] by simp
  have kh: "unat (fc_highestReceived k') = unat (fc_highestReceived ?k) + unat inc" if "streamContributes sid"
    using unat_plus_le [OF big [OF that]] by (simp add: k'_def flowController_IncrementHighestReceived_def)
  have pk: "pair_ok es (initial_window er 0) (fm_connFlowController (sender s)) k'" if "streamContributes sid"
    using pair_receive [OF fc_invD(6) [OF I], of "fc_highestReceived ?k + inc"] big [OF that] kh [OF that]
    by (simp add: k'_def flowController_IncrementHighestReceived_def word_le_nat_alt)
  have nv: "pair_ok es low c d \<Longrightarrow> \<not> CheckFlowControlViolation d" for low c d
    by (simp add: pair_ok_def receiving_ok_def CheckFlowControlViolation_def not_less)
  have step: "flowControlManager_UpdateHighestReceived sid off (receiver s) = (None, f')"
    using nv [OF pd] nv [OF pk] wf_ctl(2) [OF wf, of sid] incr(4)
    by (auto simp: flowControlManager_UpdateHighestReceived_def getFlowController_open [OF op] accountReceived_def
        split_beta d'_def [symmetric] inc_def [symmetric] Let_def f1_def [symmetric] f'_def k'_def [symmetric]
        flowController_ContributesToConnection_def) (simp_all add: f1_def k'_def)
  have wf': "manager_wf f'"
    using wf incr wf_ctl(1-3) [OF wf] wf_ctl(4) [OF wf op]
    by (auto simp: f'_def f1_def k'_def flowController_IncrementHighestReceived_def
        intro!: manager_wf_set manager_wf_conn)
  have tots: "unat (fc_highestReceived (fm_connFlowController f')) = total fc_highestReceived (ctl f')"
    "unat (fc_bytesRead (fm_connFlowController f')) = total fc_bytesRead (ctl f')"
    using total_same [of fc_bytesRead d' "ctl (receiver s)" sid]
      total_replace [of fc_highestReceived "ctl (receiver s)" sid d'] incr(1,2) kh sum fc_invD(8,9) [OF I]
    unfolding cf by (auto simp: f'_def f1_def k'_def flowController_IncrementHighestReceived_def)
  have rw: "receive_window f' i = receive_window (receiver s) i" for i
    using incr(5) by (simp add: receive_window_def cf)
      (simp add: f'_def f1_def k'_def flowController_IncrementHighestReceived_def)
  have conn: "pair_ok es (initial_window er 0) (fm_connFlowController (sender s)) (fm_connFlowController f')"
    "same_parameters (fm_env f') er"
    using pk fc_invD(4,6) [OF I] by (simp_all add: f'_def f1_def)
  show "fst (flowControlManager_UpdateHighestReceived sid off (receiver s)) = None"
    by (simp add: step)
  show "fc_inv es er (s\<lparr>receiver := snd (flowControlManager_UpdateHighestReceived sid off (receiver s))\<rparr>)"
    using I wf' pd tots conn unfolding step fc_inv_def by (auto simp: cf rw)
qed


lemma inv_read:
  assumes I: "fc_inv es er s" and op: "is_open (receiver s) sid"
    and n: "n \<le> fc_highestReceived (ctl (receiver s) sid) - fc_bytesRead (ctl (receiver s) sid)"
  shows "fc_inv es er (s\<lparr>receiver := snd (flowControlManager_AddBytesRead now sid n (receiver s))\<rparr>)"
proof -
  let ?d = "ctl (receiver s) sid" and ?k = "fm_connFlowController (receiver s)"
  let ?add = "flowController_AddBytesRead now n"
  define f' where "f' = snd (flowControlManager_AddBytesRead now sid n (receiver s))"
  note wf = fc_invD(2) [OF I]
  have add: "fc_highestReceived (?add c) = fc_highestReceived c" "fc_receiveWindow (?add c) = fc_receiveWindow c"
    "fc_bytesRead (?add c) = fc_bytesRead c + n" "fc_streamID (?add c) = fc_streamID c"
    "fc_contributesToConnection (?add c) = fc_contributesToConnection c" for c
    by (simp_all add: flowController_AddBytesRead_def Let_def)
  have f': "f' = (let f1 = setFlowController sid (?add ?d) (receiver s) in
     if streamContributes sid then f1\<lparr>fm_connFlowController := ?add ?k\<rparr> else f1)"
    by (simp add: f'_def flowControlManager_AddBytesRead_def onBoth_open [OF wf op])
  have cf: "ctl f' = (ctl (receiver s))(sid := ?add ?d)" "same_parameters (fm_env f') er"
    "fm_connFlowController f' = (if streamContributes sid then ?add ?k else ?k)"
    using fc_invD(4) [OF I] by (simp_all add: f' Let_def)
  have le: "fc_bytesRead ?d \<le> fc_highestReceived ?d"
    using fc_invD(5) [OF I, of sid] by (simp add: pair_ok_def receiving_ok_def)
  have sum: "unat (fc_bytesRead ?d) + unat n \<le> unat (fc_highestReceived ?d)"
    using n le by (simp add: word_le_nat_alt unat_minus_le)
  then have plus: "unat (fc_bytesRead ?d + n) = unat (fc_bytesRead ?d) + unat n"
    by (rule unat_plus_le)
  have pd: "pair_ok es (initial_window er sid) (ctl (sender s) sid) (?add ?d)"
    using sum plus by (intro pair_read [OF fc_invD(5) [OF I]]) (simp add: word_le_nat_alt)
  have tot: "total fc_bytesRead (ctl f') = total fc_bytesRead (ctl (receiver s)) + unat n" if "streamContributes sid"
    using total_replace [of fc_bytesRead "ctl (receiver s)" sid "?add ?d"] that plus by (simp add: cf add)
  have "total fc_bytesRead (ctl f') \<le> total fc_highestReceived (ctl (receiver s))"
    using fc_invD(5) [OF I] sum plus
    by (intro total_mono) (auto simp: cf add pair_ok_def receiving_ok_def word_le_nat_alt)
  then have ksum: "unat (fc_bytesRead ?k) + unat n \<le> unat (fc_highestReceived ?k)" if "streamContributes sid"
    using tot [OF that] fc_invD(8,9) [OF I] by simp
  then have kplus: "unat (fc_bytesRead ?k + n) = unat (fc_bytesRead ?k) + unat n" if "streamContributes sid"
    using that unat_plus_le by blast
  have pk: "pair_ok es (initial_window er 0) (fm_connFlowController (sender s)) (fm_connFlowController f')"
    using pair_read [OF fc_invD(6) [OF I], of n now] fc_invD(6) [OF I] ksum kplus
    by (auto simp: cf word_le_nat_alt)
  have wf': "manager_wf f'"
    using manager_wf_both [OF wf op, of ?add] by (simp add: f'_def flowControlManager_AddBytesRead_def add)
  have tots: "unat (fc_highestReceived (fm_connFlowController f')) = total fc_highestReceived (ctl f')"
    "unat (fc_bytesRead (fm_connFlowController f')) = total fc_bytesRead (ctl f')"
    using total_same [of fc_highestReceived "?add ?d" "ctl (receiver s)" sid]
      total_replace [of fc_bytesRead "ctl (receiver s)" sid "?add ?d"] tot kplus fc_invD(8,9) [OF I]
    by (auto simp: cf add)
  have rw: "receive_window f' i = receive_window (receiver s) i" for i
    by (simp add: receive_window_def cf add)
  show ?thesis
    using I wf' pd pk tots unfolding f'_def [symmetric] fc_inv_def by (auto simp: cf rw)
qed

text \<open>At least half an increment is left to the peer.\<close>

definition window_half_open :: "flowController \<Rightarrow> bool" where
  "window_half_open c \<longleftrightarrow> fc_receiveWindowIncrement c div 2 \<le> fc_receiveWindow c - fc_bytesRead c"

text \<open>Window updates: every controller is tuned, and the offsets sent are the new windows.\<close>

lemma windowUpdates_loop_tuned:
  assumes "windowUpdates_loop e now force cs conn = (us, cs', conn')"
    and "\<forall>(sid, c) \<in> set cs. receiving_ok c" "receiving_ok conn" "distinct (map fst cs)"
  shows "map fst cs' = map fst cs \<and> tuned conn conn' \<and> fc_receiveWindow conn' = fc_receiveWindow conn
    \<and> (\<forall>sid c. map_of cs sid = Some c \<longrightarrow> (\<exists>c'. map_of cs' sid = Some c' \<and> tuned c c' \<and> window_half_open c'
          \<and> (c' = c \<or> \<lparr>upd_StreamID = sid, upd_Offset = fc_receiveWindow c'\<rparr> \<in> set us)))
    \<and> (\<forall>u \<in> set us. \<exists>c'. map_of cs' (upd_StreamID u) = Some c' \<and> upd_Offset u = fc_receiveWindow c')"
  using assms
proof (induction cs arbitrary: conn us cs' conn')
  case Nil
  then show ?case by (auto simp: receiving_ok_def tuned_refl)
next
  case (Cons p cs)
  obtain sid c where p: "p = (sid, c)" by force
  obtain necessary newInc offset c1 where m: "MaybeUpdateWindow e now c = ((necessary, newInc, offset), c1)"
    by (metis surj_pair)
  define conn1 where "conn1 = (if (force \<or> necessary) \<and> flowController_ContributesToConnection c1 \<and> newInc \<noteq> 0
      then EnsureMinimumWindowIncrement (connectionIncrement newInc) conn else conn)"
  obtain res cs1 conn2 where l: "windowUpdates_loop e now force cs conn1 = (res, cs1, conn2)"
    by (metis surj_pair)
  have out: "us = (if force \<or> necessary then [\<lparr>upd_StreamID = sid, upd_Offset = offset\<rparr>] else []) @ res"
    "cs' = (sid, c1) # cs1" "conn' = conn2"
    using Cons.prems(1) by (auto simp: p m Let_def conn1_def [symmetric] l)
  have "receiving_ok c" using Cons.prems(2) p by simp
  note t = MaybeUpdateWindow_tuned [OF this m]
  have tc: "tuned conn conn1" "fc_receiveWindow conn1 = fc_receiveWindow conn"
    using Cons.prems(3) by (auto simp: conn1_def receiving_ok_def EnsureMinimum_window
        intro: tuned_refl EnsureMinimum_tuned)
  note IH = Cons.IH [OF l _ tuned_receiving_ok [OF tc(1) Cons.prems(3)]]
  have ih: "map fst cs1 = map fst cs" "tuned conn1 conn2" "fc_receiveWindow conn2 = fc_receiveWindow conn1"
    "\<forall>sid c. map_of cs sid = Some c \<longrightarrow> (\<exists>c'. map_of cs1 sid = Some c' \<and> tuned c c' \<and> window_half_open c'
          \<and> (c' = c \<or> \<lparr>upd_StreamID = sid, upd_Offset = fc_receiveWindow c'\<rparr> \<in> set res))"
    "\<forall>u \<in> set res. \<exists>c'. map_of cs1 (upd_StreamID u) = Some c' \<and> upd_Offset u = fc_receiveWindow c'"
    using IH Cons.prems(2,4) p by auto
  have new: "sid \<notin> fst ` set cs1" using Cons.prems(4) p ih(1) by (metis distinct.simps(2) fst_conv list.simps(9) set_map)
  have res: "upd_StreamID u \<noteq> sid" if "u \<in> set res" for u
    using ih(5) that new by (metis map_of_eq_None_iff option.distinct(1))
  show ?case
    unfolding out p using ih(1) tuned_trans [OF tc(1) ih(2)] ih(3-5) tc(2) t(1,2,4) res t(3)
    by (auto simp: window_half_open_def)
qed


lemma inv_tuned:
  assumes I: "fc_inv es er s"
    and wf: "manager_wf f" and env: "same_parameters (fm_env f) er"
    and t: "\<And>sid. tuned (ctl (receiver s) sid) (ctl f sid)"
    and tk: "tuned (fm_connFlowController (receiver s)) (fm_connFlowController f)"
    and us: "\<And>u. u \<in> us \<Longrightarrow> upd_Offset u = receive_window f (upd_StreamID u)"
  shows "fc_inv es er (s\<lparr>receiver := f, updates := us \<union> updates s\<rparr>)"
proof -
  have tot: "total g (ctl f) = total g (ctl (receiver s))" if "\<And>sid. g (ctl f sid) = g (ctl (receiver s) sid)" for g
    unfolding total_def by (rule sum.cong) (simp_all add: that)
  have rw: "receive_window (receiver s) sid \<le> receive_window f sid" for sid
    using t [of sid] tk by (simp add: receive_window_def tuned_def)
  have low: "initial_window er sid \<le> receive_window (receiver s) sid" for sid
    using fc_invD(5) [OF I, of sid] fc_invD(6) [OF I] by (simp add: receive_window_def pair_ok_def)
  have new: "initial_window er (upd_StreamID u) \<le> upd_Offset u \<and> upd_Offset u \<le> receive_window f (upd_StreamID u)"
    if "u \<in> us \<union> updates s" for u
  proof (cases "u \<in> us")
    case True
    then show ?thesis using us [OF True] order_trans [OF low rw] by simp
  next
    case False
    then show ?thesis using that fc_invD(11) [OF I, of u] order_trans [OF _ rw] by blast
  qed
  have tots: "total fc_highestReceived (ctl f) = total fc_highestReceived (ctl (receiver s))"
    "total fc_bytesRead (ctl f) = total fc_bytesRead (ctl (receiver s))"
    using tuned_fields(6,7) [OF t] by (auto intro: tot)
  show ?thesis
    using I wf env pair_tuned [OF fc_invD(5) [OF I] t] pair_tuned [OF fc_invD(6) [OF I] tk] new
      tots tuned_fields(6,7) [OF tk]
    unfolding fc_inv_def by simp
qed

lemma GetWindowUpdates_tuned:
  assumes wf: "manager_wf r" and ok: "\<forall>sid. is_open r sid \<longrightarrow> receiving_ok (ctl r sid)"
    and okc: "receiving_ok (fm_connFlowController r)" and g: "GetWindowUpdates now force r = (us, f)"
  shows "map fst (fm_streamFlowController f) = map fst (fm_streamFlowController r)" "fm_env f = fm_env r"
    "is_open r sid \<Longrightarrow> tuned (ctl r sid) (ctl f sid) \<and> window_half_open (ctl f sid)
       \<and> (ctl f sid = ctl r sid \<or> \<lparr>upd_StreamID = sid, upd_Offset = fc_receiveWindow (ctl f sid)\<rparr> \<in> set us)"
    "tuned (fm_connFlowController r) (fm_connFlowController f)"
    "window_half_open (fm_connFlowController f)"
    "fc_receiveWindow (fm_connFlowController f) = fc_receiveWindow (fm_connFlowController r)
       \<or> \<lparr>upd_StreamID = 0, upd_Offset = fc_receiveWindow (fm_connFlowController f)\<rparr> \<in> set us"
    "u \<in> set us \<Longrightarrow> (upd_StreamID u = 0 \<or> is_open r (upd_StreamID u)) \<and> upd_Offset u = receive_window f (upd_StreamID u)"
proof -
  let ?cs = "fm_streamFlowController r"
  obtain res cs' conn' where l: "windowUpdates_loop (fm_env r) now force ?cs (fm_connFlowController r) = (res, cs', conn')"
    by (metis surj_pair)
  obtain necessary newInc offset conn1 where m: "MaybeUpdateWindow (fm_env r) now conn' = ((necessary, newInc, offset), conn1)"
    by (metis surj_pair)
  have f: "f = r\<lparr>fm_streamFlowController := cs', fm_connFlowController := conn1\<rparr>"
    and us: "us = res @ (if force \<or> necessary then [\<lparr>upd_StreamID = 0, upd_Offset = offset\<rparr>] else [])"
    using g by (auto simp: GetWindowUpdates_def l m)
  have dist: "distinct (map fst ?cs)" using wf by (simp add: manager_wf_def)
  have ok': "\<forall>(sid, c) \<in> set ?cs. receiving_ok c"
  proof clarify
    fix sid c assume "(sid, c) \<in> set ?cs"
    then have "map_of ?cs sid = Some c" using dist by simp
    then show "receiving_ok c" using ok by (fastforce simp: ctl_def)
  qed
  note L = windowUpdates_loop_tuned [OF l ok' okc dist, THEN conjunct1]
    windowUpdates_loop_tuned [OF l ok' okc dist, THEN conjunct2, THEN conjunct1]
    windowUpdates_loop_tuned [OF l ok' okc dist, THEN conjunct2, THEN conjunct2, THEN conjunct2]
    windowUpdates_loop_tuned [OF l ok' okc dist, THEN conjunct2, THEN conjunct2, THEN conjunct1]
  note M = MaybeUpdateWindow_tuned [OF tuned_receiving_ok [OF L(2) okc] m]
  show "map fst (fm_streamFlowController f) = map fst ?cs" "fm_env f = fm_env r" using L(1) by (simp_all add: f)
  show "tuned (ctl r sid) (ctl f sid) \<and> window_half_open (ctl f sid) \<and> (ctl f sid = ctl r sid
      \<or> \<lparr>upd_StreamID = sid, upd_Offset = fc_receiveWindow (ctl f sid)\<rparr> \<in> set us)" if o: "is_open r sid"
  proof -
    obtain c where c: "map_of ?cs sid = Some c" using o by blast
    then obtain c' where "map_of cs' sid = Some c'" "tuned c c'" "window_half_open c'"
        "c' = c \<or> \<lparr>upd_StreamID = sid, upd_Offset = fc_receiveWindow c'\<rparr> \<in> set res"
      using L(3) by blast
    then show ?thesis using c by (auto simp: ctl_def f us)
  qed
  show "tuned (fm_connFlowController r) (fm_connFlowController f)" using tuned_trans [OF L(2) M(1)] by (simp add: f)
  show "window_half_open (fm_connFlowController f)" using M(3) by (simp add: f window_half_open_def)
  show "fc_receiveWindow (fm_connFlowController f) = fc_receiveWindow (fm_connFlowController r)
       \<or> \<lparr>upd_StreamID = 0, upd_Offset = fc_receiveWindow (fm_connFlowController f)\<rparr> \<in> set us"
    using M(2,4) L(4) by (cases necessary) (auto simp: f us)
  show "(upd_StreamID u = 0 \<or> is_open r (upd_StreamID u)) \<and> upd_Offset u = receive_window f (upd_StreamID u)"
    if "u \<in> set us"
  proof (cases "u \<in> set res")
    case True
    then obtain c' where c': "map_of cs' (upd_StreamID u) = Some c'" "upd_Offset u = fc_receiveWindow c'" using L(3) by blast
    then have "upd_StreamID u \<in> set (map fst ?cs)" using L(1) by (metis map_of_SomeD image_eqI fst_conv list.set_map)
    then have o: "is_open r (upd_StreamID u)" by (simp add: map_of_eq_None_iff)
    then have "upd_StreamID u \<noteq> 0" by (rule wf_ctl(4) [OF wf])
    then show ?thesis using o c' by (simp add: receive_window_def ctl_def f)
  next
    case False
    then show ?thesis using that M(2) by (auto simp: us receive_window_def f split: if_splits)
  qed
qed

lemma inv_deliver_update:
  assumes I: "fc_inv es er s" and u: "u \<in> updates s"
  shows "fc_inv es er (s\<lparr>sender := snd (flowControlManager_UpdateWindow (upd_StreamID u) (upd_Offset u) (sender s))\<rparr>)"
proof -
  let ?sid = "upd_StreamID u" and ?off = "upd_Offset u"
  let ?upd = "\<lambda>c. snd (flowController_UpdateSendWindow ?off c)"
  define f where "f = snd (flowControlManager_UpdateWindow ?sid ?off (sender s))"
  note wf = fc_invD(1) [OF I]
  note b = fc_invD(11) [OF I u, THEN conjunct1] fc_invD(11) [OF I u, THEN conjunct2]
  have keep: "fc_bytesSent (?upd c) = fc_bytesSent c" "fc_streamID (?upd c) = fc_streamID c"
    "fc_contributesToConnection (?upd c) = fc_contributesToConnection c" for c
    by (simp_all add: flowController_UpdateSendWindow_def)
  consider (conn) "?sid = 0" | (closed) "?sid \<noteq> 0" "\<not> is_open (sender s) ?sid"
    | (opened) "?sid \<noteq> 0" "is_open (sender s) ?sid" by blast
  then show ?thesis unfolding f_def [symmetric]
  proof cases
    case conn
    then have f: "f = (sender s)\<lparr>fm_connFlowController := ?upd (fm_connFlowController (sender s))\<rparr>"
      by (simp add: f_def flowControlManager_UpdateWindow_def split_beta)
    have "pair_ok es (initial_window er 0) (?upd (fm_connFlowController (sender s))) (fm_connFlowController (receiver s))"
      using b by (intro pair_update [OF fc_invD(6) [OF I]]) (simp_all add: conn receive_window_def)
    moreover have "manager_wf f" using wf wf_ctl(3) [OF wf] by (simp add: f manager_wf_conn keep)
    ultimately show "fc_inv es er (s\<lparr>sender := f\<rparr>)" using I unfolding fc_inv_def by (simp add: f keep)
  next
    case closed
    then have "f = sender s"
      by (simp add: f_def flowControlManager_UpdateWindow_def getFlowController_closed)
    then show "fc_inv es er (s\<lparr>sender := f\<rparr>)" using I by simp
  next
    case opened
    then have f: "f = setFlowController ?sid (?upd (ctl (sender s) ?sid)) (sender s)"
      by (simp add: f_def flowControlManager_UpdateWindow_def getFlowController_open split_beta)
    have p: "pair_ok es (initial_window er ?sid) (?upd (ctl (sender s) ?sid)) (ctl (receiver s) ?sid)"
      using b opened by (intro pair_update [OF fc_invD(5) [OF I]]) (simp_all add: receive_window_def)
    have w: "manager_wf f" unfolding f
      using opened wf_ctl(1,2) [OF wf] by (intro manager_wf_set [OF wf]) (simp_all add: keep)
    have t: "total fc_bytesSent (ctl f) = total fc_bytesSent (ctl (sender s))"
      by (simp add: f total_same keep)
    show "fc_inv es er (s\<lparr>sender := f\<rparr>)"
      using I p w t unfolding fc_inv_def by (auto simp: f keep)
  qed
qed

lemma fresh_pair:
  assumes "windows_agree es er"
  shows "pair_ok es (initial_window er sid) (newFlowController sid b es) (newFlowController sid b' er)"
  using assms
  by (auto simp: windows_agree_def Let_def pair_ok_def receiving_ok_def newFlowController_def initial_window_def
      flowController_getSendWindow_def)

lemma inv_start:
  assumes "windows_agree es er"
  shows "fc_inv es er \<lparr>sender = NewFlowControlManager es, receiver = NewFlowControlManager er,
     in_flight = {}, updates = {}, gone_sender = [], gone_receiver = []\<rparr>"
proof -
  have c: "ctl (NewFlowControlManager e) sid = newFlowController sid (streamContributes sid) e"
    "fm_connFlowController (NewFlowControlManager e) = newFlowController 0 False e"
    "fm_env (NewFlowControlManager e) = e" for e sid
    by (simp_all add: ctl_def NewFlowControlManager_def)
  have z: "fc_bytesSent (newFlowController i b e) = 0" "fc_highestReceived (newFlowController i b e) = 0"
    "fc_bytesRead (newFlowController i b e) = 0" "fc_streamID (newFlowController i b e) = i"
    "fc_contributesToConnection (newFlowController i b e) = b" for i b e
    by (simp_all add: newFlowController_def Let_def)
  have w: "manager_wf (NewFlowControlManager e)" for e
    by (simp add: manager_wf_def c z) (simp add: NewFlowControlManager_def)
  show ?thesis
    using fresh_pair [OF assms] w unfolding fc_inv_def by (simp add: c z total_def)
qed

subsection \<open>Streams that are gone\<close>

text \<open>
  The invariant speaks of the books of the connection: the managers with the controllers of the removed streams put back. The
  operations on streams that are still open do the same with and without them.
\<close>

definition ledger :: "(StreamID \<times> flowController) list \<Rightarrow> flowControlManager \<Rightarrow> flowControlManager" where
  "ledger g f = f\<lparr>fm_streamFlowController := fm_streamFlowController f @ g\<rparr>"

definition books :: "fcSystem \<Rightarrow> fcSystem" where
  "books s = s\<lparr>sender := ledger (gone_sender s) (sender s), receiver := ledger (gone_receiver s) (receiver s)\<rparr>"

lemma books_simps [simp]:
  "sender (books s) = ledger (gone_sender s) (sender s)" "receiver (books s) = ledger (gone_receiver s) (receiver s)"
  "in_flight (books s) = in_flight s" "updates (books s) = updates s"
  by (simp_all add: books_def)

lemma map_of_ledger:
  "map_of (fm_streamFlowController (ledger g f)) sid
     = (case map_of (fm_streamFlowController f) sid of Some c \<Rightarrow> Some c | None \<Rightarrow> map_of g sid)"
  by (simp add: ledger_def map_add_def)

lemma ledger_simps [simp]:
  "fm_env (ledger g f) = fm_env f" "fm_connFlowController (ledger g f) = fm_connFlowController f"
  "ledger g (f\<lparr>fm_connFlowController := c\<rparr>) = (ledger g f)\<lparr>fm_connFlowController := c\<rparr>"
  "ledger g (f\<lparr>fm_env := e\<rparr>) = (ledger g f)\<lparr>fm_env := e\<rparr>"
  by (simp_all add: ledger_def)

lemma is_open_ledger: "is_open (ledger g f) sid \<longleftrightarrow> is_open f sid \<or> sid \<in> fst ` set g"
proof -
  have "map_of g sid \<noteq> None \<longleftrightarrow> sid \<in> fst ` set g" by (simp only: map_of_eq_None_iff not_not)
  then show ?thesis unfolding map_of_ledger by (cases "map_of (fm_streamFlowController f) sid") simp_all
qed

lemma ctl_ledger:
  "ctl (ledger g f) sid = (case map_of (fm_streamFlowController f) sid of Some c \<Rightarrow> c
     | None \<Rightarrow> (case map_of g sid of Some c \<Rightarrow> c | None \<Rightarrow> newFlowController sid (streamContributes sid) (fm_env f)))"
  unfolding ctl_def map_of_ledger ledger_simps by (cases "map_of (fm_streamFlowController f) sid") simp_all

lemma ctl_ledger_open: "is_open f sid \<Longrightarrow> ctl (ledger g f) sid = ctl f sid"
  unfolding ctl_ledger unfolding ctl_def by auto

lemma get_ledger: "is_open f sid \<Longrightarrow> getFlowController (ledger g f) sid = getFlowController f sid"
  unfolding getFlowController_def map_of_ledger by auto

lemma update_append: "map_of xs k \<noteq> None \<Longrightarrow> AList.update k v (xs @ ys) = AList.update k v xs @ ys"
  by (induction xs) auto

lemma set_ledger: "is_open f sid \<Longrightarrow> setFlowController sid c (ledger g f) = ledger g (setFlowController sid c f)"
  by (simp add: setFlowController_def ledger_def update_append)

lemma onBoth_ledger: "is_open f sid \<Longrightarrow> onBoth op sid (ledger g f) = (None, ledger g (snd (onBoth op sid f)))"
  by (simp add: onBoth_def get_ledger getFlowController_open set_ledger Let_def)

lemma account_ledger:
  "is_open f sid \<Longrightarrow> accountReceived sid inc c (ledger g f)
     = (fst (accountReceived sid inc c f), ledger g (snd (accountReceived sid inc c f)))"
  by (simp add: accountReceived_def set_ledger Let_def)

lemma highest_ledger:
  "is_open f sid \<Longrightarrow> flowControlManager_UpdateHighestReceived sid off (ledger g f)
     = (fst (flowControlManager_UpdateHighestReceived sid off f),
        ledger g (snd (flowControlManager_UpdateHighestReceived sid off f)))"
  by (simp add: flowControlManager_UpdateHighestReceived_def get_ledger getFlowController_open account_ledger split_beta)

lemma SendWindowSize_ledger:
  "is_open f sid \<Longrightarrow> flowControlManager_SendWindowSize (ledger g f) sid = flowControlManager_SendWindowSize f sid"
  unfolding flowControlManager_SendWindowSize_def ledger_simps by (simp add: get_ledger)

text \<open>A reset is accounted like a frame, or refused.\<close>

lemma ResetStream_cases:
  "snd (flowControlManager_ResetStream sid off f) \<in> {f, snd (flowControlManager_UpdateHighestReceived sid off f)}"
  by (auto simp: flowControlManager_ResetStream_def flowControlManager_UpdateHighestReceived_def split_beta
      split: sum.splits)

text \<open>The invariant sees of a manager only what \<open>same_books\<close> compares.\<close>

definition same_books :: "flowControlManager \<Rightarrow> flowControlManager \<Rightarrow> bool" where
  "same_books f f' \<longleftrightarrow> ctl f' = ctl f \<and> fm_connFlowController f' = fm_connFlowController f
     \<and> same_parameters (fm_env f') (fm_env f) \<and> distinct (map fst (fm_streamFlowController f')) \<and> \<not> is_open f' 0"

lemma inv_same_books:
  assumes "fc_inv es er s" "same_books (sender s) f" "same_books (receiver s) f'"
  shows "fc_inv es er (s\<lparr>sender := f, receiver := f'\<rparr>)"
proof -
  have "receive_window f' = receive_window (receiver s)"
    using assms(3) by (simp add: receive_window_def same_books_def fun_eq_iff)
  then show ?thesis
    using assms unfolding fc_inv_def same_books_def manager_wf_def by auto
qed

lemma same_books_refl: "manager_wf f \<Longrightarrow> same_books f f"
  by (simp add: same_books_def manager_wf_def)

lemma open_key: "is_open f sid \<longleftrightarrow> sid \<in> fst ` set (fm_streamFlowController f)"
  by (simp only: map_of_eq_None_iff not_not)

lemma ledger_wf:
  assumes "manager_wf (ledger g f)"
  shows "distinct (map fst (fm_streamFlowController f))" "distinct (map fst g)"
    "is_open f sid \<Longrightarrow> sid \<notin> fst ` set g" "\<not> is_open f 0" "0 \<notin> fst ` set g" "manager_wf f"
proof -
  have d: "distinct (map fst (fm_streamFlowController f @ g))" "\<not> is_open (ledger g f) 0"
    using assms unfolding manager_wf_def by (auto simp: ledger_def)
  then show *: "distinct (map fst (fm_streamFlowController f))" "distinct (map fst g)"
    "is_open f sid \<Longrightarrow> sid \<notin> fst ` set g" "\<not> is_open f 0" "0 \<notin> fst ` set g"
    unfolding is_open_ledger unfolding open_key by auto
  have "fc_streamID (ctl f i) = i \<and> fc_contributesToConnection (ctl f i) = streamContributes i" for i
  proof (cases "is_open f i")
    case True
    then show ?thesis using wf_ctl(1,2) [OF assms, of i] by (simp only: ctl_ledger_open simp_thms)
  next
    case False
    then show ?thesis by (simp add: ctl_def newFlowController_def Let_def)
  qed
  then show "manager_wf f" using *(1,4) wf_ctl(3) [OF assms] unfolding manager_wf_def by simp
qed

lemma same_booksI:
  assumes "\<And>i. ctl f' i = ctl f i" "fm_connFlowController f' = fm_connFlowController f"
    "same_parameters (fm_env f') (fm_env f)" "distinct (map fst (fm_streamFlowController f'))" "\<not> is_open f' 0"
  shows "same_books f f'"
  using assms unfolding same_books_def by (auto simp: fun_eq_iff)

lemma same_books_newStream:
  assumes "manager_wf (ledger g f)" "sid \<noteq> 0" "sid \<notin> fst ` set g"
  shows "same_books (ledger g f) (ledger g (session_newStream sid f))"
proof (cases "is_open f sid")
  case True
  then have "session_newStream sid f = f"
    by (auto simp: session_newStream_def flowControlManager_NewStream_def)
  then show ?thesis using same_books_refl [OF assms(1)] by simp
next
  case False
  define n where "n = newFlowController sid (streamContributes sid) (fm_env f)"
  let ?cs = "fm_streamFlowController f"
  have f: "session_newStream sid f = setFlowController sid n f"
    using False by (simp add: session_newStream_def flowControlManager_NewStream_def n_def)
  have k: "sid \<notin> fst ` set ?cs" "map_of ?cs sid = None" using False unfolding open_key by (simp_all add: map_of_eq_None_iff)
  have g: "map_of g sid = None" using assms(3) by (simp add: map_of_eq_None_iff)
  note wf = ledger_wf [OF assms(1)]
  show ?thesis unfolding f
  proof (rule same_booksI)
    show "ctl (ledger g (setFlowController sid n f)) i = ctl (ledger g f) i" for i
      using k g unfolding ctl_ledger setFlowController_simps(2) unfolding setFlowController_def by (simp add: n_def)
    have "map fst (AList.update sid n ?cs) = map fst ?cs @ [sid]" using k(1) by (simp add: update_keys)
    then show "distinct (map fst (fm_streamFlowController (ledger g (setFlowController sid n f))))"
      using wf(1,2) wf(3) [unfolded open_key] k assms(3) by (auto simp: ledger_def setFlowController_def)
    show "\<not> is_open (ledger g (setFlowController sid n f)) 0"
      using wf(4,5) assms(2) unfolding is_open_ledger setFlowController_simps by simp
  qed simp_all
qed

lemma same_books_remove:
  assumes "manager_wf (ledger g f)" "is_open f sid"
  shows "same_books (ledger g f) (ledger ((sid, ctl f sid) # g) (flowControlManager_RemoveStream sid f))"
proof (rule same_booksI)
  let ?f = "ledger ((sid, ctl f sid) # g) (flowControlManager_RemoveStream sid f)"
  let ?cs = "fm_streamFlowController f"
  note wf = ledger_wf [OF assms(1)]
  have m: "map_of (AList.delete sid ?cs) i = (if i = sid then None else map_of ?cs i)" for i by (simp add: delete_conv')
  have sub: "fst ` set (AList.delete sid ?cs) \<subseteq> fst ` set ?cs - {sid}"
    by (auto simp: AList.delete_eq)
  have r: "fm_streamFlowController (flowControlManager_RemoveStream sid f) = AList.delete sid ?cs"
    "fm_env (flowControlManager_RemoveStream sid f) = fm_env f"
    by (simp_all add: flowControlManager_RemoveStream_def)
  obtain c where "map_of ?cs sid = Some c" "ctl f sid = c" using assms(2) by (auto simp: ctl_def)
  then show "ctl ?f i = ctl (ledger g f) i" for i
    unfolding ctl_ledger r m by (auto split: option.split)
  have gone: "sid \<notin> fst ` set (AList.delete sid ?cs)" "fst ` set (AList.delete sid ?cs) \<inter> insert sid (fst ` set g) = {}"
    "sid \<notin> fst ` set g"
    using sub wf(3) [unfolded open_key] assms(2) [unfolded open_key] by blast+
  have "distinct (map fst (AList.delete sid ?cs))" by (rule distinct_delete [OF wf(1)])
  then show "distinct (map fst (fm_streamFlowController ?f))"
    using wf(2) gone by (simp add: ledger_def flowControlManager_RemoveStream_def)
  show "\<not> is_open ?f 0"
    using wf(4,5) assms(2) unfolding is_open_ledger by (auto simp: flowControlManager_RemoveStream_def m split: if_splits)
qed (simp_all add: flowControlManager_RemoveStream_def)

subsection \<open>Every step preserves the books\<close>

lemma inv_books_update:
  assumes I: "fc_inv es er (books s)" and g: "GetWindowUpdates now force (receiver s) = (us, f)"
  shows "fc_inv es er (books (s\<lparr>receiver := f, updates := set us \<union> updates s\<rparr>))"
proof -
  let ?r = "receiver s" and ?g = "gone_receiver s"
  note lw = ledger_wf [OF fc_invD(2) [OF I, unfolded books_simps]]
  have ok: "receiving_ok (ctl (ledger ?g ?r) sid)" "receiving_ok (fm_connFlowController ?r)" for sid
    using fc_invD(5) [OF I, of sid] fc_invD(6) [OF I] by (simp_all add: pair_ok_def)
  have oko: "\<forall>sid. is_open ?r sid \<longrightarrow> receiving_ok (ctl ?r sid)" using ok(1) ctl_ledger_open by metis
  note T = GetWindowUpdates_tuned [OF lw(6) oko ok(2) g]
  have o: "is_open f sid \<longleftrightarrow> is_open ?r sid" for sid
    using T(1) unfolding open_key by (metis list.set_map)
  have t: "tuned (ctl (ledger ?g ?r) sid) (ctl (ledger ?g f) sid)" for sid
  proof (cases "is_open ?r sid")
    case True
    then show ?thesis using T(3) [OF True] o [of sid] by (simp only: ctl_ledger_open simp_thms)
  next
    case False
    then have "map_of (fm_streamFlowController ?r) sid = None" "map_of (fm_streamFlowController f) sid = None"
      using o [of sid] by simp_all
    then have "ctl (ledger ?g f) sid = ctl (ledger ?g ?r) sid" unfolding ctl_ledger T(2) by simp
    then show ?thesis using ok(1) [of sid] by (simp add: tuned_refl receiving_ok_def)
  qed
  have wf: "manager_wf (ledger ?g f)"
  proof -
    have "map fst (fm_streamFlowController (ledger ?g f)) = map fst (fm_streamFlowController (ledger ?g ?r))"
      using T(1) by (simp add: ledger_def)
    then have "distinct (map fst (fm_streamFlowController (ledger ?g f)))"
      using fc_invD(2) [OF I] unfolding manager_wf_def books_simps by simp
    moreover have "\<not> is_open (ledger ?g f) 0" unfolding is_open_ledger o using lw(4,5) by simp
    ultimately show ?thesis
      using wf_ctl(1-3) [OF fc_invD(2) [OF I, unfolded books_simps]] tuned_fields(1,2) [OF t] tuned_fields(1) [OF T(4)]
      unfolding manager_wf_def by simp
  qed
  have off: "upd_Offset u = receive_window (ledger ?g f) (upd_StreamID u)" if "u \<in> set us" for u
    using T(7) [OF that] o [of "upd_StreamID u"] ctl_ledger_open [of f "upd_StreamID u" ?g]
    by (auto simp: receive_window_def)
  have "fc_inv es er ((books s)\<lparr>receiver := ledger ?g f, updates := set us \<union> updates (books s)\<rparr>)"
    by (rule inv_tuned [OF I wf]) (use fc_invD(4) [OF I] T(2) t T(4) off in auto)
  then show ?thesis by (simp add: books_def fc_inv_def)
qed

lemma inv_books_send:
  assumes I: "fc_inv es er (books s)"
    and w: "flowControlManager_SendWindowSize (sender s) sid = Inr w" "n \<le> w"
    and lim: "unat (fc_bytesSent (ctl (sender s) sid)) + unat n < 2 ^ 62"
      "unat (fc_bytesSent (fm_connFlowController (sender s))) + unat n < 2 ^ 62"
    and f: "flowControlManager_AddBytesSent sid n (sender s) = (None, f)"
  shows "fc_inv es er (books (s\<lparr>sender := f, in_flight := insert (sid, fc_bytesSent (ctl f sid)) (in_flight s)\<rparr>))"
proof -
  let ?g = "gone_sender s"
  have o: "is_open (sender s) sid"
    using f by (cases "is_open (sender s) sid")
      (auto simp: flowControlManager_AddBytesSent_def onBoth_def getFlowController_closed)
  have f': "flowControlManager_AddBytesSent sid n (ledger ?g (sender s)) = (None, ledger ?g f)"
    using f onBoth_ledger [OF o] unfolding flowControlManager_AddBytesSent_def by simp
  have "f = snd (onBoth (flowController_AddBytesSent n) sid (sender s))"
    using f by (simp add: flowControlManager_AddBytesSent_def)
  then have "is_open f sid" using o onBoth_open [OF ledger_wf(6) [OF fc_invD(1) [OF I, unfolded books_simps]] o]
    by (simp add: Let_def setFlowController_def)
  note c = ctl_ledger_open [OF this, of ?g]
  have "fc_inv es er ((books s)\<lparr>sender := ledger ?g f,
      in_flight := insert (sid, fc_bytesSent (ctl (ledger ?g f) sid)) (in_flight (books s))\<rparr>)"
    by (rule inv_send [OF I _ w(2) _ _]) (use w lim f' o in \<open>simp_all add: SendWindowSize_ledger ctl_ledger_open\<close>)
  then show ?thesis unfolding c by (simp add: books_def fc_inv_def)
qed

lemma inv_books_receiver:
  assumes "fc_inv es er ((books s)\<lparr>receiver := ledger (gone_receiver s) f\<rparr>)"
  shows "fc_inv es er (books (s\<lparr>receiver := f\<rparr>))"
  using assms by (simp add: books_def)

lemma inv_books_deliver:
  assumes I: "fc_inv es er (books s)" and fl: "(sid, off) \<in> in_flight s" and o: "is_open (receiver s) sid"
  shows "fst (flowControlManager_UpdateHighestReceived sid off (receiver s)) = None"
    "fc_inv es er (books (s\<lparr>receiver := snd (flowControlManager_UpdateHighestReceived sid off (receiver s))\<rparr>))"
proof -
  have "(sid, off) \<in> in_flight (books s)" "is_open (receiver (books s)) sid"
    using fl o by (simp_all only: books_simps is_open_ledger simp_thms)
  note d = deliver_ok [OF I this, unfolded books_simps highest_ledger [OF o] fst_conv snd_conv]
  show "fst (flowControlManager_UpdateHighestReceived sid off (receiver s)) = None" by (rule d(1))
  show "fc_inv es er (books (s\<lparr>receiver := snd (flowControlManager_UpdateHighestReceived sid off (receiver s))\<rparr>))"
    by (rule inv_books_receiver [OF d(2)])
qed

lemma inv_books_read:
  assumes I: "fc_inv es er (books s)" and o: "is_open (receiver s) sid"
    and n: "n \<le> fc_highestReceived (ctl (receiver s) sid) - fc_bytesRead (ctl (receiver s) sid)"
  shows "fc_inv es er (books (s\<lparr>receiver := snd (flowControlManager_AddBytesRead now sid n (receiver s))\<rparr>))"
proof -
  have o': "is_open (receiver (books s)) sid" using o by (simp only: books_simps is_open_ledger simp_thms)
  have "n \<le> fc_highestReceived (ctl (receiver (books s)) sid) - fc_bytesRead (ctl (receiver (books s)) sid)"
    using n unfolding books_simps ctl_ledger_open [OF o] .
  note r = inv_read [OF I o' this, of now, unfolded books_simps flowControlManager_AddBytesRead_def onBoth_ledger [OF o] snd_conv]
  show ?thesis unfolding flowControlManager_AddBytesRead_def by (rule inv_books_receiver [OF r])
qed

lemma inv_books_window:
  assumes I: "fc_inv es er (books s)" and u: "u \<in> updates s"
  shows "fc_inv es er (books (s\<lparr>sender := snd (flowControlManager_UpdateWindow (upd_StreamID u) (upd_Offset u) (sender s))\<rparr>))"
proof (cases "upd_StreamID u \<noteq> 0 \<and> \<not> is_open (sender s) (upd_StreamID u)")
  case True
  then have "snd (flowControlManager_UpdateWindow (upd_StreamID u) (upd_Offset u) (sender s)) = sender s"
    by (simp add: flowControlManager_UpdateWindow_def getFlowController_closed)
  then show ?thesis using I by simp
next
  case False
  then have "snd (flowControlManager_UpdateWindow (upd_StreamID u) (upd_Offset u) (ledger (gone_sender s) (sender s)))
      = ledger (gone_sender s) (snd (flowControlManager_UpdateWindow (upd_StreamID u) (upd_Offset u) (sender s)))"
    using get_ledger [of "sender s" "upd_StreamID u" "gone_sender s"] getFlowController_open [of "sender s" "upd_StreamID u"]
      set_ledger [of "sender s" "upd_StreamID u" _ "gone_sender s"]
    by (cases "upd_StreamID u = 0") (auto simp: flowControlManager_UpdateWindow_def split_beta)
  then show ?thesis using inv_deliver_update [OF I, of u] u by (simp add: books_def fc_inv_def)
qed

lemma inv_books_managers:
  assumes I: "fc_inv es er (books s)"
    and "same_books (ledger (gone_sender s) (sender s)) (ledger g f)"
    and "same_books (ledger (gone_receiver s) (receiver s)) (ledger g' f')"
  shows "fc_inv es er (books (s\<lparr>sender := f, gone_sender := g, receiver := f', gone_receiver := g'\<rparr>))"
proof -
  have "fc_inv es er ((books s)\<lparr>sender := ledger g f, receiver := ledger g' f'\<rparr>)"
    using inv_same_books [OF I] assms(2,3) unfolding books_simps .
  then show ?thesis by (simp add: books_def fc_inv_def)
qed

lemma same_books_env:
  "manager_wf (ledger g f) \<Longrightarrow> same_parameters e (fm_env f) \<Longrightarrow> same_books (ledger g f) (ledger g (f\<lparr>fm_env := e\<rparr>))"
proof (rule same_booksI)
  assume e: "same_parameters e (fm_env f)" and wf: "manager_wf (ledger g f)"
  show "ctl (ledger g (f\<lparr>fm_env := e\<rparr>)) i = ctl (ledger g f) i" for i
    unfolding ctl_ledger by (simp add: same_parameters_simps(1) [OF e] split: option.split)
  show "distinct (map fst (fm_streamFlowController (ledger g (f\<lparr>fm_env := e\<rparr>))))" "\<not> is_open (ledger g (f\<lparr>fm_env := e\<rparr>)) 0"
    using wf unfolding manager_wf_def by simp_all
qed simp_all

lemma inv_step:
  assumes I: "fc_inv es er (books s)" and "fc_step s s'"
  shows "fc_inv es er (books s')"
proof -
  note wf = fc_invD(1) [OF I, unfolded books_simps] fc_invD(2) [OF I, unfolded books_simps]
  note m = inv_books_managers [OF I]
  note keep = same_books_refl [OF wf(1)] same_books_refl [OF wf(2)]
  from assms(2) show ?thesis
  proof (cases rule: fc_step.cases)
    case (open_sender sid)
    then show ?thesis using m [OF same_books_newStream [OF wf(1)] keep(2), of sid] by simp
  next
    case (open_receiver sid)
    then show ?thesis
      using m [OF keep(1) same_books_newStream [OF wf(2)], of sid] by simp
  next
    case send
    then show ?thesis using inv_books_send [OF I] by blast
  next
    case deliver
    then show ?thesis using inv_books_deliver(2) [OF I] by blast
  next
    case read
    then show ?thesis using inv_books_read [OF I] by blast
  next
    case update
    then show ?thesis using inv_books_update [OF I] by blast
  next
    case deliver_update
    then show ?thesis using inv_books_window [OF I] by blast
  next
    case (reset sid)
    have "sid \<noteq> 0" using wf_ctl(4) [OF ledger_wf(6) [OF wf(1)] reset(2)] .
    then show ?thesis
      using I ctl_ledger_open [OF reset(2), of "gone_sender s"] unfolding reset(1) fc_inv_def by (simp add: books_def)
  next
    case (deliver_reset sid off)
    then show ?thesis
      using ResetStream_cases [of sid off "receiver s"] inv_books_deliver(2) [OF I, of sid off] I by auto
  next
    case (remove_sender sid)
    then show ?thesis
      using m [OF same_books_remove [OF wf(1), of sid] keep(2)] by simp
  next
    case (remove_receiver sid)
    then show ?thesis
      using m [OF keep(1) same_books_remove [OF wf(2), of sid]] by simp
  next
    case (rtt_sender e)
    then show ?thesis
      using m [OF same_books_env [OF wf(1), of e] keep(2)] by simp
  next
    case (rtt_receiver e)
    then show ?thesis
      using m [OF keep(1) same_books_env [OF wf(2), of e]] by simp
  qed
qed

lemma reachable_inv: "fc_reachable es er s \<Longrightarrow> windows_agree es er \<Longrightarrow> fc_inv es er (books s)"
proof (induction rule: fc_reachable.induct)
  case start
  then show ?case using inv_start by (simp add: books_def ledger_def)
next
  case (step s s')
  then show ?case using inv_step by blast
qed

section \<open>Properties of flow control\<close>

text \<open>
  C1: No frame of an honest sender is a flow control violation. When the negotiated windows agree
  and the sender stays within \<^verbatim>\<open>SendWindowSize\<close>, then in every reachable state every STREAM frame in
  flight, however late, repeated or reordered it arrives, is accepted by the receiver's manager on the
  stream level and on the connection level.
\<close>

theorem flow_control_no_false_violation:
  assumes "windows_agree es er" "fc_reachable es er s"
    and "(sid, off) \<in> in_flight s" "is_open (receiver s) sid"
  shows "fst (flowControlManager_UpdateHighestReceived sid off (receiver s)) = None"
  by (rule inv_books_deliver(1) [OF reachable_inv [OF assms(2,1)] assms(3,4)])

text \<open>The controller of a stream at either end: of an open stream, or of a removed one, as it was when it was removed.\<close>

definition sender_ctl :: "fcSystem \<Rightarrow> StreamID \<Rightarrow> flowController" where
  "sender_ctl s sid = (case map_of (gone_sender s) sid of Some c \<Rightarrow> c | None \<Rightarrow> ctl (sender s) sid)"

definition receiver_ctl :: "fcSystem \<Rightarrow> StreamID \<Rightarrow> flowController" where
  "receiver_ctl s sid = (case map_of (gone_receiver s) sid of Some c \<Rightarrow> c | None \<Rightarrow> ctl (receiver s) sid)"

lemma ledger_ctl:
  assumes "manager_wf (ledger g f)"
  shows "ctl (ledger g f) sid = (case map_of g sid of Some c \<Rightarrow> c | None \<Rightarrow> ctl f sid)"
    and "is_open f sid \<Longrightarrow> map_of g sid = None"
proof -
  show *: "is_open f sid \<Longrightarrow> map_of g sid = None"
    using ledger_wf(3) [OF assms] by (simp add: map_of_eq_None_iff)
  then show "ctl (ledger g f) sid = (case map_of g sid of Some c \<Rightarrow> c | None \<Rightarrow> ctl f sid)"
    unfolding ctl_ledger by (cases "map_of (fm_streamFlowController f) sid") (auto simp: ctl_def split: option.split)
qed

text \<open>
  C17: The books of the connection balance, also over streams that are removed. In every reachable state the connection's
  counters are the sums of the counters of the contributing streams, those that are open and those that were removed,
  as they were when they were removed (\<^verbatim>\<open>RemoveStream\<close> takes a stream out of the manager and leaves what it added to the
  connection). Each stream and the connection has sent at most its send window, so that the guard against underflow in
  \<^verbatim>\<open>SendWindowSize\<close> never fires; and the send window is within what the receiver allows, where a stream that one end has
  removed is compared as it was then.
\<close>

theorem flow_control_accounting:
  assumes "windows_agree es er" "fc_reachable es er s"
  shows "unat (fc_bytesSent (fm_connFlowController (sender s))) = total fc_bytesSent (sender_ctl s)
    \<and> unat (fc_highestReceived (fm_connFlowController (receiver s))) = total fc_highestReceived (receiver_ctl s)
    \<and> unat (fc_bytesRead (fm_connFlowController (receiver s))) = total fc_bytesRead (receiver_ctl s)
    \<and> (is_open (sender s) sid \<longrightarrow> sender_ctl s sid = ctl (sender s) sid)
    \<and> (is_open (receiver s) sid \<longrightarrow> receiver_ctl s sid = ctl (receiver s) sid)
    \<and> fc_bytesSent (sender_ctl s sid) \<le> flowController_SendWindowOffset es (sender_ctl s sid)
    \<and> flowController_SendWindowOffset es (sender_ctl s sid) \<le> fc_receiveWindow (receiver_ctl s sid)
    \<and> fc_bytesSent (fm_connFlowController (sender s))
        \<le> flowController_SendWindowOffset es (fm_connFlowController (sender s))
    \<and> flowController_SendWindowOffset es (fm_connFlowController (sender s))
        \<le> fc_receiveWindow (fm_connFlowController (receiver s))"
proof -
  note I = reachable_inv [OF assms(2,1)]
  note wf = fc_invD(1) [OF I, unfolded books_simps] fc_invD(2) [OF I, unfolded books_simps]
  have c: "ctl (sender (books s)) = sender_ctl s" "ctl (receiver (books s)) = receiver_ctl s"
    unfolding books_simps fun_eq_iff sender_ctl_def receiver_ctl_def using ledger_ctl(1) wf by blast+
  have "is_open (sender s) sid \<Longrightarrow> sender_ctl s sid = ctl (sender s) sid"
    "is_open (receiver s) sid \<Longrightarrow> receiver_ctl s sid = ctl (receiver s) sid"
    using ledger_ctl(2) [OF wf(1), of sid] ledger_ctl(2) [OF wf(2), of sid]
    by (simp_all add: sender_ctl_def receiver_ctl_def)
  then show ?thesis
    using fc_invD(5-9) [OF I, unfolded c] by (simp add: pair_ok_def flowController_SendWindowOffset_def)
qed

text \<open>
  C25: The receiver keeps the windows open. After \<^verbatim>\<open>GetWindowUpdates\<close> every open stream and the
  connection leave the peer at least half an increment beyond what was read, and whenever a window
  has moved, the list returned contains a WINDOW_UPDATE with its new offset.
\<close>

theorem window_updates_keep_windows_open:
  assumes "windows_agree es er" "fc_reachable es er s"
    and "GetWindowUpdates now force (receiver s) = (us, f)"
  shows "(is_open (receiver s) sid \<longrightarrow> window_half_open (ctl f sid)
       \<and> (ctl f sid = ctl (receiver s) sid
          \<or> \<lparr>upd_StreamID = sid, upd_Offset = fc_receiveWindow (ctl f sid)\<rparr> \<in> set us))
    \<and> window_half_open (fm_connFlowController f)
    \<and> (fc_receiveWindow (fm_connFlowController f) = fc_receiveWindow (fm_connFlowController (receiver s))
       \<or> \<lparr>upd_StreamID = 0, upd_Offset = fc_receiveWindow (fm_connFlowController f)\<rparr> \<in> set us)"
proof -
  note I = reachable_inv [OF assms(2,1)]
  have ok: "receiving_ok (ctl (ledger (gone_receiver s) (receiver s)) sid)" "receiving_ok (fm_connFlowController (receiver s))" for sid
    using fc_invD(5) [OF I, of sid] fc_invD(6) [OF I] by (simp_all add: pair_ok_def)
  have "\<forall>sid. is_open (receiver s) sid \<longrightarrow> receiving_ok (ctl (receiver s) sid)" using ok(1) ctl_ledger_open by metis
  note T = GetWindowUpdates_tuned [OF ledger_wf(6) [OF fc_invD(2) [OF I, unfolded books_simps]] this ok(2) assms(3)]
  show ?thesis using T(3) [of sid] T(5,6) by blast
qed

text \<open>
  C29: A WINDOW_UPDATE can close a window. As long as no update was received, \<^verbatim>\<open>sendWindow\<close> is 0
  and stands for the negotiated initial window; an update with a smaller offset is larger than 0, is
  taken for an increase, and cuts the window below what had been granted.
\<close>

theorem window_update_can_shrink:
  assumes "fc_sendWindow c = 0" "0 < newOffset" "newOffset < flowController_getSendWindow e c"
  shows "fst (flowController_UpdateSendWindow newOffset c) = True
    \<and> flowController_SendWindowOffset e (snd (flowController_UpdateSendWindow newOffset c))
        < flowController_SendWindowOffset e c"
  using assms by (auto simp: flowController_UpdateSendWindow_def flowController_SendWindowOffset_def
      flowController_getSendWindow_def)

subsection \<open>A run\<close>

definition run_env :: fcEnv where
  "run_env = \<lparr>env_connectionParameters =
      (NewConnectionParamatersManager PerspectiveServer VersionMP 1048576 1572864 0)\<lparr>
        cpm_sendStreamFlowControlWindow := 32768, cpm_sendConnectionFlowControlWindow := 49152\<rparr>,
     env_smoothedRTT = 0, env_remoteRTTs = []\<rparr>"

lemma run_agree: "windows_agree run_env run_env"
  by (simp add: windows_agree_def run_env_def NewConnectionParamatersManager_def param_getters
      ReceiveStreamFlowControlWindow_def ReceiveConnectionFlowControlWindow_def)

lemma run_reachable:
  "\<exists>s. fc_reachable run_env run_env s \<and> (5, 30000) \<in> in_flight s \<and> is_open (receiver s) 5
     \<and> is_open (sender s) 5 \<and> fc_bytesSent (fm_connFlowController (sender s)) = 30000"
proof -
  define s0 where "s0 = \<lparr>sender = NewFlowControlManager run_env, receiver = NewFlowControlManager run_env,
     in_flight = {}, updates = {}, gone_sender = [], gone_receiver = []\<rparr>"
  define s1 where "s1 = s0\<lparr>sender := session_newStream 5 (sender s0)\<rparr>"
  define s2 where "s2 = s1\<lparr>receiver := session_newStream 5 (receiver s1)\<rparr>"
  define f where "f = snd (flowControlManager_AddBytesSent 5 30000 (sender s2))"
  have r2: "fc_reachable run_env run_env s2"
    using fc_reachable.start [of run_env run_env, folded s0_def]
      fc_step.open_sender [of 5 s0, folded s1_def] fc_step.open_receiver [of 5 s1, folded s2_def]
    by (auto simp: s0_def s1_def intro: fc_reachable.step)
  have snd: "sender s2 = session_newStream 5 (NewFlowControlManager run_env)"
    "receiver s2 = session_newStream 5 (NewFlowControlManager run_env)"
    by (simp_all add: s2_def s1_def s0_def)
  note run_defs = run_env_def NewConnectionParamatersManager_def param_getters NewFlowControlManager_def
    session_newStream_def flowControlManager_NewStream_def newFlowController_def setFlowController_def
    streamContributes_def Let_def ReceiveStreamFlowControlWindow_def ReceiveConnectionFlowControlWindow_def
  have w: "flowControlManager_SendWindowSize (sender s2) 5 = Inr 32768"
    by (simp add: snd run_defs flowControlManager_SendWindowSize_def getFlowController_def
        flowController_SendWindowSize_def flowController_getSendWindow_def flowController_ContributesToConnection_def)
  have z: "fc_bytesSent (ctl (sender s2) 5) = 0" "fc_bytesSent (fm_connFlowController (sender s2)) = 0"
    by (simp_all add: snd run_defs ctl_def)
  have a: "flowControlManager_AddBytesSent 5 30000 (sender s2) = (None, f)" "fc_bytesSent (ctl f 5) = 30000"
    "is_open f 5" "fc_bytesSent (fm_connFlowController f) = 30000"
    by (simp_all add: f_def snd run_defs flowControlManager_AddBytesSent_def onBoth_def getFlowController_def
        flowController_AddBytesSent_def flowController_ContributesToConnection_def ctl_def)
  have "fc_step s2 (s2\<lparr>sender := f, in_flight := insert (5, fc_bytesSent (ctl f 5)) (in_flight s2)\<rparr>)"
    by (rule fc_step.send [OF w _ _ _ a(1)]) (simp_all add: z)
  then have "fc_reachable run_env run_env (s2\<lparr>sender := f, in_flight := insert (5, fc_bytesSent (ctl f 5)) (in_flight s2)\<rparr>)"
    by (rule fc_reachable.step [OF r2])
  moreover have "is_open (receiver s2) 5" by (simp add: snd run_defs)
  ultimately show ?thesis using a(2-4)
    by (intro exI [of _ "s2\<lparr>sender := f, in_flight := insert (5, fc_bytesSent (ctl f 5)) (in_flight s2)\<rparr>"]) simp
qed

theorem flow_control_no_false_violation_witness:
  "\<exists>s. fc_reachable run_env run_env s \<and> (5, 30000) \<in> in_flight s
     \<and> fst (flowControlManager_UpdateHighestReceived 5 30000 (receiver s)) = None"
  using run_reachable flow_control_no_false_violation [OF run_agree] by blast

text \<open>The same run, in which the sender then removes the stream.\<close>

lemma run_removed:
  "\<exists>s. fc_reachable run_env run_env s \<and> \<not> is_open (sender s) 5 \<and> 5 \<in> fst ` set (gone_sender s)
     \<and> fc_bytesSent (fm_connFlowController (sender s)) = 30000"
proof -
  obtain s where s: "fc_reachable run_env run_env s" "is_open (sender s) 5"
      "fc_bytesSent (fm_connFlowController (sender s)) = 30000"
    using run_reachable by blast
  have r: "fc_reachable run_env run_env (s\<lparr>sender := flowControlManager_RemoveStream 5 (sender s),
      gone_sender := (5, ctl (sender s) 5) # gone_sender s\<rparr>)"
    by (rule fc_reachable.step [OF s(1) fc_step.remove_sender [OF s(2)]])
  show ?thesis by (rule exI, rule conjI, rule r) (simp add: flowControlManager_RemoveStream_def delete_conv' s(3))
qed

theorem flow_control_accounting_witness:
  "\<exists>s. fc_reachable run_env run_env s \<and> \<not> is_open (sender s) 5 \<and> 5 \<in> fst ` set (gone_sender s)
     \<and> total fc_bytesSent (sender_ctl s) = 30000
     \<and> fc_bytesSent (sender_ctl s 5) \<le> flowController_SendWindowOffset run_env (sender_ctl s 5)"
proof -
  obtain s where s: "fc_reachable run_env run_env s" "\<not> is_open (sender s) 5" "5 \<in> fst ` set (gone_sender s)"
      "fc_bytesSent (fm_connFlowController (sender s)) = 30000"
    using run_removed by blast
  show ?thesis using flow_control_accounting [OF run_agree s(1), of 5] s by (intro exI [of _ s]) simp
qed

theorem window_updates_keep_windows_open_witness:
  "\<exists>s. fc_reachable run_env run_env s \<and> is_open (receiver s) 5
     \<and> window_half_open (ctl (snd (GetWindowUpdates 7 True (receiver s))) 5)"
proof -
  obtain s where s: "fc_reachable run_env run_env s" "is_open (receiver s) 5" using run_reachable by blast
  obtain us f where g: "GetWindowUpdates 7 True (receiver s) = (us, f)" by fastforce
  show ?thesis
    using window_updates_keep_windows_open [OF run_agree s(1) g, of 5] s g by (intro exI [of _ s]) simp
qed

theorem window_update_can_shrink_witness:
  "let c = newFlowController 5 True run_env in
   flowController_SendWindowOffset run_env c = 32768
   \<and> flowController_SendWindowOffset run_env (snd (flowController_UpdateSendWindow 1000 c)) < 32768"
proof -
  have "flowController_getSendWindow run_env (newFlowController 5 True run_env) = 32768"
    "fc_sendWindow (newFlowController 5 True run_env) = 0"
    by (simp_all add: newFlowController_def run_env_def NewConnectionParamatersManager_def param_getters
        flowController_getSendWindow_def Let_def)
  then show ?thesis
    using window_update_can_shrink [of "newFlowController 5 True run_env" 1000 run_env]
    by (simp add: flowController_SendWindowOffset_def Let_def)
qed

end
