(* ===== verification/StreamsMap.thy ===== *)
theory StreamsMap
  imports StreamScheduler FlowSafety
begin

text \<open>
  The map of the open streams (\<^verbatim>\<open>streams_map.go\<close>): opening streams from both ends within the negotiated limits, accepting,
  iterating, removing and closing. \<open>sm_heap\<close> holds the stream objects, which are never reused; \<open>sm_streams\<close> are the keys
  of the Go map. The flow control manager, in which the session registers every new stream, is passed along. A call that
  waits on a condition variable blocks: it gives no result and changes nothing.
\<close>

section \<open>State\<close>

record streamsMap =
  sm_perspective :: Perspective
  sm_connectionParameters :: connectionParametersManager
  sm_heap :: "StreamID \<Rightarrow> stream"
  sm_streams :: "StreamID list"
  sm_openStreams :: "StreamID list"
  sm_roundRobinIndex :: u32
  sm_nextStream :: StreamID
  sm_highestStreamOpenedByPeer :: StreamID
  sm_closeErr :: "gerror option"
  sm_nextStreamToAccept :: StreamID
  sm_numOutgoingStreams :: u32
  sm_numIncomingStreams :: u32
  sm_streamScheduler :: "streamScheduler option"

type_synonym streams_state = "streamsMap \<times> flowControlManager"

abbreviation errStreamsMapAccess :: gerror where "errStreamsMapAccess \<equiv> Errorf ''streamsMap: Error accessing the streams map''"

definition MaxNewStreamIDDelta :: StreamID where "MaxNewStreamIDDelta = 4 * MaxStreamsPerConnection"

definition newStreamsMap :: "Perspective \<Rightarrow> connectionParametersManager \<Rightarrow> streamScheduler option \<Rightarrow> streamsMap" where
  "newStreamsMap pers cp sched =
     \<lparr>sm_perspective = pers, sm_connectionParameters = cp, sm_heap = newStream, sm_streams = [], sm_openStreams = [],
      sm_roundRobinIndex = 0, sm_nextStream = (if pers = PerspectiveClient then 1 else 2), sm_highestStreamOpenedByPeer = 0,
      sm_closeErr = None, sm_nextStreamToAccept = (if pers = PerspectiveClient then 2 else 1), sm_numOutgoingStreams = 0,
      sm_numIncomingStreams = 0, sm_streamScheduler = sched\<rparr>"

section \<open>Opening streams\<close>

text \<open>A new stream enters the map, the list that the round robin walks, and the scheduler's tree.\<close>

definition putStream :: "StreamID \<Rightarrow> streamsMap \<Rightarrow> streamsMap outcome" where
  "putStream i m =
     (if i \<in> set (sm_streams m) then fail_with (Errorf ''a stream with this ID already exists'') m
      else
        let m1 = m\<lparr>sm_heap := (sm_heap m)(i := newStream i), sm_streams := sm_streams m @ [i], sm_openStreams := sm_openStreams m @ [i]\<rparr> in
        case sm_streamScheduler m1 of
          None \<Rightarrow> done_ok m1
        | Some sch \<Rightarrow> (let (err, sch1) = addNode (Some i) sch in (err, m1\<lparr>sm_streamScheduler := Some sch1\<rparr>)))"

text \<open>The counter for streams of the given side: as in the code, the side decides together with the perspective.\<close>

definition countRemote :: "streamsMap \<Rightarrow> streamsMap" where
  "countRemote m =
     (if sm_perspective m = PerspectiveServer then m\<lparr>sm_numIncomingStreams := sm_numIncomingStreams m + 1\<rparr>
      else m\<lparr>sm_numOutgoingStreams := sm_numOutgoingStreams m + 1\<rparr>)"

definition countLocal :: "streamsMap \<Rightarrow> streamsMap" where
  "countLocal m =
     (if sm_perspective m = PerspectiveServer then m\<lparr>sm_numOutgoingStreams := sm_numOutgoingStreams m + 1\<rparr>
      else m\<lparr>sm_numIncomingStreams := sm_numIncomingStreams m + 1\<rparr>)"

definition openRemoteStream :: "StreamID \<Rightarrow> streams_state \<Rightarrow> streams_state outcome" where
  "openRemoteStream i = (\<lambda>(m, f).
     if sm_numIncomingStreams m \<ge> GetMaxIncomingStreams (sm_connectionParameters m)
     then fail_with (QErr TooManyOpenStreams) (m, f)
     else if i + MaxNewStreamIDDelta < sm_highestStreamOpenedByPeer m
     then fail_with (QErr InvalidStreamID) (m, f)
     else
       let m1 = countRemote m;
           m2 = (if i > sm_highestStreamOpenedByPeer m1 then m1\<lparr>sm_highestStreamOpenedByPeer := i\<rparr> else m1)
       in done_ok (snd (putStream i m2), session_newStream i f))"

text \<open>All streams of the peer up to the one asked for are opened. The loop need not end, so it may give no result.\<close>

partial_function (option) openRemote_loop :: "StreamID \<Rightarrow> StreamID \<Rightarrow> streams_state \<Rightarrow> streams_state outcome option" where
  "openRemote_loop sid i t =
     (if sid \<le> i then
        (case openRemoteStream sid t of
           (Some err, t') \<Rightarrow> Some (Some err, t')
         | (None, t') \<Rightarrow> openRemote_loop (sid + 2) i t')
      else Some (None, t))"

text \<open>A stream that the map has no entry for: closed, not to be opened by the peer, or to be opened.\<close>

datatype streamLookup = Closed | Forbidden | Opens

definition lookupRemote :: "StreamID \<Rightarrow> streamsMap \<Rightarrow> streamLookup" where
  "lookupRemote i m =
     (if i mod 2 = (if sm_perspective m = PerspectiveServer then 0 else 1) then
        if i \<le> sm_nextStream m then Closed else Forbidden
      else if i \<le> sm_highestStreamOpenedByPeer m then Closed else Opens)"

definition nextRemoteStream :: "streamsMap \<Rightarrow> StreamID" where
  "nextRemoteStream m =
     (let sid = sm_highestStreamOpenedByPeer m + 2
      in if sid = 2 \<and> sm_perspective m = PerspectiveServer then 1 else sid)"

text \<open>The stream, if there is one, or the error; no value if the call does not return.\<close>

definition GetOrOpenStream :: "StreamID \<Rightarrow> streams_state \<Rightarrow> (StreamID option result \<times> streams_state) option" where
  "GetOrOpenStream i = (\<lambda>(m, f).
     if i \<in> set (sm_streams m) then Some (Inr (Some i), (m, f))
     else case lookupRemote i m of
         Closed \<Rightarrow> Some (Inr None, (m, f))
       | Forbidden \<Rightarrow> Some (Inl (QErr InvalidStreamID), (m, f))
       | Opens \<Rightarrow>
           (case openRemote_loop (nextRemoteStream m) i (m, f) of
              None \<Rightarrow> None
            | Some (Some err, t) \<Rightarrow> Some (Inl err, t)
            | Some (None, t) \<Rightarrow> Some (Inr (if i \<in> set (sm_streams (fst t)) then Some i else None), t)))"

definition openStreamImpl :: "streams_state \<Rightarrow> StreamID result \<times> streams_state" where
  "openStreamImpl = (\<lambda>(m, f).
     let i = sm_nextStream m in
     if sm_numOutgoingStreams m \<ge> GetMaxOutgoingStreams (sm_connectionParameters m) then (Inl (QErr TooManyOpenStreams), (m, f))
     else
       let m1 = (countLocal m)\<lparr>sm_nextStream := sm_nextStream m + 2\<rparr>
       in (Inr i, (snd (putStream i m1), session_newStream i f)))"

definition OpenStream :: "streams_state \<Rightarrow> StreamID result \<times> streams_state" where
  "OpenStream t = (case sm_closeErr (fst t) of Some err \<Rightarrow> (Inl err, t) | None \<Rightarrow> openStreamImpl t)"

text \<open>A round of the loops that wait: no result means that the call blocks.\<close>

definition OpenStreamSync :: "streams_state \<Rightarrow> (StreamID result \<times> streams_state) option" where
  "OpenStreamSync t =
     (case sm_closeErr (fst t) of
        Some err \<Rightarrow> Some (Inl err, t)
      | None \<Rightarrow>
          (case openStreamImpl t of
             (Inr i, t') \<Rightarrow> Some (Inr i, t')
           | (Inl err, t') \<Rightarrow> if err = QErr TooManyOpenStreams then None else Some (Inl err, t')))"

definition AcceptStream :: "streamsMap \<Rightarrow> (StreamID result \<times> streamsMap) option" where
  "AcceptStream m =
     (case sm_closeErr m of
        Some err \<Rightarrow> Some (Inl err, m)
      | None \<Rightarrow>
          if sm_nextStreamToAccept m \<in> set (sm_streams m)
          then Some (Inr (sm_nextStreamToAccept m), m\<lparr>sm_nextStreamToAccept := sm_nextStreamToAccept m + 2\<rparr>)
          else None)"

section \<open>Iterating\<close>

text \<open>A function that is applied to streams may change the stream and a state of its own, and says whether to go on.\<close>

type_synonym 's streamLambda = "stream \<Rightarrow> 's \<Rightarrow> bool \<times> gerror option \<times> stream \<times> 's"

definition iterateFunc :: "StreamID \<Rightarrow> 's streamLambda \<Rightarrow> streamsMap \<Rightarrow> 's \<Rightarrow> bool \<times> gerror option \<times> streamsMap \<times> 's" where
  "iterateFunc i fn m t =
     (if i \<in> set (sm_streams m) then
        let (cont, err, s, t') = fn (sm_heap m i) t in (cont, err, m\<lparr>sm_heap := (sm_heap m)(i := s)\<rparr>, t')
      else (True, Some errStreamsMapAccess, m, t))"

text \<open>\<^verbatim>\<open>RoundRobinIterate\<close>: the crypto and the header stream first, then the others from the current index on.\<close>

fun rr_first :: "StreamID list \<Rightarrow> 's streamLambda \<Rightarrow> streamsMap \<Rightarrow> 's \<Rightarrow> bool \<times> gerror option \<times> streamsMap \<times> 's" where
  "rr_first [] fn m t = (True, None, m, t)"
| "rr_first (i # is) fn m t =
     (let (cont, err, m', t') = iterateFunc i fn m t in
      if err \<noteq> None \<and> err \<noteq> Some errStreamsMapAccess then (False, err, m', t')
      else if \<not> cont then (False, None, m', t')
      else rr_first is fn m' t')"

primrec rr_loop :: "nat \<Rightarrow> u32 \<Rightarrow> u32 \<Rightarrow> u32 \<Rightarrow> 's streamLambda \<Rightarrow> streamsMap \<Rightarrow> 's \<Rightarrow> gerror option \<times> streamsMap \<times> 's" where
  "rr_loop 0 i startIndex numStreams fn m t = (None, m, t)"
| "rr_loop (Suc k) i startIndex numStreams fn m t =
     (let idx = unat ((i + startIndex) mod numStreams) in
      if idx \<ge> length (sm_openStreams m) then (Some errIndexRange, m, t)
      else
        let sid = sm_openStreams m ! idx in
        if sid = 1 \<or> sid = 3 then rr_loop k (i + 1) startIndex numStreams fn m t
        else
          let (cont, err, m', t') = iterateFunc sid fn m t in
          if err \<noteq> None then (err, m', t')
          else
            let m2 = m'\<lparr>sm_roundRobinIndex := (sm_roundRobinIndex m' + 1) mod numStreams\<rparr> in
            if cont then rr_loop k (i + 1) startIndex numStreams fn m2 t' else (None, m2, t'))"

definition RoundRobinIterate :: "'s streamLambda \<Rightarrow> streamsMap \<Rightarrow> 's \<Rightarrow> gerror option \<times> streamsMap \<times> 's" where
  "RoundRobinIterate fn m t =
     (let numStreams = of_nat (length (sm_streams m)) :: u32;
          startIndex = sm_roundRobinIndex m;
          (cont, err, m', t') = rr_first [1, 3] fn m t in
      if \<not> cont then (err, m', t')
      else rr_loop (unat numStreams) 0 startIndex numStreams fn m' t')"

section \<open>Removing and closing\<close>

text \<open>The index of the round robin moves with the elements behind the one that is removed.\<close>

fun indexOf :: "StreamID \<Rightarrow> StreamID list \<Rightarrow> nat option" where
  "indexOf i [] = None"
| "indexOf i (s # ss) = (if s = i then Some 0 else map_option Suc (indexOf i ss))"

definition streamsMap_RemoveStream :: "StreamID \<Rightarrow> streamsMap \<Rightarrow> streamsMap outcome" where
  "streamsMap_RemoveStream i m =
     (if i \<notin> set (sm_streams m) then fail_with (Errorf ''attempted to remove non-existing stream'') m
      else
        let m1 = (if i mod 2 = 0 then m\<lparr>sm_numOutgoingStreams := sm_numOutgoingStreams m - 1\<rparr>
                  else m\<lparr>sm_numIncomingStreams := sm_numIncomingStreams m - 1\<rparr>);
            m2 = (case indexOf i (sm_openStreams m1) of
                    None \<Rightarrow> m1
                  | Some k \<Rightarrow> m1\<lparr>sm_openStreams := deleteAt k (sm_openStreams m1),
                      sm_roundRobinIndex := (if of_nat k < sm_roundRobinIndex m1 then sm_roundRobinIndex m1 - 1 else sm_roundRobinIndex m1)\<rparr>)
        in done_ok (m2\<lparr>sm_streams := removeAll i (sm_streams m2)\<rparr>))"

definition CloseWithError :: "gerror option \<Rightarrow> streamsMap \<Rightarrow> streamsMap" where
  "CloseWithError err m =
     m\<lparr>sm_closeErr := err, sm_heap := fold (\<lambda>i h. h(i := Cancel err (h i))) (sm_openStreams m) (sm_heap m)\<rparr>"

text \<open>\<^verbatim>\<open>garbageCollectStreams\<close> of the session: \<^verbatim>\<open>Iterate\<close> over a copy of the list, removing the streams that are finished.\<close>

fun garbageCollect_loop :: "StreamID list \<Rightarrow> streams_state \<Rightarrow> streams_state" where
  "garbageCollect_loop [] t = t"
| "garbageCollect_loop (i # is) (m, f) =
     (if i \<notin> set (sm_streams m) then (m, f)
      else if stream_finished (sm_heap m i) then
        case streamsMap_RemoveStream i m of
          (Some err, m') \<Rightarrow> (m', f)
        | (None, m') \<Rightarrow> garbageCollect_loop is (m', flowControlManager_RemoveStream i f)
      else garbageCollect_loop is (m, f))"

definition garbageCollectStreams :: "streams_state \<Rightarrow> streams_state" where
  "garbageCollectStreams t = garbageCollect_loop (sm_openStreams (fst t)) t"

section \<open>Frames for a stream\<close>

text \<open>
  The handlers of the session for frames that name a stream. They have no result when the call that opens the stream does
  not return. The statistics that \<^verbatim>\<open>handleStreamFrame\<close> prints are left out.
\<close>

abbreviation errRstStreamOnInvalidStream :: gerror where "errRstStreamOnInvalidStream \<equiv> Errorf ''RST_STREAM received for unknown stream''"
abbreviation errWindowUpdateOnClosedStream :: gerror where "errWindowUpdateOnClosedStream \<equiv> Errorf ''WINDOW_UPDATE received for an already closed stream''"

definition handleStreamFrame :: "StreamFrame \<Rightarrow> streams_state \<Rightarrow> streams_state outcome option" where
  "handleStreamFrame frame t =
     (case GetOrOpenStream (sf_StreamID frame) t of
        None \<Rightarrow> None
      | Some (Inl err, t') \<Rightarrow> Some (fail_with err t')
      | Some (Inr None, t') \<Rightarrow> Some (done_ok t')
      | Some (Inr (Some i), (m, f)) \<Rightarrow>
          (let (err, s, f') = AddStreamFrame frame (sm_heap m i) f
           in Some (err, (m\<lparr>sm_heap := (sm_heap m)(i := s)\<rparr>, f'))))"

definition handleWindowUpdateFrame :: "WindowUpdateFrame \<Rightarrow> streams_state \<Rightarrow> streams_state outcome option" where
  "handleWindowUpdateFrame frame t =
     (let update = (\<lambda>(m, f). let (r, f') = flowControlManager_UpdateWindow (wu_StreamID frame) (wu_ByteOffset frame) f
                           in (case r of Inl err \<Rightarrow> Some err | Inr _ \<Rightarrow> None, (m, f'))) in
      if wu_StreamID frame = 0 then Some (update t)
      else case GetOrOpenStream (wu_StreamID frame) t of
          None \<Rightarrow> None
        | Some (Inl err, t') \<Rightarrow> Some (fail_with err t')
        | Some (Inr None, t') \<Rightarrow> Some (fail_with errWindowUpdateOnClosedStream t')
        | Some (Inr (Some i), t') \<Rightarrow> Some (update t'))"

text \<open>The callbacks are those of \<^verbatim>\<open>RegisterRemoteError\<close>.\<close>

definition handleRstStreamFrame :: "RstStreamFrame \<Rightarrow> streams_state \<Rightarrow> (gerror option \<times> callback list \<times> streams_state) option" where
  "handleRstStreamFrame frame t =
     (case GetOrOpenStream (rst_StreamID frame) t of
        None \<Rightarrow> None
      | Some (Inl err, t') \<Rightarrow> Some (Some err, [], t')
      | Some (Inr None, t') \<Rightarrow> Some (Some errRstStreamOnInvalidStream, [], t')
      | Some (Inr (Some i), (m, f)) \<Rightarrow>
          (let (cs, s) = RegisterRemoteError (Some (Errorf ''RST_STREAM received'')) (sm_heap m i);
               (err, f') = flowControlManager_ResetStream (rst_StreamID frame) (rst_ByteOffset frame) f
           in Some (err, cs, (m\<lparr>sm_heap := (sm_heap m)(i := s)\<rparr>, f'))))"

section \<open>The map is consistent and the limits hold\<close>

definition is_local :: "streamsMap \<Rightarrow> StreamID \<Rightarrow> bool" where
  "is_local m i \<longleftrightarrow> i mod 2 = (if sm_perspective m = PerspectiveServer then 0 else 1)"

definition open_even :: "streamsMap \<Rightarrow> nat" where
  "open_even m = length (filter (\<lambda>i. i mod 2 = 0) (sm_openStreams m))"

definition open_odd :: "streamsMap \<Rightarrow> nat" where
  "open_odd m = length (filter (\<lambda>i. i mod 2 \<noteq> 0) (sm_openStreams m))"

text \<open>
  The list and the map hold the same streams, each once; the counters count the even and the odd ones; no stream is
  ahead of the counters of opened streams; and a server keeps its limits.
\<close>

definition sm_consistent :: "streamsMap \<Rightarrow> bool" where
  "sm_consistent m \<longleftrightarrow> distinct (sm_openStreams m) \<and> distinct (sm_streams m) \<and> set (sm_streams m) = set (sm_openStreams m)
     \<and> sm_numOutgoingStreams m = of_nat (open_even m) \<and> sm_numIncomingStreams m = of_nat (open_odd m)
     \<and> (\<forall>i\<in>set (sm_openStreams m). st_streamID (sm_heap m i) = i)"

definition sm_limits :: "streamsMap \<Rightarrow> bool" where
  "sm_limits m \<longleftrightarrow> (sm_perspective m = PerspectiveServer \<longrightarrow>
     open_odd m \<le> unat (GetMaxIncomingStreams (sm_connectionParameters m))
     \<and> open_even m \<le> unat (GetMaxOutgoingStreams (sm_connectionParameters m)))"

definition sm_inv :: "streamsMap \<Rightarrow> bool" where
  "sm_inv m \<longleftrightarrow> sm_consistent m \<and> sm_limits m \<and> is_local m (sm_nextStream m)
     \<and> (sm_highestStreamOpenedByPeer m = 0 \<or> \<not> is_local m (sm_highestStreamOpenedByPeer m))
     \<and> (\<forall>i\<in>set (sm_openStreams m). if is_local m i then i < sm_nextStream m else i \<le> sm_highestStreamOpenedByPeer m)"

lemma mod2_cases: "(w :: u32) mod 2 = 0 \<or> w mod 2 = 1"
  by (metis even_mod_2_iff odd_iff_mod_2_eq_one mod_2_eq_odd of_bool_def even_iff_mod_2_eq_zero)

lemma unat_of_nat_32: "n \<le> unat (w :: u32) \<Longrightarrow> unat (of_nat n :: u32) = n"
  using unsigned_less [of w, where 'a = nat] by (simp add: unat_of_nat)
lemma putStream_fields [simp]:
  "sm_perspective (snd (putStream i m)) = sm_perspective m"
  "sm_connectionParameters (snd (putStream i m)) = sm_connectionParameters m"
  "sm_nextStream (snd (putStream i m)) = sm_nextStream m"
  "sm_highestStreamOpenedByPeer (snd (putStream i m)) = sm_highestStreamOpenedByPeer m"
  "sm_numOutgoingStreams (snd (putStream i m)) = sm_numOutgoingStreams m"
  "sm_numIncomingStreams (snd (putStream i m)) = sm_numIncomingStreams m"
  by (simp_all add: putStream_def Let_def split: option.splits prod.splits)

lemma putStream_new:
  assumes "i \<notin> set (sm_streams m)"
  shows "sm_streams (snd (putStream i m)) = sm_streams m @ [i]"
    "sm_openStreams (snd (putStream i m)) = sm_openStreams m @ [i]"
    "sm_heap (snd (putStream i m)) = (sm_heap m)(i := newStream i)"
  using assms by (simp_all add: putStream_def Let_def split: option.splits prod.splits)

lemma count_fields [simp]:
  "sm_perspective (countRemote m) = sm_perspective m" "sm_connectionParameters (countRemote m) = sm_connectionParameters m"
  "sm_nextStream (countRemote m) = sm_nextStream m" "sm_highestStreamOpenedByPeer (countRemote m) = sm_highestStreamOpenedByPeer m"
  "sm_streams (countRemote m) = sm_streams m" "sm_openStreams (countRemote m) = sm_openStreams m" "sm_heap (countRemote m) = sm_heap m"
  "sm_perspective (countLocal m) = sm_perspective m" "sm_connectionParameters (countLocal m) = sm_connectionParameters m"
  "sm_highestStreamOpenedByPeer (countLocal m) = sm_highestStreamOpenedByPeer m"
  "sm_streams (countLocal m) = sm_streams m" "sm_openStreams (countLocal m) = sm_openStreams m" "sm_heap (countLocal m) = sm_heap m"
  by (simp_all add: countRemote_def countLocal_def)

abbreviation same_end :: "streamsMap \<Rightarrow> streamsMap \<Rightarrow> bool" where
  "same_end m m' \<equiv> sm_perspective m' = sm_perspective m \<and> sm_connectionParameters m' = sm_connectionParameters m"

text \<open>
  A stream with a new ID is added and counted. The counter that goes up is the one of its parity on both sides.
\<close>

lemma added_inv:
  assumes inv: "sm_inv m" and new: "i \<notin> set (sm_streams m)"
    and m': "sm_streams m' = sm_streams m @ [i]" "sm_openStreams m' = sm_openStreams m @ [i]"
      "sm_heap m' = (sm_heap m)(i := newStream i)" "sm_perspective m' = sm_perspective m"
      "sm_connectionParameters m' = sm_connectionParameters m"
      "sm_numOutgoingStreams m' = sm_numOutgoingStreams m + (if i mod 2 = 0 then 1 else 0)"
      "sm_numIncomingStreams m' = sm_numIncomingStreams m + (if i mod 2 = 0 then 0 else 1)"
    and hi: "sm_highestStreamOpenedByPeer m' = 0 \<or> \<not> is_local m (sm_highestStreamOpenedByPeer m')"
    and pos: "is_local m (sm_nextStream m')" "sm_nextStream m \<le> sm_nextStream m'"
      "sm_highestStreamOpenedByPeer m \<le> sm_highestStreamOpenedByPeer m'"
      "if is_local m i then i < sm_nextStream m' else i \<le> sm_highestStreamOpenedByPeer m'"
    and lim: "sm_perspective m = PerspectiveServer \<Longrightarrow>
      if i mod 2 = 0 then sm_numOutgoingStreams m < GetMaxOutgoingStreams (sm_connectionParameters m)
      else sm_numIncomingStreams m < GetMaxIncomingStreams (sm_connectionParameters m)"
  shows "sm_inv m'"
proof -
  have c: "open_even m' = open_even m + (if i mod 2 = 0 then 1 else 0)" "open_odd m' = open_odd m + (if i mod 2 = 0 then 0 else 1)"
    by (simp_all add: open_even_def open_odd_def m'(2))
  have cons: "sm_consistent m" and lm: "sm_limits m" using inv by (simp_all add: sm_inv_def)
  have loc: "is_local m' j = is_local m j" for j by (simp add: is_local_def m')
  have "sm_consistent m'" using cons new by (auto simp: sm_consistent_def m' c newStream_def)
  moreover have "sm_limits m'"
    unfolding sm_limits_def m' c
  proof (intro impI)
    assume s: "sm_perspective m = PerspectiveServer"
    have "unat (sm_numOutgoingStreams m) = open_even m" "unat (sm_numIncomingStreams m) = open_odd m"
      using cons lm s by (auto simp: sm_consistent_def sm_limits_def intro: unat_of_nat_32)
    then show "open_odd m + (if i mod 2 = 0 then 0 else 1) \<le> unat (GetMaxIncomingStreams (sm_connectionParameters m))
      \<and> open_even m + (if i mod 2 = 0 then 1 else 0) \<le> unat (GetMaxOutgoingStreams (sm_connectionParameters m))"
      using lim [OF s] lm s by (auto simp: sm_limits_def word_less_nat_alt split: if_splits)
  qed
  moreover have "if is_local m j then j < sm_nextStream m' else j \<le> sm_highestStreamOpenedByPeer m'" if "j \<in> set (sm_openStreams m)" for j
    using inv that pos(2,3) by (auto simp: sm_inv_def split: if_splits)
  ultimately show ?thesis using hi pos(1,4) by (auto simp: sm_inv_def loc m'(2))
qed


lemma openRemoteStream_inv:
  assumes "sm_inv m" "\<not> is_local m i" "i > sm_highestStreamOpenedByPeer m" "openRemoteStream i (m, f) = (e, m', f')"
  shows "if e = None then sm_inv m' \<and> sm_highestStreamOpenedByPeer m' = i \<and> is_local m' = is_local m
           \<and> same_end m m' \<and> i \<in> set (sm_streams m')
         else m' = m \<and> f' = f"
proof (cases "sm_numIncomingStreams m \<ge> GetMaxIncomingStreams (sm_connectionParameters m) \<or> i + MaxNewStreamIDDelta < sm_highestStreamOpenedByPeer m")
  case True
  then show ?thesis using assms(4) by (auto simp: openRemoteStream_def split: if_splits)
next
  case False
  define m2 where "m2 = (countRemote m)\<lparr>sm_highestStreamOpenedByPeer := i\<rparr>"
  have r: "e = None" "m' = snd (putStream i m2)" using assms(3,4) False by (auto simp: openRemoteStream_def m2_def Let_def)
  have new: "i \<notin> set (sm_streams m)"
    using assms(1-3) by (auto simp: sm_inv_def sm_consistent_def split: if_splits)
  then have new2: "i \<notin> set (sm_streams m2)" by (simp add: m2_def)
  have par: "i mod 2 = (if sm_perspective m = PerspectiveServer then 1 else 0)"
    using assms(2) mod2_cases [of i] by (auto simp: is_local_def split: if_splits)
  have "sm_inv m'"
  proof (rule added_inv [OF assms(1) new])
    show "sm_numOutgoingStreams m' = sm_numOutgoingStreams m + (if i mod 2 = 0 then 1 else 0)"
      "sm_numIncomingStreams m' = sm_numIncomingStreams m + (if i mod 2 = 0 then 0 else 1)"
      using par by (auto simp: r m2_def countRemote_def split: if_splits)
    show "if is_local m i then i < sm_nextStream m' else i \<le> sm_highestStreamOpenedByPeer m'"
      using assms(2) by (simp add: r m2_def)
    show "if i mod 2 = 0 then sm_numOutgoingStreams m < GetMaxOutgoingStreams (sm_connectionParameters m)
      else sm_numIncomingStreams m < GetMaxIncomingStreams (sm_connectionParameters m)"
      if "sm_perspective m = PerspectiveServer" using that False par by (simp add: not_le)
  qed (use assms(1,3) in \<open>simp_all add: r putStream_new [OF new2], simp_all add: m2_def sm_inv_def assms(2)\<close>)
  moreover have "i \<in> set (sm_streams m')" by (simp add: r putStream_new [OF new2])
  ultimately show ?thesis by (auto simp: r m2_def is_local_def fun_eq_iff)
qed

text \<open>The IDs that have not been used yet; the heap holds new streams there. Opening a stream leaves the heap as it is.\<close>

definition unused :: "streamsMap \<Rightarrow> StreamID \<Rightarrow> bool" where
  "unused m i \<longleftrightarrow> (if is_local m i then sm_nextStream m \<le> i else sm_highestStreamOpenedByPeer m < i)"

definition unused_new :: "streamsMap \<Rightarrow> bool" where
  "unused_new m \<longleftrightarrow> (\<forall>i. unused m i \<longrightarrow> sm_heap m i = newStream i)"

definition heap_kept :: "streamsMap \<Rightarrow> streamsMap \<Rightarrow> bool" where
  "heap_kept m m' \<longleftrightarrow> (unused_new m \<longrightarrow> sm_heap m' = sm_heap m \<and> unused_new m')"

lemma heap_kept_refl [simp]: "heap_kept m m"
  by (simp add: heap_kept_def)

lemma heap_kept_trans: "heap_kept m m1 \<Longrightarrow> heap_kept m1 m2 \<Longrightarrow> heap_kept m m2"
  by (simp add: heap_kept_def)

lemma putStream_heap:
  assumes "i \<notin> set (sm_streams m)" "sm_heap m i = newStream i"
  shows "sm_heap (snd (putStream i m)) = sm_heap m"
  using assms by (auto simp: putStream_def Let_def fun_eq_iff split: option.splits prod.splits)

lemma openRemoteStream_heap:
  assumes "sm_inv m" "\<not> is_local m i" "i > sm_highestStreamOpenedByPeer m" "openRemoteStream i (m, f) = (e, m', f')"
  shows "heap_kept m m'"
proof (cases e)
  case (Some err)
  then show ?thesis using openRemoteStream_inv [OF assms] by simp
next
  case None
  define m2 where "m2 = (countRemote m)\<lparr>sm_highestStreamOpenedByPeer := i\<rparr>"
  have m': "m' = snd (putStream i m2)" using assms(3,4) None by (auto simp: openRemoteStream_def m2_def Let_def split: if_splits)
  have "i \<notin> set (sm_streams m2)" using assms(1-3) by (auto simp: m2_def sm_inv_def sm_consistent_def split: if_splits)
  moreover have "sm_heap m2 = sm_heap m" by (simp add: m2_def)
  ultimately have "sm_heap m' = sm_heap m" if "sm_heap m i = newStream i" using that putStream_heap [of i m2] unfolding m' by simp
  moreover have "sm_nextStream m' = sm_nextStream m" "is_local m' = is_local m" "sm_highestStreamOpenedByPeer m' = i"
    using openRemoteStream_inv [OF assms] None by (auto simp: m' m2_def)
  ultimately show ?thesis using assms(2,3) by (auto simp: heap_kept_def unused_new_def unused_def split: if_splits)
qed

text \<open>The loop opens the streams one after the other, and ends.\<close>

lemma succ_stream:
  assumes "sid \<le> i" "i < 0xFFFFFFFE" shows "sid < sid + (2 :: u32)" "(sid + 2) mod 2 = sid mod 2"
proof -
  have l: "unat sid + 2 < 2 ^ 32" using assms by (simp add: word_le_nat_alt word_less_nat_alt)
  then have "unat (sid + 2) = unat sid + 2" by (subst unat_plus_if') simp
  then show "sid < sid + 2" "(sid + 2) mod 2 = sid mod 2" by (simp_all add: word_less_nat_alt word_unat_eq_iff unat_mod)
qed

lemma succ_stream_le:
  assumes "sid \<le> i" "i < 0xFFFFFFFE" "sid \<noteq> i" "sid mod 2 = i mod 2" shows "sid + (2 :: u32) \<le> i"
proof -
  have l: "unat sid + 2 < 2 ^ 32" "unat sid < unat i"
    using assms(1-3) by (auto simp: word_le_nat_alt word_less_nat_alt word_unat_eq_iff)
  have "unat sid mod 2 = unat i mod 2" using arg_cong [OF assms(4), of unat] by (simp add: unat_mod)
  then have "unat sid + 2 \<le> unat i" using l(2) by presburger
  moreover have "unat (sid + 2) = unat sid + 2" using l(1) by (subst unat_plus_if') simp
  ultimately show ?thesis by (simp add: word_le_nat_alt)
qed

lemma openRemote_loop_inv:
  assumes "sm_inv m" "sm_highestStreamOpenedByPeer m < sid" "\<not> is_local m sid" "i < 0xFFFFFFFE"
  shows "\<exists>e m' f'. openRemote_loop sid i (m, f) = Some (e, m', f') \<and> sm_inv m' \<and> same_end m m' \<and> heap_kept m m'
    \<and> (e = None \<longrightarrow> sid \<le> i \<longrightarrow> sid mod 2 = i mod 2 \<longrightarrow> i \<in> set (sm_streams m'))"
  using assms
proof (induction "unat i + 1 - unat sid" arbitrary: sid m f rule: less_induct)
  case less
  show ?case
  proof (cases "sid \<le> i")
    case False
    then show ?thesis using less.prems by (subst openRemote_loop.simps) auto
  next
    case True
    obtain e m1 f1 where o: "openRemoteStream sid (m, f) = (e, m1, f1)" by (cases "openRemoteStream sid (m, f)") auto
    note hp = openRemoteStream_heap [OF less.prems(1,3,2) o] and st = openRemoteStream_inv [OF less.prems(1,3,2) o] and nx = succ_stream [OF True less.prems(4)]
    show ?thesis
    proof (cases e)
      case (Some err)
      then show ?thesis using True o st less.prems(1) by (subst openRemote_loop.simps) auto
    next
      case None
      have d: "unat i + 1 - unat (sid + 2) < unat i + 1 - unat sid" using nx(1) True by (simp add: word_less_nat_alt word_le_nat_alt)
      obtain e' m' f' where r: "openRemote_loop (sid + 2) i (m1, f1) = Some (e', m', f')" "sm_inv m' \<and> same_end m1 m' \<and> heap_kept m1 m'"
        "e' = None \<longrightarrow> sid + 2 \<le> i \<longrightarrow> (sid + 2) mod 2 = i mod 2 \<longrightarrow> i \<in> set (sm_streams m')"
        using less.hyps [OF d, of m1 f1] st None nx less.prems by (auto simp: is_local_def)
      have "i \<in> set (sm_streams m')" if "e' = None" "sid mod 2 = i mod 2"
      proof (cases "sid = i")
        case True
        then have "\<not> sid + 2 \<le> i" using nx(1) by simp
        then have "m' = m1" using r(1) by (subst (asm) openRemote_loop.simps) simp
        then show ?thesis using st None True by simp
      next
        case False
        then show ?thesis using r(3) that nx succ_stream_le [OF True less.prems(4) False that(2)] by simp
      qed
      moreover have "openRemote_loop sid i (m, f) = Some (e', m', f')"
        using True o None r(1) by (subst openRemote_loop.simps) simp
      ultimately show ?thesis using r(2) st None heap_kept_trans [OF hp] by auto
    qed
  qed
qed

lemma GetOrOpenStream_inv:
  assumes "sm_inv m" "i < 0xFFFFFFFE"
  shows "\<exists>r m' f'. GetOrOpenStream i (m, f) = Some (r, m', f') \<and> sm_inv m' \<and> same_end m m' \<and> heap_kept m m'"
proof (cases "i \<in> set (sm_streams m) \<or> lookupRemote i m \<noteq> Opens")
  case True
  then show ?thesis using assms(1) by (auto simp: GetOrOpenStream_def split: streamLookup.splits)
next
  case False
  then have op: "\<not> is_local m i" "sm_highestStreamOpenedByPeer m < i"
    by (auto simp: lookupRemote_def is_local_def split: if_splits)
  let ?h = "sm_highestStreamOpenedByPeer m"
  note h2 = succ_stream [OF less_imp_le [OF op(2)] assms(2)]
  have "?h < nextRemoteStream m \<and> \<not> is_local m (nextRemoteStream m)"
  proof (cases "?h + 2 = 2 \<and> sm_perspective m = PerspectiveServer")
    case True
    then show ?thesis by (simp add: nextRemoteStream_def Let_def is_local_def)
  next
    case False
    then have "\<not> is_local m ?h" using assms(1) by (auto simp: sm_inv_def is_local_def split: if_splits)
    then show ?thesis using False h2 by (auto simp: nextRemoteStream_def Let_def is_local_def)
  qed
  then show ?thesis
    using openRemote_loop_inv [OF assms(1) _ _ assms(2), of "nextRemoteStream m" f] False
    by (fastforce simp: GetOrOpenStream_def split: option.splits)
qed

lemma openStreamImpl_heap:
  assumes "sm_inv m" "sm_nextStream m < 0xFFFFFFFE"
  shows "heap_kept m (fst (snd (openStreamImpl (m, f))))"
proof (cases "sm_numOutgoingStreams m \<ge> GetMaxOutgoingStreams (sm_connectionParameters m)")
  case False
  let ?i = "sm_nextStream m" and ?m' = "fst (snd (openStreamImpl (m, f)))"
  define m1 where "m1 = (countLocal m)\<lparr>sm_nextStream := ?i + 2\<rparr>"
  have loc: "is_local m ?i" using assms(1) by (simp add: sm_inv_def)
  have m': "?m' = snd (putStream ?i m1)" using False by (simp add: openStreamImpl_def m1_def Let_def)
  have "?i \<notin> set (sm_streams m1)" using assms(1) by (auto simp: m1_def sm_inv_def sm_consistent_def split: if_splits)
  moreover have "sm_heap m1 = sm_heap m" by (simp add: m1_def)
  ultimately have heap: "sm_heap ?m' = sm_heap m" if "sm_heap m ?i = newStream ?i" using that putStream_heap [of ?i m1] unfolding m' by simp
  have "sm_nextStream ?m' = ?i + 2" "is_local ?m' = is_local m" "sm_highestStreamOpenedByPeer ?m' = sm_highestStreamOpenedByPeer m"
    by (auto simp: m' m1_def is_local_def fun_eq_iff)
  moreover have "?i \<le> j" if "?i + 2 \<le> j" for j
    by (rule order_trans [OF less_imp_le [OF succ_stream(1) [OF order_refl assms(2)]] that])
  ultimately have "unused m j" if "unused ?m' j" for j using that by (simp add: unused_def split: if_splits)
  moreover have "unused m ?i" using loc by (simp add: unused_def)
  ultimately show ?thesis using heap by (simp add: heap_kept_def unused_new_def)
qed (simp add: openStreamImpl_def)

lemma openStreamImpl_inv:
  assumes "sm_inv m" "sm_nextStream m < 0xFFFFFFFE"
  shows "sm_inv (fst (snd (openStreamImpl (m, f))))"
proof (cases "sm_numOutgoingStreams m \<ge> GetMaxOutgoingStreams (sm_connectionParameters m)")
  case True
  then show ?thesis using assms(1) by (simp add: openStreamImpl_def)
next
  case False
  let ?i = "sm_nextStream m"
  define m1 where "m1 = (countLocal m)\<lparr>sm_nextStream := ?i + 2\<rparr>"
  have loc: "is_local m ?i" using assms(1) by (simp add: sm_inv_def)
  have new: "?i \<notin> set (sm_streams m)" using assms(1) by (auto simp: sm_inv_def sm_consistent_def split: if_splits)
  then have new1: "?i \<notin> set (sm_streams m1)" by (simp add: m1_def)
  note nx = succ_stream [OF order.refl assms(2)]
  have par: "?i mod 2 = (if sm_perspective m = PerspectiveServer then 0 else 1)" using loc by (simp add: is_local_def)
  have "sm_inv (snd (putStream ?i m1))"
  proof (rule added_inv [OF assms(1) new])
    show "sm_numOutgoingStreams (snd (putStream ?i m1)) = sm_numOutgoingStreams m + (if ?i mod 2 = 0 then 1 else 0)"
      "sm_numIncomingStreams (snd (putStream ?i m1)) = sm_numIncomingStreams m + (if ?i mod 2 = 0 then 0 else 1)"
      using par by (auto simp: m1_def countLocal_def split: if_splits)
    show "is_local m (sm_nextStream (snd (putStream ?i m1)))" using loc nx(2) by (simp add: m1_def is_local_def)
    show "sm_nextStream m \<le> sm_nextStream (snd (putStream ?i m1))" using nx(1) by (simp add: m1_def)
    show "if is_local m ?i then ?i < sm_nextStream (snd (putStream ?i m1)) else ?i \<le> sm_highestStreamOpenedByPeer (snd (putStream ?i m1))"
      using loc nx(1) by (simp add: m1_def)
    show "if ?i mod 2 = 0 then sm_numOutgoingStreams m < GetMaxOutgoingStreams (sm_connectionParameters m)
      else sm_numIncomingStreams m < GetMaxIncomingStreams (sm_connectionParameters m)"
      if "sm_perspective m = PerspectiveServer" using that False par by (simp add: not_le)
  qed (use assms(1) in \<open>simp_all add: putStream_new [OF new1], simp_all add: m1_def sm_inv_def\<close>)
  then show ?thesis using False by (simp add: openStreamImpl_def Let_def m1_def)
qed

lemma indexOf_remove1: "indexOf i ss = Some k \<Longrightarrow> deleteAt k ss = remove1 i ss"
  by (induction ss arbitrary: k) (auto simp: deleteAt_def split: if_splits)

lemma indexOf_None: "indexOf i ss = None \<longleftrightarrow> i \<notin> set ss"
  by (induction ss) (auto split: if_splits)

lemma RemoveStream_inv:
  assumes "sm_inv m"
  shows "sm_inv (snd (streamsMap_RemoveStream i m))"
proof (cases "i \<in> set (sm_streams m)")
  case False
  then show ?thesis using assms by (simp add: streamsMap_RemoveStream_def)
next
  case True
  let ?m = "snd (streamsMap_RemoveStream i m)"
  have i: "i \<in> set (sm_openStreams m)" using assms True by (simp add: sm_inv_def sm_consistent_def)
  then obtain k where k: "indexOf i (sm_openStreams m) = Some k" using indexOf_None by (cases "indexOf i (sm_openStreams m)") auto
  have o: "sm_openStreams ?m = remove1 i (sm_openStreams m)" "sm_streams ?m = removeAll i (sm_streams m)"
    "sm_heap ?m = sm_heap m" "sm_perspective ?m = sm_perspective m" "sm_connectionParameters ?m = sm_connectionParameters m"
    "sm_nextStream ?m = sm_nextStream m" "sm_highestStreamOpenedByPeer ?m = sm_highestStreamOpenedByPeer m"
    "sm_numOutgoingStreams ?m = (if i mod 2 = 0 then sm_numOutgoingStreams m - 1 else sm_numOutgoingStreams m)"
    "sm_numIncomingStreams ?m = (if i mod 2 = 0 then sm_numIncomingStreams m else sm_numIncomingStreams m - 1)"
    using True k by (simp_all add: streamsMap_RemoveStream_def Let_def indexOf_remove1)
  have e: "open_even ?m + (if i mod 2 = 0 then 1 else 0) = open_even m" "open_odd ?m + (if i mod 2 = 0 then 0 else 1) = open_odd m"
    using i by (auto simp: open_even_def open_odd_def o filter_remove1 length_remove1 Suc_diff_Suc length_pos_if_in_set
        simp flip: length_greater_0_conv)
  have loc: "is_local ?m = is_local m" by (simp add: is_local_def fun_eq_iff o)
  have c: "sm_numOutgoingStreams m = of_nat (open_even m)" "sm_numIncomingStreams m = of_nat (open_odd m)"
    using assms by (simp_all add: sm_inv_def sm_consistent_def)
  have "sm_consistent ?m"
    using assms c unfolding sm_inv_def sm_consistent_def e [symmetric] o by (auto simp: o intro: distinct_removeAll)
  moreover have "sm_limits ?m" using assms e by (auto simp: sm_inv_def sm_limits_def o split: if_splits)
  moreover have "set (sm_openStreams ?m) \<subseteq> set (sm_openStreams m)" by (simp add: o set_remove1_subset)
  ultimately show ?thesis using assms by (auto simp: sm_inv_def loc o(6,7) dest!: subsetD)
qed

text \<open>
  The states of the map of an end: streams are opened from both sides, accepted, used, removed and closed. Stream IDs do
  not reach the end of their range, where the loop that opens streams would start again at 0.
\<close>

inductive sm_reachable :: "Perspective \<Rightarrow> connectionParametersManager \<Rightarrow> streamsMap \<Rightarrow> bool" for pers cp where
  start: "sm_reachable pers cp (newStreamsMap pers cp sch)"
| get: "sm_reachable pers cp m \<Longrightarrow> i < 0xFFFFFFFE \<Longrightarrow> GetOrOpenStream i (m, f) = Some (r, m', f') \<Longrightarrow> sm_reachable pers cp m'"
| opened: "sm_reachable pers cp m \<Longrightarrow> sm_nextStream m < 0xFFFFFFFE \<Longrightarrow> OpenStream (m, f) = (r, m', f') \<Longrightarrow> sm_reachable pers cp m'"
| accept: "sm_reachable pers cp m \<Longrightarrow> AcceptStream m = Some (r, m') \<Longrightarrow> sm_reachable pers cp m'"
| uses: "sm_reachable pers cp m \<Longrightarrow> st_streamID s = st_streamID (sm_heap m i) \<Longrightarrow> sm_reachable pers cp (m\<lparr>sm_heap := (sm_heap m)(i := s)\<rparr>)"
| schedules: "sm_reachable pers cp m \<Longrightarrow> sm_reachable pers cp (m\<lparr>sm_streamScheduler := sch, sm_roundRobinIndex := k\<rparr>)"
| remove: "sm_reachable pers cp m \<Longrightarrow> sm_reachable pers cp (snd (streamsMap_RemoveStream i m))"
| close: "sm_reachable pers cp m \<Longrightarrow> sm_reachable pers cp (CloseWithError e m)"

lemma sm_inv_cong:
  assumes "sm_inv m" "sm_streams m' = sm_streams m" "sm_openStreams m' = sm_openStreams m"
    "sm_perspective m' = sm_perspective m" "sm_connectionParameters m' = sm_connectionParameters m"
    "sm_numOutgoingStreams m' = sm_numOutgoingStreams m" "sm_numIncomingStreams m' = sm_numIncomingStreams m"
    "sm_nextStream m' = sm_nextStream m" "sm_highestStreamOpenedByPeer m' = sm_highestStreamOpenedByPeer m"
    "\<And>i. i \<in> set (sm_openStreams m) \<Longrightarrow> st_streamID (sm_heap m' i) = i"
  shows "sm_inv m'"
  using assms by (simp add: sm_inv_def sm_consistent_def sm_limits_def is_local_def open_even_def open_odd_def)

lemma sm_inv_ids: "sm_inv m \<Longrightarrow> i \<in> set (sm_openStreams m) \<Longrightarrow> st_streamID (sm_heap m i) = i"
  by (simp add: sm_inv_def sm_consistent_def)

lemma cancel_all_streamID: "st_streamID (fold (\<lambda>i h. h(i := Cancel e (h i))) ss h j) = st_streamID (h j)"
  by (induction ss arbitrary: h) (auto simp: other_ops_same)

lemma sm_reachable_inv:
  assumes "sm_reachable pers cp m"
  shows "sm_inv m \<and> sm_perspective m = pers \<and> sm_connectionParameters m = cp"
  using assms
proof induction
  case (start sch)
  then show ?case
    by (cases pers) (simp_all add: newStreamsMap_def sm_inv_def sm_consistent_def sm_limits_def is_local_def open_even_def open_odd_def)
next
  case (get m i f r m' f')
  then show ?case using GetOrOpenStream_inv [of m i f] by auto
next
  case (opened m f r m' f')
  then show ?case using openStreamImpl_inv [of m f]
    by (auto simp: OpenStream_def openStreamImpl_def Let_def split: option.splits if_splits)
next
  case (accept m r m')
  then show ?case by (auto simp: AcceptStream_def sm_inv_ids intro!: sm_inv_cong [of m] split: option.splits if_splits)
next
  case (uses m s i)
  then show ?case by (auto simp: sm_inv_ids intro!: sm_inv_cong [of m])
next
  case (schedules m sch k)
  then show ?case by (auto simp: sm_inv_ids intro!: sm_inv_cong [of m])
next
  case (remove m i)
  have "same_end m (snd (streamsMap_RemoveStream i m))" by (simp add: streamsMap_RemoveStream_def Let_def split: option.splits)
  then show ?case using remove RemoveStream_inv by simp
next
  case (close m e)
  then show ?case by (auto simp: CloseWithError_def cancel_all_streamID sm_inv_ids intro!: sm_inv_cong [of m])
qed

text \<open>
  C37: The map of streams. In every state of either end the list and the map hold the same streams, each once, under
  their own IDs, and the counters are the numbers of open streams with even and odd ID. A server never has more than
  1100 streams of the client open, nor more of its own than negotiated. On a client the counters are compared the wrong
  way round: \<^verbatim>\<open>OpenStream\<close> depends on the number of streams the server has opened, however many the client has.
\<close>

theorem stream_limits:
  assumes "sm_reachable pers cp m"
  shows "sm_consistent m
    \<and> (pers = PerspectiveServer \<longrightarrow> open_odd m \<le> 1100 \<and> open_even m \<le> unat (GetMaxOutgoingStreams cp))
    \<and> (pers = PerspectiveClient \<and> sm_closeErr m = None \<longrightarrow>
        (\<exists>i. fst (OpenStream (m, f)) = Inr i) = (of_nat (open_even m) < GetMaxOutgoingStreams cp))"
proof -
  have inv: "sm_inv m" "sm_perspective m = pers" "sm_connectionParameters m = cp" using sm_reachable_inv [OF assms] by simp_all
  have "unat (GetMaxIncomingStreams cp) = 1100"
    by (simp add: GetMaxIncomingStreams_def MaxUint32_def MaxIncomingDynamicStreamsPerConnection_def MaxStreamsMinimumIncrement_def)
  then show ?thesis
    using inv by (auto simp: sm_inv_def sm_limits_def sm_consistent_def OpenStream_def openStreamImpl_def Let_def not_less)
qed

theorem stream_limits_witness:
  "\<forall>f. \<exists>r m f'. GetOrOpenStream 5 (newStreamsMap PerspectiveServer
       (NewConnectionParamatersManager PerspectiveServer VersionMP 1000 1000 0) None, f) = Some (r, m, f')
     \<and> sm_consistent m \<and> open_odd m \<le> 1100"
proof
  fix f
  let ?cp = "NewConnectionParamatersManager PerspectiveServer VersionMP 1000 1000 0"
  have r: "sm_reachable PerspectiveServer ?cp (newStreamsMap PerspectiveServer ?cp None)" by (rule sm_reachable.start)
  obtain x m f' where g: "GetOrOpenStream 5 (newStreamsMap PerspectiveServer ?cp None, f) = Some (x, m, f')"
    using GetOrOpenStream_inv [of "newStreamsMap PerspectiveServer ?cp None" 5 f] sm_reachable_inv [OF r] by auto
  have "sm_reachable PerspectiveServer ?cp m" by (rule sm_reachable.get [OF r _ g]) simp
  then show "\<exists>r m f'. GetOrOpenStream 5 (newStreamsMap PerspectiveServer ?cp None, f) = Some (r, m, f')
     \<and> sm_consistent m \<and> open_odd m \<le> 1100" using g stream_limits [of PerspectiveServer ?cp m f] by auto
qed

section \<open>Iterating over the streams\<close>

text \<open>
  The contract of a function that is applied to the streams: it never fails, and it keeps a property of the streams and
  its own state. Then the round robin keeps that property too, it never leaves the list of streams, and it
  changes nothing else in the map but its index.
\<close>

definition only_streams :: "streamsMap \<Rightarrow> streamsMap \<Rightarrow> bool" where
  "only_streams m m' \<longleftrightarrow> m'\<lparr>sm_heap := sm_heap m, sm_roundRobinIndex := sm_roundRobinIndex m\<rparr> = m"

lemma only_streams_refl: "only_streams m m"
  by (simp add: only_streams_def)

lemma only_streams_heap: "only_streams m m' \<Longrightarrow> only_streams m (m'\<lparr>sm_heap := h\<rparr>)"
  by (simp add: only_streams_def)

lemma only_streams_index: "only_streams m m' \<Longrightarrow> only_streams m (m'\<lparr>sm_roundRobinIndex := k\<rparr>)"
  by (simp add: only_streams_def)

lemma only_streams_fields:
  assumes "only_streams m m'"
  shows "sm_streams m' = sm_streams m" "sm_openStreams m' = sm_openStreams m" "sm_streamScheduler m' = sm_streamScheduler m"
  using assms [unfolded only_streams_def, THEN arg_cong, of sm_streams] assms [unfolded only_streams_def, THEN arg_cong, of sm_openStreams]
    assms [unfolded only_streams_def, THEN arg_cong, of sm_streamScheduler] by simp_all

locale stream_iteration =
  fixes fn :: "'s streamLambda" and Q :: "(StreamID \<Rightarrow> stream) \<Rightarrow> 's \<Rightarrow> bool" and live :: "StreamID set"
  assumes step: "i \<in> live \<Longrightarrow> Q h t \<Longrightarrow> fn (h i) t = (cont, err, s, t') \<Longrightarrow> err = None \<and> Q (h(i := s)) t'"
begin

lemma iterate:
  assumes "set (sm_streams m) = live" "Q (sm_heap m) t" "only_streams m0 m" "iterateFunc i fn m t = (cont, err, m', t')"
  shows "Q (sm_heap m') t' \<and> only_streams m0 m' \<and> err = (if i \<in> live then None else Some errStreamsMapAccess)"
proof (cases "i \<in> live")
  case True
  obtain c e s t2 where f: "fn (sm_heap m i) t = (c, e, s, t2)" by (cases "fn (sm_heap m i) t") auto
  then have "cont = c" "err = e" "m' = m\<lparr>sm_heap := (sm_heap m)(i := s)\<rparr>" "t' = t2"
    using assms(1,4) True by (auto simp: iterateFunc_def)
  then show ?thesis using step [OF True assms(2) f] assms(3) True by (simp add: only_streams_heap)
next
  case False
  then show ?thesis using assms by (auto simp: iterateFunc_def)
qed

lemma first:
  assumes "set (sm_streams m) = live" "Q (sm_heap m) t" "only_streams m0 m" "rr_first is fn m t = (cont, err, m', t')"
  shows "Q (sm_heap m') t' \<and> only_streams m0 m' \<and> err = None"
  using assms
proof (induction "is" arbitrary: m t)
  case (Cons i "is")
  obtain c e m1 t1 where it: "iterateFunc i fn m t = (c, e, m1, t1)" by (cases "iterateFunc i fn m t") auto
  note one = iterate [OF Cons.prems(1-3) it] and same = iterate [OF Cons.prems(1,2) only_streams_refl it]
  have "set (sm_streams m1) = live" using same only_streams_fields(1) Cons.prems(1) by metis
  then show ?case using Cons.IH [of m1 t1] Cons.prems(4) one it by (auto split: if_splits)
qed auto

lemma loop:
  assumes "set (sm_streams m) = live" "set (sm_openStreams m) = live" "Q (sm_heap m) t" "only_streams m0 m"
    and "length (sm_openStreams m) = unat num" "num \<noteq> 0" "rr_loop k i start num fn m t = (err, m', t')"
  shows "Q (sm_heap m') t' \<and> only_streams m0 m' \<and> err = None"
  using assms
proof (induction k arbitrary: i m t)
  case (Suc k)
  let ?idx = "unat ((i + start) mod num)"
  have idx: "?idx < length (sm_openStreams m)" using Suc.prems(5,6) by (simp add: unat_mod unat_gt_0)
  let ?sid = "sm_openStreams m ! ?idx"
  have live: "?sid \<in> live" using idx Suc.prems(2) nth_mem by blast
  obtain c e m1 t1 where it: "iterateFunc ?sid fn m t = (c, e, m1, t1)" by (cases "iterateFunc ?sid fn m t") auto
  note one = iterate [OF Suc.prems(1,3,4) it] and same = iterate [OF Suc.prems(1,3) only_streams_refl it]
  let ?m2 = "m1\<lparr>sm_roundRobinIndex := (sm_roundRobinIndex m1 + 1) mod num\<rparr>"
  have f: "sm_streams m1 = sm_streams m" "sm_openStreams m1 = sm_openStreams m" using same only_streams_fields by blast+
  have e: "e = None" using one live by simp
  have o2: "only_streams m0 ?m2" using one only_streams_index by blast
  show ?case
  proof (cases "?sid = 1 \<or> ?sid = 3")
    case True
    then show ?thesis using Suc.IH [of m t "i + 1"] Suc.prems idx by simp
  next
    case False
    show ?thesis
    proof (cases c)
      case True
      then have "rr_loop k (i + 1) start num fn ?m2 t1 = (err, m', t')"
        using Suc.prems(7) idx False it e by (simp add: Let_def)
      then show ?thesis using Suc.IH [of ?m2 t1 "i + 1"] Suc.prems(1,2,5,6) one o2 f by simp
    next
      case c: False
      then show ?thesis using Suc.prems(7) idx False it e one o2 by (auto simp: Let_def)
    qed
  qed
qed auto

lemma round_robin:
  assumes "sm_consistent m" "set (sm_streams m) = live" "Q (sm_heap m) t" "length (sm_streams m) < 2 ^ 32"
    and "RoundRobinIterate fn m t = (err, m', t')"
  shows "Q (sm_heap m') t' \<and> only_streams m m' \<and> err = None"
proof -
  let ?num = "of_nat (length (sm_streams m)) :: u32"
  obtain c e m1 t1 where fi: "rr_first [1, 3] fn m t = (c, e, m1, t1)" by (cases "rr_first [1, 3] fn m t") auto
  note one = first [OF assms(2,3) only_streams_refl fi]
  have f: "sm_streams m1 = sm_streams m" "sm_openStreams m1 = sm_openStreams m" using one only_streams_fields by blast+
  have l: "length (sm_openStreams m) = length (sm_streams m)" "set (sm_openStreams m) = live"
    using assms(1,2) distinct_card [of "sm_streams m"] distinct_card [of "sm_openStreams m"] by (simp_all add: sm_consistent_def)
  have n: "unat ?num = length (sm_streams m)" using assms(4) by (simp add: unat_of_nat)
  have rr: "RoundRobinIterate fn m t = (if \<not> c then (e, m1, t1) else rr_loop (unat ?num) 0 (sm_roundRobinIndex m) ?num fn m1 t1)"
    unfolding RoundRobinIterate_def Let_def fi by simp
  show ?thesis
  proof (cases "\<not> c \<or> ?num = 0")
    case True
    then show ?thesis using rr assms(5) one by (auto split: if_splits)
  next
    case False
    then have "rr_loop (unat ?num) 0 (sm_roundRobinIndex m) ?num fn m1 t1 = (err, m', t')"
      using rr assms(5) by simp
    then show ?thesis using loop [of m1 t1 m ?num] one f l n assms(2) False by simp
  qed
qed

end

end
