(* ===== verification/Unpacker.thy ===== *)
theory Unpacker
  imports PublicHeaders
begin

text \<open>
  The packet unpacker, \<^verbatim>\<open>packet_unpacker.go\<close>: decryption, then a loop that reads frames until
  the payload is used up. The frame interface of \<^verbatim>\<open>internal/wire/frame.go\<close> becomes the datatype
  \<open>Frame\<close>. Opening a packet (\<^verbatim>\<open>quicAEAD\<close>) is a parameter.
\<close>

section \<open>Frames of all types\<close>

datatype Frame =
    FStream StreamFrame
  | FAck AckFrame
  | FRstStream RstStreamFrame
  | FConnectionClose ConnectionCloseFrame
  | FGoaway GoawayFrame
  | FWindowUpdate WindowUpdateFrame
  | FBlocked BlockedFrame
  | FStopWaiting StopWaitingFrame
  | FPing PingFrame
  | FAddAddress AddAddressFrame
  | FClosePath ClosePathFrame
  | FPaths PathsFrame

text \<open>The method \<^verbatim>\<open>Write\<close> of the interface; an ACK frame reads the clock.\<close>

primrec Frame_Write :: "int \<Rightarrow> Frame \<Rightarrow> VersionNumber \<Rightarrow> wresult" where
  "Frame_Write now (FStream f) v = StreamFrame_Write f v"
| "Frame_Write now (FAck f) v = fst (AckFrame_Write now f v)"
| "Frame_Write now (FRstStream f) v = RstStreamFrame_Write f v"
| "Frame_Write now (FConnectionClose f) v = ConnectionCloseFrame_Write f v"
| "Frame_Write now (FGoaway f) v = GoawayFrame_Write f v"
| "Frame_Write now (FWindowUpdate f) v = WindowUpdateFrame_Write f v"
| "Frame_Write now (FBlocked f) v = BlockedFrame_Write f v"
| "Frame_Write now (FStopWaiting f) v = StopWaitingFrame_Write f v"
| "Frame_Write now (FPing f) v = PingFrame_Write f v"
| "Frame_Write now (FAddAddress f) v = AddAddressFrame_Write f v"
| "Frame_Write now (FClosePath f) v = ClosePathFrame_Write f v"
| "Frame_Write now (FPaths f) v = PathsFrame_Write f v"

primrec Frame_MinLength :: "Frame \<Rightarrow> VersionNumber \<Rightarrow> ByteCount result" where
  "Frame_MinLength (FStream f) v = StreamFrame_MinLength f v"
| "Frame_MinLength (FAck f) v = AckFrame_MinLength f v"
| "Frame_MinLength (FRstStream f) v = RstStreamFrame_MinLength f v"
| "Frame_MinLength (FConnectionClose f) v = ConnectionCloseFrame_MinLength f v"
| "Frame_MinLength (FGoaway f) v = GoawayFrame_MinLength f v"
| "Frame_MinLength (FWindowUpdate f) v = WindowUpdateFrame_MinLength f v"
| "Frame_MinLength (FBlocked f) v = BlockedFrame_MinLength f v"
| "Frame_MinLength (FStopWaiting f) v = StopWaitingFrame_MinLength f v"
| "Frame_MinLength (FPing f) v = PingFrame_MinLength f v"
| "Frame_MinLength (FAddAddress f) v = AddAddressFrame_MinLength f v"
| "Frame_MinLength (FClosePath f) v = ClosePathFrame_MinLength f v"
| "Frame_MinLength (FPaths f) v = PathsFrame_MinLength f v"

section \<open>Parsing one frame\<close>

definition pmap :: "('a \<Rightarrow> 'b) \<Rightarrow> 'a parser \<Rightarrow> 'b parser" where
  "pmap g m = pbind m (\<lambda>x. preturn (g x))"

text \<open>An error of a frame's parser is wrapped in the error code of the frame type.\<close>

fun wrapCode :: "ErrorCode \<Rightarrow> gerror \<Rightarrow> gerror" where
  "wrapCode c (Panic m) = Panic m"
| "wrapCode c _ = QErr c"

definition wrapErr :: "ErrorCode \<Rightarrow> 'a parser \<Rightarrow> 'a parser" where
  "wrapErr c m b = (case m b of Inl e \<Rightarrow> Inl (wrapCode c e) | Inr x \<Rightarrow> Inr x)"

definition parseStream :: "EncryptionLevel \<Rightarrow> VersionNumber \<Rightarrow> Frame parser" where
  "parseStream encryptionLevel version =
     pbind (wrapErr InvalidStreamData (ParseStreamFrame version)) (\<lambda>frame.
     pbind (pcheck (sf_StreamID frame \<noteq> 1 \<and> enc_level_num encryptionLevel \<le> enc_level_num EncryptionUnencrypted)
       (QErr UnencryptedStreamData)) (\<lambda>_. preturn (FStream frame)))"

definition parseFrame :: "EncryptionLevel \<Rightarrow> PublicHeader \<Rightarrow> VersionNumber \<Rightarrow> byte \<Rightarrow> Frame parser" where
  "parseFrame encryptionLevel hdr version typeByte =
     (if typeByte AND 0x80 = 0x80 then parseStream encryptionLevel version
      else if typeByte AND 0xc0 = 0x40 then pmap FAck (wrapErr InvalidAckData (ParseAckFrame version))
      else if typeByte AND 0xe0 = 0x20 then pfail (Errorf ''unimplemented: CONGESTION_FEEDBACK'')
      else if typeByte = 0x01 then pmap FRstStream (wrapErr InvalidRstStreamData (ParseRstStreamFrame version))
      else if typeByte = 0x02 then pmap FConnectionClose (wrapErr InvalidConnectionCloseData (ParseConnectionCloseFrame version))
      else if typeByte = 0x03 then pmap FGoaway (wrapErr InvalidGoawayData (ParseGoawayFrame version))
      else if typeByte = 0x04 then pmap FWindowUpdate (wrapErr InvalidWindowUpdateData (ParseWindowUpdateFrame version))
      else if typeByte = 0x05 then pmap FBlocked (wrapErr InvalidBlockedData (ParseBlockedFrame version))
      else if typeByte = 0x06 then pmap FStopWaiting (wrapErr InvalidStopWaitingData
          (ParseStopWaitingFrame (ph_PacketNumber hdr) (ph_PacketNumberLen hdr) version))
      else if typeByte = 0x07 then pmap FPing (ParsePingFrame version)
      else if typeByte = 0x10 then pmap FAddAddress (ParseAddAddressFrame version)
      else if typeByte = 0x11 then pmap FClosePath (ParseClosePathFrame version)
      else if typeByte = 0x12 then pmap FPaths (ParsePathsFrame version)
      else pfail (QErr InvalidFrameData))"

section \<open>Parsers move forward\<close>

lemma consumes_loops [consuming]:
  "consumes (leReadUintN_loop n i res)" "consumes (beReadUintN_loop len n i res)"
  "consumes (ParsePathsFrame_loop v n ids rtts)" "consumes (skipTimestamps v n)"
proof -
  show "consumes (leReadUintN_loop n i res)"
    by (induction n arbitrary: i res) (auto intro!: consuming)
  show "consumes (beReadUintN_loop len n i res)"
    by (induction n arbitrary: i res) (auto intro!: consuming)
  have u: "consumes (ReadUint16 b)" for b
    by (cases b) (auto simp: leReadUint16_def beReadUint16_def intro!: consuming)
  then show "consumes (ParsePathsFrame_loop v n ids rtts)"
    by (induction n arbitrary: ids rtts) (auto simp: readUfloat16_def intro!: consuming)
  show "consumes (skipTimestamps v n)"
    using u by (induction n) (auto intro!: consuming)
qed

lemma consumes_readers [consuming]:
  "consumes (ReadUint16 b)" "consumes (ReadUint32 b)" "consumes (ReadUint64 b)" "consumes (ReadUintN b l)"
  "consumes (readUfloat16 b)"
  by (cases b; auto simp: leReadUint16_def beReadUint16_def leReadUint32_def beReadUint32_def leReadUint64_def
      beReadUint64_def leReadUintN_def beReadUintN_def readUfloat16_def intro!: consuming)+

lemma consumes_parseAckBlocks [consuming]: "consumes (parseAckBlocks v dl n st)"
  by (induction n arbitrary: st)
    (simp_all add: consumes_preturn consumes_pbind consumes_ReadByte consumes_readers)

lemma consumes_pmap [consuming]: "consumes m \<Longrightarrow> consumes (pmap g m)"
  by (auto simp: pmap_def intro!: consuming)

lemma consumes_wrapErr [consuming]: "consumes m \<Longrightarrow> consumes (wrapErr c m)"
  by (fastforce simp: consumes_def wrapErr_def split: sum.splits)

lemma consumes_case_prod [consuming]: "(\<And>x y. consumes (g x y)) \<Longrightarrow> consumes (case p of (x, y) \<Rightarrow> g x y)"
  by (cases p) simp


lemma consumes_Let [consuming]: "(\<And>x. consumes (g x)) \<Longrightarrow> consumes (Let y g)"
  by simp

text \<open>A parser that succeeds only after it has read something.\<close>

definition progresses :: "'a parser \<Rightarrow> bool" where
  "progresses m \<longleftrightarrow> (\<forall>bs x r. m bs = Inr (x, r) \<longrightarrow> length r < length bs)"

lemma progressesD: "progresses m \<Longrightarrow> m bs = Inr (x, r) \<Longrightarrow> length r < length bs"
  by (simp add: progresses_def)

lemma progresses_ReadByte [consuming]: "progresses ReadByte"
  by (auto simp: progresses_def ReadByte_def split: list.splits)

lemma progresses_pfail [consuming]: "progresses (pfail e)"
  by (simp add: progresses_def)

lemma progresses_pbind [consuming]: "progresses m \<Longrightarrow> (\<And>x. consumes (f x)) \<Longrightarrow> progresses (pbind m f)"
  unfolding progresses_def pbind_eq_Inr by (meson consumesD le_less_trans)

lemma progresses_pmap [consuming]: "progresses m \<Longrightarrow> progresses (pmap g m)"
  by (auto simp: pmap_def intro!: consuming)

lemma progresses_wrapErr [consuming]: "progresses m \<Longrightarrow> progresses (wrapErr c m)"
  by (fastforce simp: progresses_def wrapErr_def split: sum.splits)

lemma progresses_parsers [consuming]:
  "progresses (ParseRstStreamFrame v)" "progresses (ParseConnectionCloseFrame v)" "progresses (ParseGoawayFrame v)"
  "progresses (ParseWindowUpdateFrame v)" "progresses (ParseBlockedFrame v)" "progresses (ParseStopWaitingFrame pn l v)"
  "progresses (ParsePingFrame v)" "progresses (ParseAddAddressFrame v)" "progresses (ParsePathsFrame v)"
  by (auto simp: ParseRstStreamFrame_def ParseConnectionCloseFrame_def ParseGoawayFrame_def ParseWindowUpdateFrame_def
      ParseBlockedFrame_def ParseStopWaitingFrame_def ParsePingFrame_def ParseAddAddressFrame_def ParsePathsFrame_def
      intro!: consuming)

lemma consumes_fields [consuming]:
  "consumes (ParseStreamFrame_fields v fin dlp ol sl)" "consumes (parseAckRanges v dl has n largest)"
  "consumes (parseTimestamps v)"
  by (auto simp: ParseStreamFrame_fields_def Let_def parseAckRanges_def readAckRanges_def parseTimestamps_def
      intro!: consuming)

lemma progresses_parsers2 [consuming]:
  "progresses (ParseStreamFrame v)" "progresses (ParseAckFrame v)" "progresses (ParseClosePathFrame v)"
  by (auto simp: ParseStreamFrame_def Let_def ParseAckFrame_def ParseAckFrame_fields_def ParseClosePathFrame_def
      ParseClosePathFrame_fields_def intro!: consuming)

lemma progresses_parseFrame: "progresses (parseFrame el hdr v tb)"
  unfolding parseFrame_def parseStream_def by (auto intro!: consuming)

section \<open>The loop\<close>

text \<open>
  All frames in the payload; a zero byte is a PADDING frame and is skipped. The loop ends because
  every frame takes at least its type byte.
\<close>

function unpackFrames :: "EncryptionLevel \<Rightarrow> PublicHeader \<Rightarrow> VersionNumber \<Rightarrow> byte list \<Rightarrow> Frame list result" where
  "unpackFrames el hdr version [] = Inr []"
| "unpackFrames el hdr version (typeByte # r) =
     (if typeByte = 0x0 then unpackFrames el hdr version r
      else case parseFrame el hdr version typeByte (typeByte # r) of
        Inl err \<Rightarrow> Inl err
      | Inr (frame, r') \<Rightarrow> rbind (unpackFrames el hdr version r') (\<lambda>fs. Inr (frame # fs)))"
  by pat_completeness auto
termination
  by (relation "measure (\<lambda>(el, hdr, v, bs). length bs)")
    (use progressesD [OF progresses_parseFrame] in fastforce)+

record unpackedPacket =
  up_encryptionLevel :: EncryptionLevel
  up_frames :: "Frame list"

text \<open>
  \<open>open'\<close> stands for \<^verbatim>\<open>quicAEAD.Open\<close>: source, packet number and associated data to the
  plaintext and the encryption level, or an error.
\<close>

definition Unpack ::
  "(byte list \<Rightarrow> PacketNumber \<Rightarrow> byte list \<Rightarrow> (byte list \<times> EncryptionLevel) result) \<Rightarrow> VersionNumber \<Rightarrow>
   byte list \<Rightarrow> PublicHeader \<Rightarrow> byte list \<Rightarrow> unpackedPacket result" where
  "Unpack open' version publicHeaderBinary hdr data =
     (case open' data (ph_PacketNumber hdr) publicHeaderBinary of
        Inl err \<Rightarrow> Inl (QErr DecryptionFailure)
      | Inr (decrypted, encryptionLevel) \<Rightarrow>
          if length decrypted = 0 then Inl (QErr MissingPayload)
          else rbind (unpackFrames encryptionLevel hdr version decrypted) (\<lambda>fs.
            Inr \<lparr>up_encryptionLevel = encryptionLevel, up_frames = fs\<rparr>))"

section \<open>A payload of frames\<close>

context frame_codec
begin

lemma write_size: "ok f \<Longrightarrow> \<exists>bs. wr f = Inr bs \<and> minlen f = Inr (of_nat (length bs))"
  using write_total minlen_write by blast

end

text \<open>
  A loop that reads frames with a codec until nothing is left, skipping zero bytes. Written frames
  never start with a zero byte.
\<close>

locale frame_loop = frame_codec +
  fixes loop :: "byte list \<Rightarrow> 'a list result"
  assumes loop_Nil: "loop [] = Inr []"
    and loop_padding: "loop (0 # r) = loop r"
    and loop_frame: "b \<noteq> 0 \<Longrightarrow> parse (b # r) = Inr (f, r') \<Longrightarrow> loop (b # r) = rbind (loop r') (\<lambda>fs. Inr (f # fs))"
    and type_byte: "ok f \<Longrightarrow> wr f = Inr bs \<Longrightarrow> bs \<noteq> [] \<and> hd bs \<noteq> 0"
begin

lemma loop_zeros: "loop (replicate n 0) = Inr []"
  by (induction n) (auto simp: loop_Nil loop_padding)

text \<open>Frames written one after the other, all but the last delimited, then padding, are read back.\<close>

lemma loop_frames:
  assumes "list_all ok fs" "list_all delimited (butlast fs)" "fs \<noteq> [] \<longrightarrow> delimited (last fs) \<or> n = 0"
    and "wseq (map wr fs) = Inr bs"
  shows "loop (bs @ replicate n 0) = Inr (map received fs)"
  using assms
proof (induction fs arbitrary: bs)
  case Nil
  then show ?case by (simp add: loop_zeros)
next
  case (Cons f fs)
  from Cons.prems(4) obtain b1 b2 where b: "wr f = Inr b1" "wseq (map wr fs) = Inr b2" "bs = b1 @ b2"
    by (auto split: sum.splits)
  have okf: "ok f" and ok: "list_all ok fs" using Cons.prems by auto
  have d: "delimited f \<or> b2 @ replicate n 0 = []"
    using Cons.prems b(2) by (cases fs) auto
  have p: "parse (b1 @ b2 @ replicate n 0) = Inr (received f, b2 @ replicate n 0)"
    by (rule parse_write [OF okf b(1) d])
  obtain t b1' where t: "b1 = t # b1'" "t \<noteq> 0" using type_byte [OF okf b(1)] by (cases b1) auto
  have "loop (b2 @ replicate n 0) = Inr (map received fs)"
    using Cons.IH [OF ok _ _ b(2)] Cons.prems by (cases fs) auto
  then show ?case using loop_frame [OF t(2)] p b(3) t(1) by simp
qed

text \<open>The bytes written are what the sizes add up to.\<close>

lemma sizes_add_up:
  assumes "list_all ok fs" "wseq (map wr fs) = Inr bs" "list_all2 (\<lambda>f l. minlen f = Inr l) fs ls"
  shows "of_nat (length bs) = sum_list ls"
  using assms(3,1,2)
proof (induction fs ls arbitrary: bs rule: list_all2_induct)
  case (Cons f fs l ls)
  then obtain b1 b2 where b: "wr f = Inr b1" "wseq (map wr fs) = Inr b2" "bs = b1 @ b2"
    by (auto split: sum.splits)
  then show ?case using Cons minlen_write [of f b1] by auto
qed simp

end

text \<open>The frames a sender may put into a packet with header \<open>hdr\<close>, and what the receiver sees.\<close>

fun frame_ok :: "EncryptionLevel \<Rightarrow> PublicHeader \<Rightarrow> Frame \<Rightarrow> bool" where
  "frame_ok el hdr (FStream f) \<longleftrightarrow> sf_ok f \<and> (sf_StreamID f = 1 \<or> enc_level_num el > enc_level_num EncryptionUnencrypted)"
| "frame_ok el hdr (FAck f) \<longleftrightarrow> ack_ok f"
| "frame_ok el hdr (FConnectionClose f) \<longleftrightarrow> reason_ok (cc_ReasonPhrase f)"
| "frame_ok el hdr (FGoaway f) \<longleftrightarrow> reason_ok (ga_ReasonPhrase f)"
| "frame_ok el hdr (FStopWaiting f) \<longleftrightarrow> sw_ok (ph_PacketNumber hdr) (ph_PacketNumberLen hdr) f"
| "frame_ok el hdr (FAddAddress f) \<longleftrightarrow> aa_ok f"
| "frame_ok el hdr (FClosePath f) \<longleftrightarrow> cp_ok f"
| "frame_ok el hdr (FPaths f) \<longleftrightarrow> paths_ok f"
| "frame_ok el hdr _ \<longleftrightarrow> True"

fun frame_delimited :: "Frame \<Rightarrow> bool" where
  "frame_delimited (FStream f) \<longleftrightarrow> sf_DataLenPresent f"
| "frame_delimited _ \<longleftrightarrow> True"

fun frame_received :: "int \<Rightarrow> Frame \<Rightarrow> Frame" where
  "frame_received now (FAck f) = FAck (ack_received now f)"
| "frame_received now (FStopWaiting f) = FStopWaiting (sw_received f)"
| "frame_received now (FAddAddress f) = FAddAddress (aa_received f)"
| "frame_received now (FClosePath f) = FClosePath (cp_received f)"
| "frame_received now (FPaths f) = FPaths (paths_received f)"
| "frame_received now f = f"

text \<open>The room a frame takes in a packet; for a STREAM frame \<open>MinLength\<close> is only the header.\<close>

fun Frame_size :: "Frame \<Rightarrow> VersionNumber \<Rightarrow> ByteCount result" where
  "Frame_size (FStream f) v = StreamFrame_size f v"
| "Frame_size f v = Frame_MinLength f v"

lemma pmap_Inr: "m bs = Inr (x, r) \<Longrightarrow> pmap g m bs = Inr (g x, r)"
  by (simp add: pmap_def)

lemma wrapErr_Inr: "m bs = Inr x \<Longrightarrow> wrapErr c m bs = Inr x"
  by (simp add: wrapErr_def)

lemma sf_first: "StreamFrame_Write f v = Inr bs \<Longrightarrow> bs \<noteq> [] \<and> hd bs = StreamFrame_typeByte f"
  by (auto simp: StreamFrame_Write_def split: if_splits sum.splits)

lemma ack_first: "fst (AckFrame_Write now f v) = Inr bs \<Longrightarrow> bs \<noteq> [] \<and> hd bs = AckFrame_typeByte f"
  by (auto simp: AckFrame_Write_def Let_def split: if_splits sum.splits)

lemma first_bytes:
  "RstStreamFrame_Write f1 v = Inr bs \<Longrightarrow> bs \<noteq> [] \<and> hd bs = 1"
  "ConnectionCloseFrame_Write f2 v = Inr bs \<Longrightarrow> bs \<noteq> [] \<and> hd bs = 2"
  "GoawayFrame_Write f3 v = Inr bs \<Longrightarrow> bs \<noteq> [] \<and> hd bs = 3"
  "WindowUpdateFrame_Write f4 v = Inr bs \<Longrightarrow> bs \<noteq> [] \<and> hd bs = 4"
  "BlockedFrame_Write f5 v = Inr bs \<Longrightarrow> bs \<noteq> [] \<and> hd bs = 5"
  "StopWaitingFrame_Write f6 v = Inr bs \<Longrightarrow> bs \<noteq> [] \<and> hd bs = 6"
  "PingFrame_Write f7 v = Inr bs \<Longrightarrow> bs \<noteq> [] \<and> hd bs = 7"
  "AddAddressFrame_Write f8 v = Inr bs \<Longrightarrow> bs \<noteq> [] \<and> hd bs = 0x10"
  "ClosePathFrame_Write f9 v = Inr bs \<Longrightarrow> bs \<noteq> [] \<and> hd bs = 0x11"
  "PathsFrame_Write f10 v = Inr bs \<Longrightarrow> bs \<noteq> [] \<and> hd bs = 0x12"
  by (auto simp: RstStreamFrame_Write_def ConnectionCloseFrame_Write_def GoawayFrame_Write_def
      WindowUpdateFrame_Write_def BlockedFrame_Write_def StopWaitingFrame_Write_def PingFrame_Write_def
      AddAddressFrame_Write_def ClosePathFrame_Write_def PathsFrame_Write_def Let_def split: if_splits sum.splits)


lemma ack_dispatch:
  assumes "ack_ok f"
  shows "AckFrame_typeByte f AND 0xc0 = 0x40" "AckFrame_typeByte f AND 0x80 \<noteq> 0x80" "AckFrame_typeByte f \<noteq> 0"
proof -
  have "unat (ack_LargestAcked f) < 2 ^ 48" using assms by (simp add: ack_ok_def ranges_sendable_def)
  then show c: "AckFrame_typeByte f AND 0xc0 = 0x40"
    using ack_typeByte_fields(5) GetPacketNumberLength_fits(1) ack_writeBlocks(1) [OF assms] by blast
  have "AckFrame_typeByte f AND 0x80 = (AckFrame_typeByte f AND 0xc0) AND 0x80"
    by (simp add: and.assoc)
  then show "AckFrame_typeByte f AND 0x80 \<noteq> 0x80" using c by simp
  show "AckFrame_typeByte f \<noteq> 0" using c by auto
qed

lemma stream_dispatch: "StreamFrame_typeByte f AND 0x80 = 0x80" "StreamFrame_typeByte f \<noteq> 0"
  using typeByte_fields(5) [of f] by auto

lemma frame_write_total:
  assumes "frame_ok el hdr f"
  shows "\<exists>bs. Frame_Write now f v = Inr bs \<and> Frame_size f v = Inr (of_nat (length bs))"
  using assms
  by (cases f) (auto intro: sf.write_size ack.write_size rst.write_size cc.write_size goaway.write_size wu.write_size
      blocked.write_size sw.write_size ping.write_size aa.write_size cp.write_size paths.write_size)

lemma frame_type_byte:
  assumes "frame_ok el hdr f" "Frame_Write now f v = Inr bs"
  shows "bs \<noteq> [] \<and> hd bs \<noteq> 0"
  using assms by (cases f) (auto dest!: sf_first ack_first first_bytes simp: stream_dispatch ack_dispatch)

lemma frame_parse_write:
  assumes ok: "frame_ok el hdr f" and w: "Frame_Write now f v = Inr bs" and d: "frame_delimited f \<or> r = []"
  shows "parseFrame el hdr v (hd (bs @ r)) (bs @ r) = Inr (frame_received now f, r)"
proof -
  have h: "hd (bs @ r) = hd bs" using frame_type_byte [OF ok w] by simp
  show ?thesis
  proof (cases f)
    case (FStream x)
    then have "ParseStreamFrame v (bs @ r) = Inr (x, r)" "hd bs = StreamFrame_typeByte x"
      using ok w d sf.parse_write [of x v bs r] sf_first by auto
    then show ?thesis using ok FStream
      by (auto simp: h parseFrame_def parseStream_def stream_dispatch wrapErr_Inr)
  next
    case (FAck x)
    then have "ParseAckFrame v (bs @ r) = Inr (ack_received now x, r)" "hd bs = AckFrame_typeByte x" "ack_ok x"
      using ok w ack.parse_write [of x now v bs r] ack_first by auto
    then show ?thesis using FAck by (simp add: h parseFrame_def ack_dispatch wrapErr_Inr pmap_Inr)
  qed (use ok w in \<open>auto simp: h parseFrame_def first_bytes wrapErr_Inr rst.parse_write cc.parse_write
      goaway.parse_write wu.parse_write blocked.parse_write sw.parse_write ping.parse_write aa.parse_write
      cp.parse_write paths.parse_write intro!: pmap_Inr\<close>)
qed

interpretation frames: frame_loop "\<lambda>f. Frame_Write now f v" "\<lambda>f. Frame_size f v"
  "\<lambda>bs. parseFrame el hdr v (hd bs) bs" "frame_ok el hdr" frame_delimited "frame_received now"
  "unpackFrames el hdr v" for now v el hdr
proof unfold_locales
  fix f bs r assume ok: "frame_ok el hdr f"
  show "\<exists>bs. Frame_Write now f v = Inr bs" using frame_write_total [OF ok] by blast
  assume w: "Frame_Write now f v = Inr bs"
  show "Frame_size f v = Inr (of_nat (length bs))" using frame_write_total [OF ok, of now v] w by auto
  show "bs \<noteq> [] \<and> hd bs \<noteq> 0" by (rule frame_type_byte [OF ok w])
  show "parseFrame el hdr v (hd (bs @ r)) (bs @ r) = Inr (frame_received now f, r)"
    if "frame_delimited f \<or> r = []" by (rule frame_parse_write [OF ok w that])
next
  fix b r f r' assume "b \<noteq> 0" "parseFrame el hdr v (hd (b # r)) (b # r) = Inr (f, r')"
  then show "unpackFrames el hdr v (b # r) = rbind (unpackFrames el hdr v r') (\<lambda>fs. Inr (f # fs))" by simp
qed simp_all

text \<open>
  C14: A packet delivers the frames that were put into it. When the sender writes a sequence of frames
  (all but the last with an explicit end), pads it, and the receiver's decryption returns that payload
  at an encryption level that allows the frames, the unpacker returns those frames in that order, as the
  wire carries them.
\<close>

theorem unpack_written_frames:
  assumes "list_all (frame_ok el hdr) fs" "list_all frame_delimited (butlast fs)"
    and "fs \<noteq> []" "frame_delimited (last fs) \<or> pad = 0"
    and "wseq (map (\<lambda>f. Frame_Write now f v) fs) = Inr payload"
    and "open' data (ph_PacketNumber hdr) raw = Inr (payload @ replicate pad 0, el)"
  shows "Unpack open' v raw hdr data = Inr \<lparr>up_encryptionLevel = el, up_frames = map (frame_received now) fs\<rparr>"
proof -
  obtain f fs' where fs: "fs = f # fs'" using assms(3) by (cases fs) auto
  then obtain b where "Frame_Write now f v = Inr b" using assms(5) by (auto split: sum.splits)
  then have "payload \<noteq> []"
    using frames.type_byte [of el hdr f now v b] assms(1,5) fs by (auto split: sum.splits)
  then show ?thesis
    using assms frames.loop_frames [of el hdr fs pad now v payload] by (simp add: Unpack_def)
qed


theorem unpack_written_frames_witness:
  "\<exists>payload. wseq (map (\<lambda>f. Frame_Write 0 f Version39)
      [FWindowUpdate \<lparr>wu_StreamID = 5, wu_ByteOffset = 4096\<rparr>,
       FStream \<lparr>sf_StreamID = 5, sf_FinBit = False, sf_DataLenPresent = False, sf_Offset = 7, sf_Data = [1, 2]\<rparr>]) = Inr payload
   \<and> Unpack (\<lambda>src pn ad. Inr (src, EncryptionForwardSecure)) Version39 [] PublicHeader_zero payload
     = Inr \<lparr>up_encryptionLevel = EncryptionForwardSecure, up_frames =
        [FWindowUpdate \<lparr>wu_StreamID = 5, wu_ByteOffset = 4096\<rparr>,
         FStream \<lparr>sf_StreamID = 5, sf_FinBit = False, sf_DataLenPresent = False, sf_Offset = 7, sf_Data = [1, 2]\<rparr>]\<rparr>"
proof -
  let ?f1 = "FWindowUpdate \<lparr>wu_StreamID = 5, wu_ByteOffset = 4096\<rparr>"
  let ?f2 = "FStream \<lparr>sf_StreamID = 5, sf_FinBit = False, sf_DataLenPresent = False, sf_Offset = 7, sf_Data = [1, 2]\<rparr>"
  have ok: "frame_ok EncryptionForwardSecure PublicHeader_zero ?f1" "frame_ok EncryptionForwardSecure PublicHeader_zero ?f2"
    by (simp_all add: sf_ok_def)
  obtain b1 b2 where b: "Frame_Write 0 ?f1 Version39 = Inr b1" "Frame_Write 0 ?f2 Version39 = Inr b2"
    using frame_write_total [OF ok(1)] frame_write_total [OF ok(2)] by blast
  have w: "wseq (map (\<lambda>f. Frame_Write 0 f Version39) [?f1, ?f2]) = Inr (b1 @ b2)"
    using b by simp
  have "Unpack (\<lambda>src pn ad. Inr (src, EncryptionForwardSecure)) Version39 [] PublicHeader_zero (b1 @ b2)
     = Inr \<lparr>up_encryptionLevel = EncryptionForwardSecure, up_frames = map (frame_received 0) [?f1, ?f2]\<rparr>"
    by (rule unpack_written_frames [where pad = 0, OF _ _ _ _ w]) (use ok in simp_all)
  then show ?thesis using w by simp
qed

section \<open>No payload makes the unpacker panic\<close>

fun is_panic :: "gerror \<Rightarrow> bool" where
  "is_panic (Panic m) = True" | "is_panic _ = False"

definition calm :: "'a parser \<Rightarrow> bool" where
  "calm m \<longleftrightarrow> (\<forall>bs e. m bs = Inl e \<longrightarrow> \<not> is_panic e)"

named_theorems calming

lemma calm_basic [calming]:
  "calm (preturn x)" "calm ReadByte" "calm (ReadFull n)" "calm RLen" "\<not> is_panic e \<Longrightarrow> calm (pfail e)"
  "\<not> is_panic e \<Longrightarrow> calm (pcheck b e)"
  by (auto simp: calm_def ReadByte_def ReadFull_def split: list.splits)

lemma calm_pbind [calming]: "calm m \<Longrightarrow> (\<And>x. calm (f x)) \<Longrightarrow> calm (pbind m f)"
  unfolding calm_def pbind_def by (fastforce split: sum.splits prod.splits)

lemma calm_if [calming]: "calm m \<Longrightarrow> calm n \<Longrightarrow> calm (if b then m else n)"
  by simp

lemma calm_case_prod [calming]: "(\<And>x y. calm (g x y)) \<Longrightarrow> calm (case p of (x, y) \<Rightarrow> g x y)"
  by (cases p) simp

lemma calm_wrap [calming]: "calm m \<Longrightarrow> calm (wrapErr c m)"
proof -
  have "\<not> is_panic e \<Longrightarrow> \<not> is_panic (wrapCode c e)" for e by (cases e) auto
  then show "calm m \<Longrightarrow> calm (wrapErr c m)" by (fastforce simp: calm_def wrapErr_def split: sum.splits)
qed

lemma calm_pmap [calming]: "calm m \<Longrightarrow> calm (pmap g m)"
  by (auto simp: pmap_def intro!: calming)

lemma calm_loops [calming]:
  "calm (leReadUintN_loop n i res)" "calm (beReadUintN_loop len n i res)"
  by (induction n arbitrary: i res) (auto intro!: calming)

lemma calm_readers [calming]:
  "calm (ReadUint16 b)" "calm (ReadUint32 b)" "calm (ReadUint64 b)" "calm (ReadUintN b l)" "calm (readUfloat16 b)"
  by (cases b; auto simp: leReadUint16_def beReadUint16_def leReadUint32_def beReadUint32_def leReadUint64_def
      beReadUint64_def leReadUintN_def beReadUintN_def readUfloat16_def intro!: calming)+

lemma calm_loops2 [calming]: "calm (ParsePathsFrame_loop v n ids rtts)" "calm (skipTimestamps v n)"
  by (induction n arbitrary: ids rtts) (auto intro!: calming)

lemma calm_parseAckBlocks [calming]: "calm (parseAckBlocks v dl n st)"
  by (induction n arbitrary: st) (simp_all add: calm_basic calm_pbind calm_readers)

text \<open>
  The index expressions on the list of ranges are safe: at least one block is read, so at least one
  range is left when an incomplete one is removed.
\<close>

lemma calm_readAckRanges:
  assumes "has \<longrightarrow> n \<noteq> 0"
  shows "calm (readAckRanges v dl has n largest len)"
  unfolding calm_def
proof (intro allI impI)
  fix bs e assume r: "readAckRanges v dl has n largest len bs = Inl e"
  show "\<not> is_panic e"
  proof (cases "\<exists>st r1. parseAckBlocks v dl (unat n)
      ([\<lparr>ar_First = largest - len + 1, ar_Last = largest\<rparr>], False, False) bs = Inr (st, r1)")
    case True
    then obtain ranges il c r1 where p: "parseAckBlocks v dl (unat n)
      ([\<lparr>ar_First = largest - len + 1, ar_Last = largest\<rparr>], False, False) bs = Inr ((ranges, il, c), r1)"
      by auto
    from parseAckBlocks_head [OF p] have "has \<longrightarrow> ranges \<noteq> [] \<and> butlast ranges \<noteq> []"
      using assms by (auto simp: unat_gt_0)
    then show ?thesis using r p by (auto simp: readAckRanges_def Let_def split: if_splits)
  next
    case False
    then obtain e' where "parseAckBlocks v dl (unat n)
      ([\<lparr>ar_First = largest - len + 1, ar_Last = largest\<rparr>], False, False) bs = Inl e'"
      by (metis old.sum.exhaust surj_pair)
    moreover have "\<not> is_panic e'" using calm_parseAckBlocks calculation unfolding calm_def by blast
    ultimately show ?thesis using r by (auto simp: readAckRanges_def split: if_splits)
  qed
qed

lemma calm_pcheck_bind:
  "\<not> is_panic e \<Longrightarrow> (\<not> b \<Longrightarrow> calm (f ())) \<Longrightarrow> calm (pbind (pcheck b e) f)"
  by (auto simp: calm_def pbind_def)


lemma calm_parseAckRanges:
  "has \<longrightarrow> n \<noteq> 0 \<Longrightarrow> calm (parseAckRanges v dl has n largest)"
  unfolding parseAckRanges_def by (auto intro!: calming calm_readAckRanges)

lemma calm_parsers [calming]:
  "calm (ParseRstStreamFrame v)" "calm (ParseConnectionCloseFrame v)" "calm (ParseGoawayFrame v)"
  "calm (ParseWindowUpdateFrame v)" "calm (ParseBlockedFrame v)" "calm (ParseStopWaitingFrame pn l v)"
  "calm (ParsePingFrame v)" "calm (ParseAddAddressFrame v)" "calm (ParsePathsFrame v)" "calm (ParseStreamFrame v)"
  "calm (parseTimestamps v)"
  by (auto simp: ParseRstStreamFrame_def ParseConnectionCloseFrame_def ParseGoawayFrame_def ParseWindowUpdateFrame_def
      ParseBlockedFrame_def ParseStopWaitingFrame_def ParsePingFrame_def ParseAddAddressFrame_def ParsePathsFrame_def
      ParseStreamFrame_def ParseStreamFrame_fields_def parseTimestamps_def Let_def intro!: calming)

lemma calm_ack_parsers [calming]: "calm (ParseAckFrame v)" "calm (ParseClosePathFrame v)"
  unfolding ParseAckFrame_def ParseAckFrame_fields_def ParseClosePathFrame_def ParseClosePathFrame_fields_def
  by (intro calm_pbind [where m = ReadByte] calm_pbind [where m = "if b then ReadByte else preturn 0" for b]
      calm_pbind [where m = "ReadUintN b l" for b l] calm_pbind [where m = "readUfloat16 b" for b]
      calm_pbind [where m = "parseAckRanges a b c d e" for a b c d e] calm_pbind [where m = "parseTimestamps b" for b]
      calm_pcheck_bind calm_parseAckRanges calm_case_prod calm_if calm_basic calm_readers calm_parsers; simp)+

lemma calm_parseFrame: "calm (parseFrame el hdr v tb)"
  unfolding parseFrame_def parseStream_def by (auto intro!: calming)

lemma unpackFrames_calm: "unpackFrames el hdr v bs = Inl e \<Longrightarrow> \<not> is_panic e"
proof (induction el hdr v bs rule: unpackFrames.induct)
  case (2 el hdr v t r)
  show ?case
  proof (cases "t = 0")
    case False
    show ?thesis
    proof (cases "parseFrame el hdr v t (t # r)")
      case (Inl e')
      then show ?thesis using 2(3) False calm_parseFrame [of el hdr v t] by (auto simp: calm_def)
    next
      case (Inr x)
      then show ?thesis using 2 False by (cases x; cases "unpackFrames el hdr v (snd x)") auto
    qed
  qed (use 2 in simp)
qed simp

text \<open>
  C15: Whatever an authenticated peer puts into a packet, unpacking it ends and does not panic: the
  unpacker returns frames or an error value. In particular the index expressions on the ranges of an
  ACK or CLOSE_PATH frame stay inside the list.
\<close>

theorem unpack_never_panics:
  "Unpack open' v raw hdr data \<noteq> Inl (Panic m)"
proof (cases "open' data (ph_PacketNumber hdr) raw")
  case (Inr x)
  show ?thesis
  proof (cases "unpackFrames (snd x) hdr v (fst x)")
    case (Inl e)
    then show ?thesis using Inr unpackFrames_calm [OF Inl] by (cases x) (auto simp: Unpack_def)
  next
    case (Inr y)
    then show ?thesis using \<open>open' data (ph_PacketNumber hdr) raw = Inr x\<close> by (cases x) (auto simp: Unpack_def)
  qed
qed (simp add: Unpack_def)

end
