(* ===== verification/ReceivedPackets.thy ===== *)
theory ReceivedPackets
  imports Utils AckCodec
begin

text \<open>
  The receiving half of the package \<^verbatim>\<open>ackhandler\<close>: the history of received packet numbers as a list
  of intervals (\<^verbatim>\<open>received_packet_history.go\<close>), the handler that decides when to send an ACK
  (\<^verbatim>\<open>received_packet_handler.go\<close>), and the sender's \<^verbatim>\<open>stop_waiting_manager.go\<close>. The history is shown to
  implement a set of packet numbers, and the ACK frames the handler builds are shown to acknowledge
  exactly that set.
\<close>

section \<open>History of received packets\<close>

record PacketInterval =
  iv_Start :: PacketNumber
  iv_End :: PacketNumber

text \<open>The linked list, from front to back.\<close>

record receivedPacketHistory =
  rph_ranges :: "PacketInterval list"
  rph_lowestInReceivedPacketNumbers :: PacketNumber

definition MaxTrackedReceivedAckRanges :: nat where "MaxTrackedReceivedAckRanges = 2500"

abbreviation errTooManyOutstandingReceivedAckRanges :: gerror where "errTooManyOutstandingReceivedAckRanges \<equiv> QErr TooManyOutstandingReceivedPackets"

definition newReceivedPacketHistory :: receivedPacketHistory where
  "newReceivedPacketHistory = \<lparr>rph_ranges = [], rph_lowestInReceivedPacketNumbers = 0\<rparr>"

text \<open>
  The loop runs from the back of the list, so that the functions below take the ranges in reverse
  order. A range that was extended may meet the one before it.
\<close>

fun mergeRange :: "PacketInterval \<Rightarrow> PacketInterval list \<Rightarrow> PacketInterval list" where
  "mergeRange el [] = [el]"
| "mergeRange el (prev # rs) =
     (if iv_End prev + 1 = iv_Start el then prev\<lparr>iv_End := iv_End el\<rparr> # rs else el # prev # rs)"

fun insertPacket :: "PacketNumber \<Rightarrow> PacketInterval list \<Rightarrow> PacketInterval list" where
  "insertPacket p [] = [\<lparr>iv_Start = p, iv_End = p\<rparr>]"
| "insertPacket p (el # rs) =
     (if p \<ge> iv_Start el \<and> p \<le> iv_End el then el # rs
      else if iv_End el = p - 1 then mergeRange (el\<lparr>iv_End := p\<rparr>) rs
      else if iv_Start el = p + 1 then mergeRange (el\<lparr>iv_Start := p\<rparr>) rs
      else if p > iv_End el then \<lparr>iv_Start = p, iv_End = p\<rparr> # el # rs
      else el # insertPacket p rs)"

definition receivedPacketHistory_ReceivedPacket ::
  "PacketNumber \<Rightarrow> receivedPacketHistory \<Rightarrow> receivedPacketHistory outcome" where
  "receivedPacketHistory_ReceivedPacket p h =
     (if length (rph_ranges h) \<ge> MaxTrackedReceivedAckRanges
      then fail_with errTooManyOutstandingReceivedAckRanges h
      else done_ok (h\<lparr>rph_ranges := rev (insertPacket p (rev (rph_ranges h)))\<rparr>))"

text \<open>The loop of \<^verbatim>\<open>DeleteUpTo\<close> runs from the front and stops at the first range that is not affected.\<close>

fun deleteUpTo_loop :: "PacketNumber \<Rightarrow> PacketInterval list \<Rightarrow> PacketInterval list" where
  "deleteUpTo_loop p [] = []"
| "deleteUpTo_loop p (el # rs) =
     (if p \<ge> iv_Start el \<and> p < iv_End el then el\<lparr>iv_Start := p + 1\<rparr> # deleteUpTo_loop p rs
      else if iv_End el \<le> p then deleteUpTo_loop p rs
      else el # rs)"

definition DeleteUpTo :: "PacketNumber \<Rightarrow> receivedPacketHistory \<Rightarrow> receivedPacketHistory" where
  "DeleteUpTo p h =
     \<lparr>rph_ranges = deleteUpTo_loop p (rph_ranges h),
      rph_lowestInReceivedPacketNumbers = MaxPacketNumber (rph_lowestInReceivedPacketNumbers h) (p + 1)\<rparr>"

definition toAckRange :: "PacketInterval \<Rightarrow> AckRange" where
  "toAckRange r = \<lparr>ar_First = iv_Start r, ar_Last = iv_End r\<rparr>"

definition GetAckRanges :: "receivedPacketHistory \<Rightarrow> AckRange list" where
  "GetAckRanges h = map toAckRange (rev (rph_ranges h))"

definition GetHighestAckRange :: "receivedPacketHistory \<Rightarrow> AckRange" where
  "GetHighestAckRange h =
     (if length (rph_ranges h) > 0 then toAckRange (last (rph_ranges h)) else \<lparr>ar_First = 0, ar_Last = 0\<rparr>)"

section \<open>Handler of received packets\<close>

definition AckSendDelay :: int where "AckSendDelay = 25000000"
definition MaxPacketsReceivedBeforeAckSend :: int where "MaxPacketsReceivedBeforeAckSend = 20"
definition RetransmittablePacketsBeforeAck :: int where "RetransmittablePacketsBeforeAck = 2"

record receivedPacketHandler =
  rh_largestObserved :: PacketNumber
  rh_lowerLimit :: PacketNumber
  rh_largestObservedReceivedTime :: int
  rh_packetHistory :: receivedPacketHistory
  rh_ackSendDelay :: int
  rh_packetsReceivedSinceLastAck :: int
  rh_retransmittablePacketsReceivedSinceLastAck :: int
  rh_ackQueued :: bool
  rh_ackAlarm :: int
  rh_lastAck :: "AckFrame option"
  rh_version :: VersionNumber
  rh_packets :: u64

abbreviation errInvalidPacketNumber :: gerror where "errInvalidPacketNumber \<equiv> Errorf ''ReceivedPacketHandler: Invalid packet number''"

definition NewReceivedPacketHandler :: "VersionNumber \<Rightarrow> receivedPacketHandler" where
  "NewReceivedPacketHandler version =
     \<lparr>rh_largestObserved = 0, rh_lowerLimit = 0, rh_largestObservedReceivedTime = 0,
      rh_packetHistory = newReceivedPacketHistory, rh_ackSendDelay = AckSendDelay,
      rh_packetsReceivedSinceLastAck = 0, rh_retransmittablePacketsReceivedSinceLastAck = 0,
      rh_ackQueued = False, rh_ackAlarm = 0, rh_lastAck = None, rh_version = version, rh_packets = 0\<rparr>"

definition receivedPacketHandler_GetStatistics :: "receivedPacketHandler \<Rightarrow> u64" where
  "receivedPacketHandler_GetStatistics h = rh_packets h"

text \<open>Whether the packet makes an ACK due at once, not counting the retransmittable ones.\<close>

definition ackDue :: "PacketNumber \<Rightarrow> receivedPacketHandler \<Rightarrow> bool" where
  "ackDue packetNumber h \<longleftrightarrow>
     rh_ackQueued h
     \<or> rh_lastAck h = None
     \<or> rh_version h < Version39 \<and> rh_packetsReceivedSinceLastAck h \<ge> MaxPacketsReceivedBeforeAckSend
     \<or> (case rh_lastAck h of None \<Rightarrow> False | Some ack \<Rightarrow> packetNumber < ack_LargestAcked ack)
     \<or> (case rh_lastAck h of None \<Rightarrow> False
        | Some ack \<Rightarrow> ar_First (GetHighestAckRange (rh_packetHistory h)) > ack_LargestAcked ack)"

definition maybeQueueAck :: "int \<Rightarrow> PacketNumber \<Rightarrow> bool \<Rightarrow> receivedPacketHandler \<Rightarrow> receivedPacketHandler" where
  "maybeQueueAck now packetNumber shouldInstigateAck h =
     (let h1 = h\<lparr>rh_packetsReceivedSinceLastAck := i64 (rh_packetsReceivedSinceLastAck h + 1)\<rparr>;
          h2 = (if shouldInstigateAck then h1\<lparr>rh_retransmittablePacketsReceivedSinceLastAck :=
                  i64 (rh_retransmittablePacketsReceivedSinceLastAck h1 + 1)\<rparr> else h1);
          h3 = h2\<lparr>rh_ackQueued := ackDue packetNumber h2\<rparr>;
          h4 = (if \<not> rh_ackQueued h3 \<and> shouldInstigateAck then
                  if rh_retransmittablePacketsReceivedSinceLastAck h3 \<ge> RetransmittablePacketsBeforeAck
                  then h3\<lparr>rh_ackQueued := True\<rparr>
                  else if rh_ackAlarm h3 = 0 then h3\<lparr>rh_ackAlarm := now + rh_ackSendDelay h3\<rparr> else h3
                else h3)
      in if rh_ackQueued h4 then h4\<lparr>rh_ackAlarm := 0\<rparr> else h4)"

text \<open>Count the packet and remember the largest one.\<close>

definition observePacket :: "int \<Rightarrow> PacketNumber \<Rightarrow> receivedPacketHandler \<Rightarrow> receivedPacketHandler" where
  "observePacket now packetNumber h =
     (let h1 = h\<lparr>rh_packets := rh_packets h + 1\<rparr> in
      if packetNumber > rh_largestObserved h1
      then h1\<lparr>rh_largestObserved := packetNumber, rh_largestObservedReceivedTime := now\<rparr> else h1)"

definition receivedPacketHandler_ReceivedPacket ::
  "int \<Rightarrow> PacketNumber \<Rightarrow> bool \<Rightarrow> receivedPacketHandler \<Rightarrow> receivedPacketHandler outcome" where
  "receivedPacketHandler_ReceivedPacket now packetNumber shouldInstigateAck h =
     (if packetNumber = 0 then fail_with errInvalidPacketNumber h
      else
        let h2 = observePacket now packetNumber h
        in if packetNumber \<le> rh_lowerLimit h2 then done_ok h2
           else let (err, history) = receivedPacketHistory_ReceivedPacket packetNumber (rh_packetHistory h2);
                    h3 = h2\<lparr>rh_packetHistory := history\<rparr>
                in case err of Some e \<Rightarrow> fail_with e h3
                   | None \<Rightarrow> done_ok (maybeQueueAck now packetNumber shouldInstigateAck h3))"

definition SetLowerLimit :: "PacketNumber \<Rightarrow> receivedPacketHandler \<Rightarrow> receivedPacketHandler" where
  "SetLowerLimit p h = h\<lparr>rh_lowerLimit := p, rh_packetHistory := DeleteUpTo p (rh_packetHistory h)\<rparr>"

text \<open>Indexing the last element of an empty slice of ranges is a run-time panic.\<close>

definition GetAckFrame :: "int \<Rightarrow> receivedPacketHandler \<Rightarrow> AckFrame option result \<times> receivedPacketHandler" where
  "GetAckFrame now h =
     (if \<not> rh_ackQueued h \<and> (rh_ackAlarm h = 0 \<or> rh_ackAlarm h > now) then (Inr None, h)
      else
        let ackRanges = GetAckRanges (rh_packetHistory h) in
        if ackRanges = [] then (Inl (Panic ''index out of range''), h)
        else
          let ack = \<lparr>ack_PathID = 0, ack_LargestAcked = rh_largestObserved h,
                ack_LowestAcked = ar_First (last ackRanges),
                ack_AckRanges = (if length ackRanges > 1 then ackRanges else []),
                ack_PacketReceivedTime = rh_largestObservedReceivedTime h, ack_DelayTime = 0\<rparr>
          in (Inr (Some ack),
              h\<lparr>rh_lastAck := Some ack, rh_ackAlarm := 0, rh_ackQueued := False,
                rh_packetsReceivedSinceLastAck := 0, rh_retransmittablePacketsReceivedSinceLastAck := 0\<rparr>))"

definition GetClosePathFrame :: "receivedPacketHandler \<Rightarrow> ClosePathFrame result" where
  "GetClosePathFrame h =
     (let ackRanges = GetAckRanges (rh_packetHistory h) in
      if ackRanges = [] then Inl (Panic ''index out of range'')
      else Inr \<lparr>cp_PathID = 0, cp_LargestAcked = rh_largestObserved h,
             cp_LowestAcked = ar_First (last ackRanges),
             cp_AckRanges = (if length ackRanges > 1 then ackRanges else [])\<rparr>)"

definition receivedPacketHandler_GetAlarmTimeout :: "receivedPacketHandler \<Rightarrow> int" where
  "receivedPacketHandler_GetAlarmTimeout h = rh_ackAlarm h"

section \<open>Stop waiting manager\<close>

record stopWaitingManager =
  swm_largestLeastUnackedSent :: PacketNumber
  swm_nextLeastUnacked :: PacketNumber
  swm_lastStopWaitingFrame :: "StopWaitingFrame option"

text \<open>A new frame: the path packer fills in the packet number and its length.\<close>

definition newStopWaitingFrame :: "PacketNumber \<Rightarrow> StopWaitingFrame" where
  "newStopWaitingFrame leastUnacked =
     \<lparr>sw_LeastUnacked = leastUnacked, sw_PacketNumberLen = 0, sw_PacketNumber = 0\<rparr>"

definition GetStopWaitingFrame :: "bool \<Rightarrow> stopWaitingManager \<Rightarrow> StopWaitingFrame option \<times> stopWaitingManager" where
  "GetStopWaitingFrame force s =
     (if swm_nextLeastUnacked s \<le> swm_largestLeastUnackedSent s then
        if force then
          let s1 = (if swm_lastStopWaitingFrame s = None \<and> swm_largestLeastUnackedSent s > 0
                    then s\<lparr>swm_lastStopWaitingFrame := Some (newStopWaitingFrame (swm_nextLeastUnacked s))\<rparr> else s)
          in (swm_lastStopWaitingFrame s1, s1)
        else (None, s)
      else
        let swf = newStopWaitingFrame (swm_nextLeastUnacked s)
        in (Some swf, s\<lparr>swm_largestLeastUnackedSent := swm_nextLeastUnacked s,
                        swm_lastStopWaitingFrame := Some swf\<rparr>))"

definition stopWaitingManager_ReceivedAck :: "AckFrame \<Rightarrow> stopWaitingManager \<Rightarrow> stopWaitingManager" where
  "stopWaitingManager_ReceivedAck ack s =
     (if ack_LargestAcked ack \<ge> swm_nextLeastUnacked s
      then s\<lparr>swm_nextLeastUnacked := ack_LargestAcked ack + 1\<rparr> else s)"

definition QueuedRetransmissionForPacketNumber :: "PacketNumber \<Rightarrow> stopWaitingManager \<Rightarrow> stopWaitingManager" where
  "QueuedRetransmissionForPacketNumber p s =
     (if p \<ge> swm_nextLeastUnacked s then s\<lparr>swm_nextLeastUnacked := p + 1\<rparr> else s)"

section \<open>The history implements a set of packet numbers\<close>

text \<open>
  The interface: what the handler relies on. \<open>full\<close> is the limit on the number of ranges.
\<close>

locale packet_set =
  fixes empty :: 's and ins :: "PacketNumber \<Rightarrow> 's \<Rightarrow> 's outcome" and del :: "PacketNumber \<Rightarrow> 's \<Rightarrow> 's"
    and ranges :: "'s \<Rightarrow> AckRange list" and full :: "'s \<Rightarrow> bool" and abs :: "'s \<Rightarrow> nat set" and inv :: "'s \<Rightarrow> bool"
  assumes inv_empty: "inv empty" and abs_empty: "abs empty = {}"
    and ins_ok: "inv s \<Longrightarrow> \<not> full s \<Longrightarrow> p \<noteq> 0 \<Longrightarrow>
          fst (ins p s) = None \<and> inv (snd (ins p s)) \<and> abs (snd (ins p s)) = insert (unat p) (abs s)"
    and ins_full: "full s \<Longrightarrow> fst (ins p s) \<noteq> None \<and> snd (ins p s) = s"
    and del_ok: "inv s \<Longrightarrow> inv (del p s) \<and> abs (del p s) = abs s - {..unat p}"
    and ranges_ok: "inv s \<Longrightarrow> (\<forall>r\<in>set (ranges s). range_ok r) \<and> descending (ranges s)"
    and ranges_abs: "inv s \<Longrightarrow> (\<Union>r\<in>set (ranges s). range_set r) = abs s"
    and abs_pos: "inv s \<Longrightarrow> 0 \<notin> abs s"
begin

lemma ranges_empty: "inv s \<Longrightarrow> ranges s = [] \<longleftrightarrow> abs s = {}"
proof -
  assume i: "inv s"
  have "range_set r \<noteq> {}" if "r \<in> set (ranges s)" for r
    using ranges_ok [OF i] that by (auto simp: range_set_def range_ok_def)
  then show ?thesis using ranges_abs [OF i] by (cases "ranges s") auto
qed

text \<open>The ranges put into a frame describe the set, whether there is one range or there are many.\<close>

lemma ranges_frame:
  assumes i: "inv s" and ne: "abs s \<noteq> {}" and top: "unat largest \<in> abs s" "\<And>q. q \<in> abs s \<Longrightarrow> q \<le> unat largest"
  defines "rs \<equiv> ranges s"
  defines "rs' \<equiv> (if length rs > 1 then rs else [])"
  shows "ranges_wf largest (ar_First (last rs)) rs'" "acked_set largest (ar_First (last rs)) rs' = abs s"
    "1 \<le> unat (ar_First (last rs))"
proof -
  have ok: "\<forall>r\<in>set rs. range_ok r" "descending rs" "(\<Union>r\<in>set rs. range_set r) = abs s"
    using ranges_ok [OF i] ranges_abs [OF i] by (simp_all add: rs_def)
  have "rs \<noteq> []" using ranges_empty [OF i] ne by (simp add: rs_def)
  then obtain r rest where rs: "rs = r # rest" unfolding neq_Nil_conv by blast
  have rin: "unat (ar_Last r) \<in> abs s" using ok rs by (auto simp: range_set_def range_ok_def)
  obtain x where x: "x \<in> set rs" "unat largest \<in> range_set x" using top(1) ok(3) by blast
  have "unat (ar_Last x) \<le> unat (ar_Last r)"
    using x(1) descending_bounds [of r rest x] ok rs by (force simp: range_ok_def)
  then have "unat largest \<le> unat (ar_Last r)" using x(2) by (simp add: range_set_def)
  then have last: "ar_Last r = largest"
    using top(2) [OF rin] by (simp add: word_unat_eq_iff)
  have first: "unat (ar_First (last rs)) \<in> abs s"
    using ok rs by (metis (no_types, lifting) UN_I atLeastAtMost_iff last_in_set list.distinct(1) order_refl range_ok_def range_set_def)
  then show "1 \<le> unat (ar_First (last rs))" using abs_pos [OF i] by (metis One_nat_def Suc_leI neq0_conv)
  show "ranges_wf largest (ar_First (last rs)) rs'"
  proof (cases rest)
    case Nil
    then show ?thesis using top(2) [OF first] by (simp add: rs'_def rs ranges_wf_def word_le_nat_alt)
  next
    case Cons
    then show ?thesis using ok last by (simp add: rs'_def rs ranges_wf_def)
  qed
  show "acked_set largest (ar_First (last rs)) rs' = abs s"
    using ok(3) last by (cases rest) (auto simp: rs'_def rs acked_set_def range_set_def)
qed

end

subsection \<open>Intervals\<close>

definition iv_set :: "PacketInterval list \<Rightarrow> nat set" where
  "iv_set rs = (\<Union>r\<in>set rs. {unat (iv_Start r)..unat (iv_End r)})"

text \<open>Separated intervals, the highest first.\<close>

fun desc :: "PacketInterval list \<Rightarrow> bool" where
  "desc [] \<longleftrightarrow> True"
| "desc (r # rs) \<longleftrightarrow> unat (iv_Start r) \<le> unat (iv_End r) \<and> (\<forall>q\<in>iv_set rs. q + 1 < unat (iv_Start r)) \<and> desc rs"

lemma iv_set_simps [simp]:
  "iv_set [] = {}" "iv_set (r # rs) = {unat (iv_Start r)..unat (iv_End r)} \<union> iv_set rs"
  "iv_set (rs @ ts) = iv_set rs \<union> iv_set ts" "iv_set (rev rs) = iv_set rs"
  by (auto simp: iv_set_def)

lemma mergeRange_spec:
  assumes "unat (iv_Start el) \<le> unat (iv_End el)" "\<forall>q\<in>iv_set rs. q < unat (iv_Start el)" "desc rs"
  shows "desc (mergeRange el rs) \<and> iv_set (mergeRange el rs) = iv_set (el # rs)"
proof (cases rs)
  case (Cons prev rs')
  have "unat (iv_End prev) < unat (iv_Start el)" "unat (iv_Start prev) \<le> unat (iv_End prev)"
    using assms Cons by auto
  moreover from this have "unat (iv_End prev + 1) = unat (iv_End prev) + 1"
    by (metis Suc_eq_plus1 unat_succ word_less_nat_alt)
  ultimately have eq: "iv_End prev + 1 = iv_Start el \<longleftrightarrow> unat (iv_End prev) + 1 = unat (iv_Start el)"
    and le: "unat (iv_Start prev) \<le> unat (iv_End prev)" "unat (iv_End prev) < unat (iv_Start el)"
    by (simp_all add: word_unat_eq_iff)
  have top: "q \<le> unat (iv_End prev)" if "q \<in> iv_set rs" for q using that assms(3) Cons by fastforce
  show ?thesis
  proof (cases "iv_End prev + 1 = iv_Start el")
    case True
    then show ?thesis using assms(1,3) Cons le eq by auto
  next
    case False
    then have "\<forall>q\<in>iv_set rs. q + 1 < unat (iv_Start el)" using top eq le(2) by fastforce
    then show ?thesis using assms False Cons by simp
  qed
qed (use assms in simp)

lemma succ_eq:
  assumes "x \<noteq> 0"
  shows "x = p + 1 \<longleftrightarrow> unat x = unat (p :: u64) + 1"
proof
  assume "x = p + 1"
  then show "unat x = unat p + 1" using assms unatSuc [of p] by (simp add: add.commute)
next
  assume x: "unat x = unat p + 1"
  then have "unat (p + 1) = unat p + unat (1 :: u64)" by (intro unat_plus_le [where z = x]) simp
  then show "x = p + 1" using x by (simp add: word_unat_eq_iff)
qed

lemma pred_eq:
  assumes "p \<noteq> 0"
  shows "x = p - 1 \<longleftrightarrow> unat x + 1 = unat (p :: u64)"
proof -
  have "x = p - 1 \<longleftrightarrow> unat x = unat p - 1"
    using unat_minus_one [OF assms] word_unat_eq_iff [of x "p - 1"] by simp
  moreover have "0 < unat p" using assms by (simp add: unat_gt_0)
  ultimately show ?thesis by linarith
qed

lemma insertPacket_step:
  assumes "iv_Start el \<noteq> 0" "p \<noteq> 0"
  shows "insertPacket p (el # rs) =
    (if unat (iv_Start el) \<le> unat p \<and> unat p \<le> unat (iv_End el) then el # rs
     else if unat (iv_End el) + 1 = unat p then mergeRange (el\<lparr>iv_End := p\<rparr>) rs
     else if unat (iv_Start el) = unat p + 1 then mergeRange (el\<lparr>iv_Start := p\<rparr>) rs
     else if unat (iv_End el) < unat p then \<lparr>iv_Start = p, iv_End = p\<rparr> # el # rs
     else el # insertPacket p rs)"
  by (simp only: insertPacket.simps word_le_nat_alt word_less_nat_alt pred_eq [OF assms(2)] succ_eq [OF assms(1)])

lemma insertPacket_spec:
  assumes "desc rs" "0 \<notin> iv_set rs" "p \<noteq> 0"
  shows "desc (insertPacket p rs) \<and> iv_set (insertPacket p rs) = insert (unat p) (iv_set rs)"
  using assms(1,2)
proof (induction rs)
  case (Cons el rs)
  have IH: "desc (insertPacket p rs)" "iv_set (insertPacket p rs) = insert (unat p) (iv_set rs)"
    using Cons by auto
  have d: "unat (iv_Start el) \<le> unat (iv_End el)" "\<forall>q\<in>iv_set rs. q + 1 < unat (iv_Start el)" "desc rs"
    using Cons.prems by auto
  have nz: "iv_Start el \<noteq> 0" using Cons.prems(2) d(1) by auto
  note step = insertPacket_step [OF nz assms(3), of rs]
  consider (inside) "unat (iv_Start el) \<le> unat p" "unat p \<le> unat (iv_End el)"
    | (above) "unat (iv_End el) + 1 = unat p"
    | (below) "unat (iv_Start el) = unat p + 1"
    | (new) "unat (iv_End el) + 1 < unat p"
    | (further) "unat p + 1 < unat (iv_Start el)"
    by linarith
  then show ?case
  proof cases
    case inside
    then show ?thesis using Cons.prems unfolding step by auto
  next
    case above
    have "desc (mergeRange (el\<lparr>iv_End := p\<rparr>) rs) \<and> iv_set (mergeRange (el\<lparr>iv_End := p\<rparr>) rs) = iv_set (el\<lparr>iv_End := p\<rparr> # rs)"
      using d above by (intro mergeRange_spec) auto
    moreover have "insertPacket p (el # rs) = mergeRange (el\<lparr>iv_End := p\<rparr>) rs"
      unfolding step using above d(1) by simp
    moreover have "{unat (iv_Start el)..unat p} = insert (unat p) {unat (iv_Start el)..unat (iv_End el)}"
      using above d(1) by (intro set_eqI) (simp, linarith)
    ultimately show ?thesis by simp
  next
    case below
    have "desc (mergeRange (el\<lparr>iv_Start := p\<rparr>) rs) \<and> iv_set (mergeRange (el\<lparr>iv_Start := p\<rparr>) rs) = iv_set (el\<lparr>iv_Start := p\<rparr> # rs)"
      using d below by (intro mergeRange_spec) auto
    moreover have "insertPacket p (el # rs) = mergeRange (el\<lparr>iv_Start := p\<rparr>) rs"
      unfolding step using below d(1) by simp
    moreover have "{unat p..unat (iv_End el)} = insert (unat p) {unat (iv_Start el)..unat (iv_End el)}"
      using below d(1) by (intro set_eqI) (simp, linarith)
    ultimately show ?thesis by simp
  next
    case new
    then show ?thesis using d unfolding step by auto
  next
    case further
    then show ?thesis using d IH unfolding step by auto
  qed
qed simp


lemma desc_snoc:
  "desc (rs @ [x]) \<longleftrightarrow> desc rs \<and> unat (iv_Start x) \<le> unat (iv_End x) \<and> (\<forall>q\<in>iv_set rs. unat (iv_End x) + 1 < q)"
proof (induction rs)
  case (Cons r rs)
  have "unat (iv_Start x) \<le> unat (iv_End x) \<Longrightarrow>
      (\<forall>q\<in>{unat (iv_Start x)..unat (iv_End x)}. q + 1 < unat (iv_Start r)) \<longleftrightarrow> unat (iv_End x) + 1 < unat (iv_Start r)"
    by auto
  moreover have "unat (iv_Start r) \<le> unat (iv_End r) \<Longrightarrow>
      (\<forall>q\<in>{unat (iv_Start r)..unat (iv_End r)}. unat (iv_End x) + 1 < q) \<longleftrightarrow> unat (iv_End x) + 1 < unat (iv_Start r)"
    by auto
  ultimately show ?case using Cons.IH by (simp only: append_Cons desc.simps iv_set_simps ball_Un) blast
qed auto

lemma asc_Cons:
  "desc (rev (x # rs)) \<longleftrightarrow> desc (rev rs) \<and> unat (iv_Start x) \<le> unat (iv_End x) \<and> (\<forall>q\<in>iv_set rs. unat (iv_End x) + 1 < q)"
  by (simp add: desc_snoc)

lemma deleteUpTo_spec:
  "desc (rev rs) \<Longrightarrow> desc (rev (deleteUpTo_loop p rs)) \<and> iv_set (deleteUpTo_loop p rs) = iv_set rs - {..unat p}"
proof (induction rs)
  case (Cons el rs)
  have d: "desc (rev rs)" "unat (iv_Start el) \<le> unat (iv_End el)" "\<forall>q\<in>iv_set rs. unat (iv_End el) + 1 < q"
    using Cons.prems unfolding asc_Cons by auto
  have IH: "desc (rev (deleteUpTo_loop p rs))" "iv_set (deleteUpTo_loop p rs) = iv_set rs - {..unat p}"
    using Cons.IH d(1) by auto
  consider (part) "unat (iv_Start el) \<le> unat p" "unat p < unat (iv_End el)"
    | (whole) "unat (iv_End el) \<le> unat p" | (none) "unat p < unat (iv_Start el)" by linarith
  then show ?case
  proof cases
    case part
    have s: "unat (p + 1) = unat p + 1" using unat_succ [of p "iv_End el"] part(2) by (simp add: word_less_nat_alt)
    have "deleteUpTo_loop p (el # rs) = el\<lparr>iv_Start := p + 1\<rparr> # deleteUpTo_loop p rs"
      using part by (simp add: word_le_nat_alt word_less_nat_alt)
    moreover have "desc (rev (el\<lparr>iv_Start := p + 1\<rparr> # deleteUpTo_loop p rs))"
      unfolding asc_Cons using IH d part by (auto simp: s)
    moreover have "{unat p + 1..unat (iv_End el)} = {unat (iv_Start el)..unat (iv_End el)} - {..unat p}"
      using part by (intro set_eqI) (simp, linarith)
    ultimately show ?thesis using IH(2) by (simp add: s Un_Diff)
  next
    case whole
    then have eq: "deleteUpTo_loop p (el # rs) = deleteUpTo_loop p rs"
      using d(2) by (simp add: word_le_nat_alt word_less_nat_alt)
    have "{unat (iv_Start el)..unat (iv_End el)} - {..unat p} = {}"
      using whole by (simp add: subset_iff)
    then show ?thesis unfolding eq iv_set_simps Un_Diff using IH by blast
  next
    case none
    then have "deleteUpTo_loop p (el # rs) = el # rs"
      using d(2) by (simp add: word_le_nat_alt word_less_nat_alt)
    moreover have "{unat (iv_Start el)..unat (iv_End el)} - {..unat p} = {unat (iv_Start el)..unat (iv_End el)}"
      using none by (intro set_eqI) (simp, linarith)
    moreover have "q \<notin> {..unat p}" if "q \<in> iv_set rs" for q
      using bspec [OF d(3) that] none d(2) by simp
    then have "iv_set rs - {..unat p} = iv_set rs" by blast
    ultimately show ?thesis using Cons.prems by (simp add: Un_Diff)
  qed
qed simp

subsection \<open>The interpretation\<close>

definition history_set :: "receivedPacketHistory \<Rightarrow> nat set" where
  "history_set h = iv_set (rph_ranges h)"

definition history_inv :: "receivedPacketHistory \<Rightarrow> bool" where
  "history_inv h \<longleftrightarrow> desc (rev (rph_ranges h)) \<and> 0 \<notin> history_set h"

definition history_full :: "receivedPacketHistory \<Rightarrow> bool" where
  "history_full h \<longleftrightarrow> MaxTrackedReceivedAckRanges \<le> length (rph_ranges h)"

lemma desc_descending:
  "desc rs \<Longrightarrow> (\<forall>r\<in>set (map toAckRange rs). range_ok r) \<and> descending (map toAckRange rs)"
proof (induction rs rule: desc.induct)
  case (2 r rs)
  then show ?case by (cases rs) (auto simp: toAckRange_def range_ok_def)
qed simp

lemma toAckRange_sets: "(\<Union>r\<in>set (map toAckRange rs). range_set r) = iv_set rs"
  by (auto simp: toAckRange_def range_set_def iv_set_def)

interpretation hist: packet_set newReceivedPacketHistory receivedPacketHistory_ReceivedPacket DeleteUpTo
  GetAckRanges history_full history_set history_inv
proof
  show "history_inv newReceivedPacketHistory" "history_set newReceivedPacketHistory = {}"
    by (simp_all add: history_inv_def history_set_def newReceivedPacketHistory_def)
  fix s p
  show "history_inv s \<Longrightarrow> \<not> history_full s \<Longrightarrow> p \<noteq> 0 \<Longrightarrow>
      fst (receivedPacketHistory_ReceivedPacket p s) = None
      \<and> history_inv (snd (receivedPacketHistory_ReceivedPacket p s))
      \<and> history_set (snd (receivedPacketHistory_ReceivedPacket p s)) = insert (unat p) (history_set s)"
    using insertPacket_spec [of "rev (rph_ranges s)" p]
    by (simp add: receivedPacketHistory_ReceivedPacket_def history_full_def history_inv_def history_set_def unat_gt_0)
  show "history_full s \<Longrightarrow> fst (receivedPacketHistory_ReceivedPacket p s) \<noteq> None
      \<and> snd (receivedPacketHistory_ReceivedPacket p s) = s"
    by (simp add: receivedPacketHistory_ReceivedPacket_def history_full_def)
  show "history_inv s \<Longrightarrow> history_inv (DeleteUpTo p s) \<and> history_set (DeleteUpTo p s) = history_set s - {..unat p}"
    using deleteUpTo_spec [of "rph_ranges s" p] by (simp add: DeleteUpTo_def history_inv_def history_set_def)
  show "history_inv s \<Longrightarrow> (\<forall>r\<in>set (GetAckRanges s). range_ok r) \<and> descending (GetAckRanges s)"
    unfolding GetAckRanges_def history_inv_def by (rule desc_descending) simp
  show "history_inv s \<Longrightarrow> (\<Union>r\<in>set (GetAckRanges s). range_set r) = history_set s"
    unfolding GetAckRanges_def history_set_def toAckRange_sets by simp
  show "history_inv s \<Longrightarrow> 0 \<notin> history_set s" by (simp add: history_inv_def)
qed

section \<open>The handler\<close>

text \<open>
  The states of a handler and the clock: packets are received, the peer's STOP_WAITING frames raise the
  limit (to less than the packet that carries them, so to less than the largest one observed), ACK
  frames are taken, and time passes.
\<close>

inductive rh_reachable :: "VersionNumber \<Rightarrow> int \<Rightarrow> receivedPacketHandler \<Rightarrow> bool" for v where
  start: "0 < now \<Longrightarrow> rh_reachable v now (NewReceivedPacketHandler v)"
| wait: "rh_reachable v now h \<Longrightarrow> now \<le> now' \<Longrightarrow> rh_reachable v now' h"
| receive: "rh_reachable v now h \<Longrightarrow> receivedPacketHandler_ReceivedPacket now pn instigate h = (None, h')
    \<Longrightarrow> rh_reachable v now h'"
| limit: "rh_reachable v now h \<Longrightarrow> p < rh_largestObserved h \<Longrightarrow> rh_reachable v now (SetLowerLimit p h)"
| take_ack: "rh_reachable v now h \<Longrightarrow> GetAckFrame now h = (Inr ack, h') \<Longrightarrow> rh_reachable v now h'"

definition rh_inv :: "int \<Rightarrow> receivedPacketHandler \<Rightarrow> bool" where
  "rh_inv now h \<longleftrightarrow> history_inv (rh_packetHistory h)
     \<and> (\<forall>q\<in>history_set (rh_packetHistory h). q \<le> unat (rh_largestObserved h))
     \<and> (rh_largestObserved h \<noteq> 0 \<longrightarrow> unat (rh_largestObserved h) \<in> history_set (rh_packetHistory h))
     \<and> rh_lowerLimit h \<le> rh_largestObserved h
     \<and> (rh_ackQueued h \<or> rh_ackAlarm h \<noteq> 0 \<longrightarrow> rh_largestObserved h \<noteq> 0)
     \<and> rh_ackSendDelay h = AckSendDelay \<and> 0 < now \<and> rh_ackAlarm h \<le> now + AckSendDelay"

lemma maybeQueueAck_fields [simp]:
  "rh_packetHistory (maybeQueueAck now pn i h) = rh_packetHistory h"
  "rh_largestObserved (maybeQueueAck now pn i h) = rh_largestObserved h"
  "rh_largestObservedReceivedTime (maybeQueueAck now pn i h) = rh_largestObservedReceivedTime h"
  "rh_lowerLimit (maybeQueueAck now pn i h) = rh_lowerLimit h"
  "rh_ackSendDelay (maybeQueueAck now pn i h) = rh_ackSendDelay h"
  by (simp_all add: maybeQueueAck_def Let_def)

lemma maybeQueueAck_alarm:
  "rh_ackAlarm (maybeQueueAck now pn i h) \<in> {0, rh_ackAlarm h, now + rh_ackSendDelay h}"
  by (simp add: maybeQueueAck_def Let_def)

text \<open>A packet that asks for an ACK gets one queued, or the alarm is set.\<close>

lemma maybeQueueAck_due:
  assumes "0 < now + rh_ackSendDelay h"
  shows "rh_ackQueued (maybeQueueAck now pn True h) \<or> rh_ackAlarm (maybeQueueAck now pn True h) \<noteq> 0"
  using assms by (simp add: maybeQueueAck_def Let_def)

lemma received_cases:
  assumes I: "rh_inv now h" and r: "receivedPacketHandler_ReceivedPacket now pn i h = (None, h')"
  shows "rh_inv now h' \<and> pn \<noteq> 0
    \<and> (history_set (rh_packetHistory h') = (if pn \<le> rh_lowerLimit h then history_set (rh_packetHistory h)
         else insert (unat pn) (history_set (rh_packetHistory h))))
    \<and> (i \<and> rh_lowerLimit h < pn \<longrightarrow> rh_ackQueued h' \<or> rh_ackAlarm h' \<noteq> 0)"
proof -
  have nz: "pn \<noteq> 0" using r by (auto simp: receivedPacketHandler_ReceivedPacket_def)
  define h2 where "h2 = observePacket now pn h"
  have h2: "rh_packetHistory h2 = rh_packetHistory h" "rh_lowerLimit h2 = rh_lowerLimit h"
    "rh_ackQueued h2 = rh_ackQueued h" "rh_ackAlarm h2 = rh_ackAlarm h" "rh_ackSendDelay h2 = rh_ackSendDelay h"
    "rh_largestObserved h2 = max (rh_largestObserved h) pn"
    by (auto simp: h2_def observePacket_def Let_def max_def)
  have r2: "(if pn \<le> rh_lowerLimit h2 then (None, h2)
      else let (err, history) = receivedPacketHistory_ReceivedPacket pn (rh_packetHistory h2);
               h3 = h2\<lparr>rh_packetHistory := history\<rparr>
           in case err of Some e \<Rightarrow> (Some e, h3) | None \<Rightarrow> (None, maybeQueueAck now pn i h3)) = (None, h')"
    using r nz unfolding receivedPacketHandler_ReceivedPacket_def h2_def [symmetric] outcome_simps by (simp only: Let_def if_False)
  show ?thesis
  proof (cases "pn \<le> rh_lowerLimit h")
    case True
    then have "h' = h2" "max (rh_largestObserved h) pn = rh_largestObserved h"
      using r2 I by (auto simp: h2 rh_inv_def max_def)
    then show ?thesis using I nz True by (auto simp: rh_inv_def h2)
  next
    case False
    let ?n = "receivedPacketHistory_ReceivedPacket pn (rh_packetHistory h)"
    have ok: "fst ?n = None" and h': "h' = maybeQueueAck now pn i (h2\<lparr>rh_packetHistory := snd ?n\<rparr>)"
      using r2 False by (auto simp: h2 split_beta Let_def split: option.splits)
    have "\<not> history_full (rh_packetHistory h)" using hist.ins_full ok by blast
    then have n: "history_inv (snd ?n)" "history_set (snd ?n) = insert (unat pn) (history_set (rh_packetHistory h))"
      using hist.ins_ok [of "rh_packetHistory h" pn] I nz by (auto simp: rh_inv_def)
    have al: "rh_ackAlarm h' \<le> now + AckSendDelay"
      using maybeQueueAck_alarm [of now pn i "h2\<lparr>rh_packetHistory := snd ?n\<rparr>"] I
      by (auto simp: h' h2 rh_inv_def AckSendDelay_def)
    have due: "rh_ackQueued h' \<or> rh_ackAlarm h' \<noteq> 0" if i
      using maybeQueueAck_due [of now "h2\<lparr>rh_packetHistory := snd ?n\<rparr>" pn] I that
      by (simp add: h' h2 rh_inv_def AckSendDelay_def)
    have top: "max (rh_largestObserved h) pn \<noteq> 0" "unat (max (rh_largestObserved h) pn) \<in> history_set (snd ?n)"
      "\<forall>q\<in>history_set (snd ?n). q \<le> unat (max (rh_largestObserved h) pn)"
      "rh_lowerLimit h \<le> max (rh_largestObserved h) pn"
      using I nz n(2) by (auto simp: rh_inv_def unat_max max_def word_le_nat_alt)
    show ?thesis using I n al due top False nz unfolding rh_inv_def by (auto simp: h' h2)
  qed
qed


lemma inv_limit:
  assumes I: "rh_inv now h" and p: "p < rh_largestObserved h"
  shows "rh_inv now (SetLowerLimit p h)"
proof -
  have "unat (rh_largestObserved h) \<notin> {..unat p}" using p by (simp add: word_less_nat_alt)
  then show ?thesis
    using I p hist.del_ok [of "rh_packetHistory h" p] by (auto simp: rh_inv_def SetLowerLimit_def)
qed

text \<open>Taking an ACK: the frame describes the history.\<close>

lemma ack_frame_of_history:
  assumes I: "rh_inv now h" and due: "rh_ackQueued h \<or> (rh_ackAlarm h \<noteq> 0 \<and> rh_ackAlarm h \<le> t)"
  shows "\<exists>f h'. GetAckFrame t h = (Inr (Some f), h')
    \<and> ranges_wf (ack_LargestAcked f) (ack_LowestAcked f) (ack_AckRanges f)
    \<and> acked_set (ack_LargestAcked f) (ack_LowestAcked f) (ack_AckRanges f) = history_set (rh_packetHistory h)
    \<and> 1 \<le> unat (ack_LowestAcked f) \<and> ack_LargestAcked f = rh_largestObserved h
    \<and> rh_packetHistory h' = rh_packetHistory h \<and> rh_inv now h'"
proof -
  have nz: "rh_largestObserved h \<noteq> 0" using I due by (auto simp: rh_inv_def)
  have hi: "history_inv (rh_packetHistory h)" "unat (rh_largestObserved h) \<in> history_set (rh_packetHistory h)"
    "\<And>q. q \<in> history_set (rh_packetHistory h) \<Longrightarrow> q \<le> unat (rh_largestObserved h)"
    using I nz by (auto simp: rh_inv_def)
  have ne: "history_set (rh_packetHistory h) \<noteq> {}" using hi(2) by blast
  have "GetAckRanges (rh_packetHistory h) \<noteq> []" using hist.ranges_empty [OF hi(1)] ne by simp
  then show ?thesis
    using due I hist.ranges_frame [OF hi(1) ne hi(2,3)]
    by (auto simp: GetAckFrame_def Let_def rh_inv_def AckSendDelay_def)
qed

lemma inv_take_ack:
  assumes "rh_inv now h" "GetAckFrame t h = (r, h')"
  shows "rh_inv now h'"
proof (cases "rh_ackQueued h \<or> (rh_ackAlarm h \<noteq> 0 \<and> rh_ackAlarm h \<le> t)")
  case True
  then show ?thesis using ack_frame_of_history [OF assms(1) True] assms(2) by auto
next
  case False
  then have "h' = h" using assms(2) by (auto simp: GetAckFrame_def)
  then show ?thesis using assms(1) by simp
qed

lemma rh_reachable_inv: "rh_reachable v now h \<Longrightarrow> rh_inv now h"
proof (induction rule: rh_reachable.induct)
  case (start now)
  then show ?case
    using hist.inv_empty hist.abs_empty by (simp add: rh_inv_def NewReceivedPacketHandler_def AckSendDelay_def)
next
  case (wait now h now')
  then show ?case by (auto simp: rh_inv_def)
next
  case (receive now h pn i h')
  then show ?case using received_cases by blast
next
  case (limit now h p)
  then show ?case by (simp add: inv_limit)
next
  case (take_ack now h ack h')
  then show ?case using inv_take_ack by blast
qed

lemma acksPacket_set:
  assumes "acksPacket largest lowest rs q"
  shows "unat q \<in> acked_set largest lowest rs"
  using assms by (auto simp: acksPacket_def acked_set_def range_set_def list_ex_iff word_le_nat_alt not_less split: if_splits)

lemma sent_ranges_set: "set (sent_ranges rs) \<subseteq> set rs"
  using set_sent_prefix by (fastforce simp: sent_ranges_def split: list.splits)

lemma acked_sent:
  "acked_set largest (sent_lowest lowest rs) (sent_ranges rs) \<subseteq> acked_set largest lowest rs"
proof (cases "rs = []")
  case True
  then show ?thesis by (simp add: sent_ranges_def sent_lowest_def)
next
  case False
  then have "sent_ranges rs \<noteq> []" by (auto simp: sent_ranges_def split: list.splits)
  then show ?thesis using False sent_ranges_set [of rs] unfolding acked_set_def by (simp add: UN_mono)
qed

section \<open>Properties of the receiving side\<close>

text \<open>
  C6: The list of intervals implements a set. On a history whose intervals are separated and which
  is not full, receiving packet \<open>p\<close> adds \<open>p\<close> to the set and nothing else, also when intervals are
  extended or merged; deleting up to \<open>p\<close> removes exactly the packets up to \<open>p\<close>; the intervals stay
  separated; and the ACK ranges describe the set.
\<close>

theorem received_history_refines_set:
  assumes "history_inv h" "\<not> history_full h" "p \<noteq> 0"
  shows "fst (receivedPacketHistory_ReceivedPacket p h) = None
    \<and> history_set (snd (receivedPacketHistory_ReceivedPacket p h)) = insert (unat p) (history_set h)
    \<and> history_inv (snd (receivedPacketHistory_ReceivedPacket p h))
    \<and> history_set (DeleteUpTo p h) = history_set h - {..unat p} \<and> history_inv (DeleteUpTo p h)
    \<and> (\<Union>r\<in>set (GetAckRanges h). range_set r) = history_set h \<and> descending (GetAckRanges h)"
  using hist.ins_ok [OF assms] hist.del_ok [OF assms(1)] hist.ranges_abs [OF assms(1)] hist.ranges_ok [OF assms(1)]
  by blast

theorem received_history_refines_set_witness:
  "let h = \<lparr>rph_ranges = [\<lparr>iv_Start = 2, iv_End = 4\<rparr>, \<lparr>iv_Start = 6, iv_End = 9\<rparr>], rph_lowestInReceivedPacketNumbers = 0\<rparr> in
   history_set (snd (receivedPacketHistory_ReceivedPacket 5 h)) = insert 5 (history_set h)
   \<and> rph_ranges (snd (receivedPacketHistory_ReceivedPacket 5 h)) = [\<lparr>iv_Start = 2, iv_End = 9\<rparr>]"
proof -
  let ?h = "\<lparr>rph_ranges = [\<lparr>iv_Start = 2, iv_End = 4\<rparr>, \<lparr>iv_Start = 6, iv_End = 9\<rparr>], rph_lowestInReceivedPacketNumbers = 0\<rparr>"
  have "history_inv ?h" "\<not> history_full ?h"
    by (simp_all add: history_inv_def history_set_def history_full_def MaxTrackedReceivedAckRanges_def)
  then show ?thesis
    using received_history_refines_set [of ?h 5]
    by (simp add: receivedPacketHistory_ReceivedPacket_def MaxTrackedReceivedAckRanges_def)
qed

text \<open>
  C13: The handler never panics and acknowledges exactly what it holds. In every reachable state
  \<^verbatim>\<open>GetAckFrame\<close> returns nothing when no ACK is due, and otherwise a frame with well-formed ranges,
  from \<^verbatim>\<open>largestObserved\<close> down, whose \<^verbatim>\<open>AcksPacket\<close> holds for the packets of the history and
  no others.
\<close>

theorem ack_frame_exact:
  assumes "rh_reachable v now h"
  shows "if rh_ackQueued h \<or> (rh_ackAlarm h \<noteq> 0 \<and> rh_ackAlarm h \<le> now)
    then \<exists>f h'. GetAckFrame now h = (Inr (Some f), h')
      \<and> ranges_wf (ack_LargestAcked f) (ack_LowestAcked f) (ack_AckRanges f)
      \<and> ack_LargestAcked f = rh_largestObserved h
      \<and> (\<forall>q. AckFrame_AcksPacket f q \<longleftrightarrow> unat q \<in> history_set (rh_packetHistory h))
    else GetAckFrame now h = (Inr None, h)"
proof (cases "rh_ackQueued h \<or> (rh_ackAlarm h \<noteq> 0 \<and> rh_ackAlarm h \<le> now)")
  case True
  show ?thesis
    using ack_frame_of_history [OF rh_reachable_inv [OF assms] True] True
    by (auto simp: AckFrame_AcksPacket_def acksPacket_iff)
next
  case False
  then show ?thesis by (auto simp: GetAckFrame_def)
qed

text \<open>What a reachable handler returns, from the frame it returned.\<close>

lemma returned_ack_frame:
  assumes "rh_reachable v now h" "GetAckFrame now h = (Inr (Some f), h')"
  shows "ranges_wf (ack_LargestAcked f) (ack_LowestAcked f) (ack_AckRanges f)" "1 \<le> unat (ack_LowestAcked f)"
    "acked_set (ack_LargestAcked f) (ack_LowestAcked f) (ack_AckRanges f) = history_set (rh_packetHistory h)"
proof -
  have due: "rh_ackQueued h \<or> (rh_ackAlarm h \<noteq> 0 \<and> rh_ackAlarm h \<le> now)"
  proof (rule ccontr)
    assume "\<not> ?thesis"
    then have "GetAckFrame now h = (Inr None, h)" unfolding GetAckFrame_def by (simp add: not_le)
    then show False using assms(2) by simp
  qed
  obtain f1 h1 where "GetAckFrame now h = (Inr (Some f1), h1)"
      "ranges_wf (ack_LargestAcked f1) (ack_LowestAcked f1) (ack_AckRanges f1)" "1 \<le> unat (ack_LowestAcked f1)"
      "acked_set (ack_LargestAcked f1) (ack_LowestAcked f1) (ack_AckRanges f1) = history_set (rh_packetHistory h)"
    using ack_frame_of_history [OF rh_reachable_inv [OF assms(1)] due] by blast
  then show "ranges_wf (ack_LargestAcked f) (ack_LowestAcked f) (ack_AckRanges f)" "1 \<le> unat (ack_LowestAcked f)"
    "acked_set (ack_LargestAcked f) (ack_LowestAcked f) (ack_AckRanges f) = history_set (rh_packetHistory h)"
    using assms(2) by simp_all
qed

lemma wire_ack_sound:
  assumes "rh_reachable v now h" "GetAckFrame now h = (Inr (Some f), h')"
    and "ack_ok f" "fst (AckFrame_Write t f v') = Inr bs" "ParseAckFrame v' (bs @ r) = Inr (f', r)"
    and "AckFrame_AcksPacket f' q"
  shows "unat q \<in> history_set (rh_packetHistory h)"
proof -
  have "ParseAckFrame v' (bs @ r) = Inr (ack_received t f, r)" by (rule ack.parse_write [OF assms(3,4)]) simp
  then have f': "f' = ack_received t f" unfolding assms(5) by blast
  have "unat q \<in> acked_set (ack_LargestAcked f') (ack_LowestAcked f') (ack_AckRanges f')"
    using assms(6) unfolding AckFrame_AcksPacket_def by (rule acksPacket_set)
  then have "unat q \<in> acked_set (ack_LargestAcked f) (ack_LowestAcked f) (ack_AckRanges f)"
    unfolding f' ack_received_def using acked_sent by fastforce
  then show ?thesis unfolding returned_ack_frame(3) [OF assms(1,2)] .
qed

text \<open>
  C9: Acknowledgements are sound across the wire. When the frame that a reachable handler returns is
  written and the peer parses it, the peer takes a packet for acknowledged only if the handler received it.
\<close>

theorem acks_on_the_wire_sound:
  assumes "rh_reachable v now h" "GetAckFrame now h = (Inr (Some f), h')"
    and "ack_ok f" "fst (AckFrame_Write t f v') = Inr bs" "ParseAckFrame v' (bs @ r) = Inr (f', r)"
    and "AckFrame_AcksPacket f' q"
  shows "unat q \<in> history_set (rh_packetHistory h)"
  by (rule wire_ack_sound [OF assms])

text \<open>
  C12: A packet that asks for an ACK is acknowledged in time. When a reachable handler accepts a
  retransmittable packet above its limit, an ACK frame that covers the packet is available at once or
  at the latest when the ACK delay of 25 ms is over.
\<close>

theorem retransmittable_packet_acked_in_time:
  assumes "rh_reachable v now h" "receivedPacketHandler_ReceivedPacket now pn True h = (None, h')"
    and "rh_lowerLimit h < pn" "now + AckSendDelay \<le> t"
  shows "\<exists>f h''. GetAckFrame t h' = (Inr (Some f), h'') \<and> AckFrame_AcksPacket f pn"
proof -
  note c = received_cases [OF rh_reachable_inv [OF assms(1)] assms(2)]
  have I: "rh_inv now h'" and q: "unat pn \<in> history_set (rh_packetHistory h')"
    and due: "rh_ackQueued h' \<or> rh_ackAlarm h' \<noteq> 0"
    using c assms(3) by auto
  have "rh_ackQueued h' \<or> (rh_ackAlarm h' \<noteq> 0 \<and> rh_ackAlarm h' \<le> t)"
    using due I assms(4) by (auto simp: rh_inv_def)
  then show ?thesis
    using ack_frame_of_history [OF I] q by (fastforce simp: AckFrame_AcksPacket_def acksPacket_iff)
qed

subsection \<open>A run of the handler\<close>

definition run_handler :: receivedPacketHandler where
  "run_handler = snd (receivedPacketHandler_ReceivedPacket 100 3 True
     (snd (receivedPacketHandler_ReceivedPacket 100 1 True (NewReceivedPacketHandler VersionMP))))"

lemmas handler_eval =
  receivedPacketHandler_ReceivedPacket_def observePacket_def receivedPacketHistory_ReceivedPacket_def
  maybeQueueAck_def ackDue_def NewReceivedPacketHandler_def newReceivedPacketHistory_def
  MaxTrackedReceivedAckRanges_def AckSendDelay_def version_defs Let_def i64_id word_le_nat_alt

lemma run_handler_value:
  "run_handler = \<lparr>rh_largestObserved = 3, rh_lowerLimit = 0, rh_largestObservedReceivedTime = 100,
      rh_packetHistory = \<lparr>rph_ranges = [\<lparr>iv_Start = 1, iv_End = 1\<rparr>, \<lparr>iv_Start = 3, iv_End = 3\<rparr>],
        rph_lowestInReceivedPacketNumbers = 0\<rparr>, rh_ackSendDelay = 25000000,
      rh_packetsReceivedSinceLastAck = 2, rh_retransmittablePacketsReceivedSinceLastAck = 2,
      rh_ackQueued = True, rh_ackAlarm = 0, rh_lastAck = None, rh_version = 512, rh_packets = 2\<rparr>"
  by (simp add: run_handler_def handler_eval)

lemma run_handler_reachable: "rh_reachable VersionMP 100 run_handler"
proof -
  let ?h = "NewReceivedPacketHandler VersionMP"
  have "fst (receivedPacketHandler_ReceivedPacket 100 1 True ?h) = None"
    "fst (receivedPacketHandler_ReceivedPacket 100 3 True (snd (receivedPacketHandler_ReceivedPacket 100 1 True ?h))) = None"
    by (simp_all add: handler_eval)
  then show ?thesis unfolding run_handler_def
    by (metis prod.collapse rh_reachable.receive rh_reachable.start zero_less_numeral)
qed

theorem ack_frame_exact_witness:
  "\<exists>f h'. GetAckFrame 100 run_handler = (Inr (Some f), h') \<and> AckFrame_AcksPacket f 3 \<and> \<not> AckFrame_AcksPacket f 2"
proof -
  have q: "rh_ackQueued run_handler" "history_set (rh_packetHistory run_handler) = {1, 3}"
    by (simp_all add: run_handler_value history_set_def insert_commute)
  then obtain f h' where g: "GetAckFrame 100 run_handler = (Inr (Some f), h')"
      "\<forall>p. AckFrame_AcksPacket f p \<longleftrightarrow> unat p \<in> history_set (rh_packetHistory run_handler)"
    using ack_frame_exact [OF run_handler_reachable] by auto
  then show ?thesis using q(2) by (intro exI [of _ f] exI [of _ h']) simp
qed

theorem acks_on_the_wire_sound_witness:
  "\<exists>f h' bs f'. GetAckFrame 100 run_handler = (Inr (Some f), h') \<and> fst (AckFrame_Write 200 f VersionMP) = Inr bs
     \<and> ParseAckFrame VersionMP (bs @ [7]) = Inr (f', [7]) \<and> AckFrame_AcksPacket f' 3
     \<and> unat (3 :: PacketNumber) \<in> history_set (rh_packetHistory run_handler)"
proof -
  let ?f = "\<lparr>ack_PathID = 0, ack_LargestAcked = 3, ack_LowestAcked = 1,
    ack_AckRanges = [\<lparr>ar_First = 3, ar_Last = 3\<rparr>, \<lparr>ar_First = 1, ar_Last = 1\<rparr>],
    ack_PacketReceivedTime = 100, ack_DelayTime = 0\<rparr>"
  have g: "GetAckFrame 100 run_handler = (Inr (Some ?f), snd (GetAckFrame 100 run_handler))"
    by (simp add: run_handler_value GetAckFrame_def GetAckRanges_def toAckRange_def Let_def)
  have ok: "ack_ok ?f"
    by (simp add: ack_ok_def ranges_sendable_def ranges_wf_def range_ok_def blocks_nat_def gap_nat_def)
  obtain bs where w: "fst (AckFrame_Write 200 ?f VersionMP) = Inr bs"
      "ParseAckFrame VersionMP (bs @ [7]) = Inr (ack_received 200 ?f, [7])"
    using ack.write_total [OF ok] ack.parse_write [OF ok] by blast
  have a: "AckFrame_AcksPacket (ack_received 200 ?f) 3"
    by (simp add: AckFrame_AcksPacket_def acksPacket_def ack_received_def sent_lowest_def sent_ranges_def
        blocks_nat_def gap_nat_def)
  show ?thesis
    using acks_on_the_wire_sound [OF run_handler_reachable g ok w a] g w a by blast
qed

theorem retransmittable_packet_acked_in_time_witness:
  "\<exists>h' f h''. receivedPacketHandler_ReceivedPacket 100 2 True run_handler = (None, h')
     \<and> GetAckFrame 25000100 h' = (Inr (Some f), h'') \<and> AckFrame_AcksPacket f 2"
proof -
  have "fst (receivedPacketHandler_ReceivedPacket 100 2 True run_handler) = None"
    by (simp add: run_handler_value handler_eval)
  then have "receivedPacketHandler_ReceivedPacket 100 2 True run_handler
      = (None, snd (receivedPacketHandler_ReceivedPacket 100 2 True run_handler))"
    by (metis prod.collapse)
  then show ?thesis
    using retransmittable_packet_acked_in_time [OF run_handler_reachable, of 2 _ 25000100]
    by (fastforce simp: run_handler_value AckSendDelay_def)
qed

end
