(* ===== verification/Congestion.thy ===== *)
theory Congestion
  imports Utils AckFrames "HOL-Library.Log_Nat"
begin

text \<open>
  The measurements congestion control rests on, package \<^verbatim>\<open>congestion\<close>: the statistics of the round trip time
  (\<^verbatim>\<open>rtt_stats.go\<close>), hybrid slow start (\<^verbatim>\<open>hybrid_slow_start.go\<close>), proportional rate reduction
  (\<^verbatim>\<open>prr_sender.go\<close>) and the bandwidth estimate (\<^verbatim>\<open>bandwidth.go\<close>).

  Go's \<^verbatim>\<open>float32\<close> and \<^verbatim>\<open>float64\<close> are rational numbers, and every operation rounds its exact result to the nearest
  number with 24 or 53 significant bits, ties to even, as IEEE 754 prescribes. The values here are far from the
  limits of the exponent, so there are no subnormal numbers or infinities; no operation is fused.
\<close>

section \<open>Floating point\<close>

text \<open>The exponent of a number: \<open>2 powi ieee_exp x \<le> \<bar>x\<bar>\<close>.\<close>

definition ieee_exp :: "rat \<Rightarrow> int" where
  "ieee_exp x =
     (let (p, q) = quotient_of \<bar>x\<bar>; k = bitlen p - bitlen q
      in if 2 powi k \<le> \<bar>x\<bar> then k else k - 1)"

definition round_even :: "rat \<Rightarrow> int" where
  "round_even y =
     (let d = y - of_int \<lfloor>y\<rfloor> in
      if d < 1 / 2 \<or> d = 1 / 2 \<and> even \<lfloor>y\<rfloor> then \<lfloor>y\<rfloor> else \<lfloor>y\<rfloor> + 1)"

definition ieee_round :: "nat \<Rightarrow> rat \<Rightarrow> rat" where
  "ieee_round bits x =
     (if x = 0 then 0
      else let u = 2 powi (ieee_exp x - int bits + 1) in of_int (round_even (x / u)) * u)"

abbreviation f32 :: "rat \<Rightarrow> rat" where "f32 \<equiv> ieee_round 24"
abbreviation f64 :: "rat \<Rightarrow> rat" where "f64 \<equiv> ieee_round 53"

text \<open>Conversion to an integer type truncates towards zero.\<close>

definition to_int64 :: "rat \<Rightarrow> int" where
  "to_int64 x = (if 0 \<le> x then \<lfloor>x\<rfloor> else - \<lfloor>- x\<rfloor>)"

lemma round_even_near: "\<bar>of_int (round_even y) - y\<bar> \<le> 1 / 2"
proof -
  define d where "d = y - of_int \<lfloor>y\<rfloor>"
  have "0 \<le> d" "d < 1" unfolding d_def using floor_correct [of y] by linarith+
  moreover have "of_int (round_even y) - y = (if d < 1 / 2 \<or> d = 1 / 2 \<and> even \<lfloor>y\<rfloor> then - d else 1 - d)"
    unfolding round_even_def Let_def by (simp add: d_def)
  ultimately show ?thesis by (auto simp: abs_if)
qed

lemma bitlen_bounds_rat: "p > 0 \<Longrightarrow> 2 powi (bitlen p - 1) \<le> (of_int p :: rat) \<and> of_int p < (2 powi bitlen p :: rat)"
proof -
  assume p: "p > 0"
  have b: "1 \<le> bitlen p" using p by (simp add: bitlen_def floorlog_def)
  have *: "2 ^ nat (bitlen p - 1) \<le> p" "p < 2 ^ nat (bitlen p)" using bitlen_bounds [OF p] by auto
  have "(of_int (2 ^ nat (bitlen p - 1)) :: rat) \<le> of_int p" "of_int p < (of_int (2 ^ nat (bitlen p)) :: rat)"
    using * by (simp_all only: of_int_le_iff of_int_less_iff)
  then show ?thesis using b by (simp add: power_int_def)
qed

lemma ieee_exp_le:
  assumes "x \<noteq> 0"
  shows "2 powi ieee_exp x \<le> \<bar>x\<bar>"
proof -
  obtain p q where pq: "quotient_of \<bar>x\<bar> = (p, q)" by (cases "quotient_of \<bar>x\<bar>")
  have q: "q > 0" by (rule quotient_of_denom_pos [OF pq])
  have x: "\<bar>x\<bar> = of_int p / of_int q" by (rule quotient_of_div [OF pq])
  have "0 < \<bar>x\<bar>" using assms by simp
  then have p: "p > 0" using q unfolding x by (simp add: zero_less_divide_iff)
  define k where "k = bitlen p - bitlen q"
  have "2 powi (k - 1) * of_int q \<le> (2 powi (k - 1) * 2 powi bitlen q :: rat)"
    using bitlen_bounds_rat [OF q] by (intro mult_left_mono) auto
  also have "\<dots> = 2 powi (bitlen p - 1)" by (simp add: k_def flip: power_int_add)
  also have "\<dots> \<le> of_int p" using bitlen_bounds_rat [OF p] by simp
  finally have "2 powi (k - 1) \<le> \<bar>x\<bar>" using q unfolding x by (simp add: pos_le_divide_eq)
  then show ?thesis by (auto simp: ieee_exp_def pq k_def Let_def)
qed

text \<open>The relative error of a rounding.\<close>

lemma ieee_round_error: "\<bar>ieee_round bits x - x\<bar> * 2 ^ bits \<le> \<bar>x\<bar>"
proof (cases "x = 0")
  case False
  define u :: rat where "u = 2 powi (ieee_exp x - int bits + 1)"
  have u: "u > 0" by (simp add: u_def)
  have "ieee_round bits x - x = (of_int (round_even (x / u)) - x / u) * u"
    using False u by (simp add: ieee_round_def u_def Let_def left_diff_distrib)
  then have "\<bar>ieee_round bits x - x\<bar> = \<bar>of_int (round_even (x / u)) - x / u\<bar> * u"
    using u by (simp add: abs_mult)
  also have "\<dots> \<le> 1 / 2 * u" using round_even_near u by (intro mult_right_mono) auto
  finally have "\<bar>ieee_round bits x - x\<bar> * 2 ^ bits \<le> 1 / 2 * u * 2 ^ bits" by (intro mult_right_mono) auto
  also have "u * 2 ^ bits = 2 * 2 powi ieee_exp x"
    unfolding u_def by (simp add: power_int_add power_int_diff)
  then have "1 / 2 * u * 2 ^ bits = 2 powi ieee_exp x" by simp
  also have "\<dots> \<le> \<bar>x\<bar>" by (rule ieee_exp_le [OF False])
  finally show ?thesis .
qed (simp add: ieee_round_def)

lemma ieee_round_bounds:
  assumes "0 \<le> x"
  shows "x * (2 ^ bits - 1) \<le> ieee_round bits x * 2 ^ bits" "ieee_round bits x * 2 ^ bits \<le> x * (2 ^ bits + 1)"
proof -
  have "\<bar>ieee_round bits x * 2 ^ bits - x * 2 ^ bits\<bar> \<le> x"
    using ieee_round_error [of bits x] assms by (simp add: abs_mult flip: left_diff_distrib)
  then show "x * (2 ^ bits - 1) \<le> ieee_round bits x * 2 ^ bits" "ieee_round bits x * 2 ^ bits \<le> x * (2 ^ bits + 1)"
    unfolding right_diff_distrib distrib_left mult_1_right abs_le_iff by linarith+
qed

section \<open>Round trip time\<close>

record rttSample =
  rs_rtt :: int
  rs_time :: int

record RTTStats =
  rtt_initialRTTus :: int
  rtt_recentMinRTTwindow :: int
  rtt_minRTT :: int
  rtt_latestRTT :: int
  rtt_smoothedRTT :: int
  rtt_meanDeviation :: int
  rtt_numMinRTTsamplesRemaining :: u32
  rtt_newMinRTT :: rttSample
  rtt_recentMinRTT :: rttSample
  rtt_halfWindowRTT :: rttSample
  rtt_quarterWindowRTT :: rttSample

definition initialRTTus :: int where "initialRTTus = 100 * 1000"
definition rttAlpha :: rat where "rttAlpha = 1 / 8"
definition oneMinusAlpha :: rat where "oneMinusAlpha = 7 / 8"
definition rttBeta :: rat where "rttBeta = 1 / 4"
definition oneMinusBeta :: rat where "oneMinusBeta = 3 / 4"
definition halfWindow :: rat where "halfWindow = 1 / 2"
definition quarterWindow :: rat where "quarterWindow = 1 / 4"

abbreviation zeroSample :: rttSample where "zeroSample \<equiv> \<lparr>rs_rtt = 0, rs_time = 0\<rparr>"

definition NewRTTStats :: RTTStats where
  "NewRTTStats = \<lparr>rtt_initialRTTus = initialRTTus, rtt_recentMinRTTwindow = InfDuration, rtt_minRTT = 0,
     rtt_latestRTT = 0, rtt_smoothedRTT = 0, rtt_meanDeviation = 0, rtt_numMinRTTsamplesRemaining = 0,
     rtt_newMinRTT = zeroSample, rtt_recentMinRTT = zeroSample, rtt_halfWindowRTT = zeroSample,
     rtt_quarterWindowRTT = zeroSample\<rparr>"

definition RTTStats_InitialRTTus :: "RTTStats \<Rightarrow> int" where "RTTStats_InitialRTTus r = rtt_initialRTTus r"
definition MinRTT :: "RTTStats \<Rightarrow> int" where "MinRTT r = rtt_minRTT r"
definition LatestRTT :: "RTTStats \<Rightarrow> int" where "LatestRTT r = rtt_latestRTT r"
definition RecentMinRTT :: "RTTStats \<Rightarrow> int" where "RecentMinRTT r = rs_rtt (rtt_recentMinRTT r)"
definition SmoothedRTT :: "RTTStats \<Rightarrow> int" where "SmoothedRTT r = rtt_smoothedRTT r"
definition GetQuarterWindowRTT :: "RTTStats \<Rightarrow> int" where "GetQuarterWindowRTT r = rs_rtt (rtt_quarterWindowRTT r)"
definition GetHalfWindowRTT :: "RTTStats \<Rightarrow> int" where "GetHalfWindowRTT r = rs_rtt (rtt_halfWindowRTT r)"
definition MeanDeviation :: "RTTStats \<Rightarrow> int" where "MeanDeviation r = rtt_meanDeviation r"

definition SetRecentMinRTTwindow :: "int \<Rightarrow> RTTStats \<Rightarrow> RTTStats" where
  "SetRecentMinRTTwindow w r = r\<lparr>rtt_recentMinRTTwindow := w\<rparr>"

text \<open>A duration in whole microseconds as a \<^verbatim>\<open>float32\<close>, and back.\<close>

definition us32 :: "int \<Rightarrow> rat" where
  "us32 d = f32 (of_int (quot d Microsecond))"

definition from_us32 :: "rat \<Rightarrow> int" where
  "from_us32 x = i64 (to_int64 x * Microsecond)"

text \<open>\<^verbatim>\<open>updateRecentMinRTT\<close>: a new minimum that was asked for, the three samples, and their expiry.\<close>

definition sampleNewMin :: "int \<Rightarrow> int \<Rightarrow> RTTStats \<Rightarrow> RTTStats" where
  "sampleNewMin sample now r =
     (if rtt_numMinRTTsamplesRemaining r > 0 then
        let r1 = r\<lparr>rtt_numMinRTTsamplesRemaining := rtt_numMinRTTsamplesRemaining r - 1\<rparr>;
            r2 = (if rs_rtt (rtt_newMinRTT r1) = 0 \<or> sample \<le> rs_rtt (rtt_newMinRTT r1)
                  then r1\<lparr>rtt_newMinRTT := \<lparr>rs_rtt = sample, rs_time = now\<rparr>\<rparr> else r1)
        in if rtt_numMinRTTsamplesRemaining r2 = 0
           then r2\<lparr>rtt_recentMinRTT := rtt_newMinRTT r2, rtt_halfWindowRTT := rtt_newMinRTT r2,
                   rtt_quarterWindowRTT := rtt_newMinRTT r2\<rparr>
           else r2
      else r)"

definition updateWindows :: "rttSample \<Rightarrow> RTTStats \<Rightarrow> RTTStats" where
  "updateWindows s r =
     (if rs_rtt (rtt_recentMinRTT r) = 0 \<or> rs_rtt s \<le> rs_rtt (rtt_recentMinRTT r)
      then r\<lparr>rtt_recentMinRTT := s, rtt_halfWindowRTT := s, rtt_quarterWindowRTT := s\<rparr>
      else if rs_rtt s \<le> rs_rtt (rtt_halfWindowRTT r)
      then r\<lparr>rtt_halfWindowRTT := s, rtt_quarterWindowRTT := s\<rparr>
      else if rs_rtt s \<le> rs_rtt (rtt_quarterWindowRTT r) then r\<lparr>rtt_quarterWindowRTT := s\<rparr>
      else r)"

definition expireWindows :: "rttSample \<Rightarrow> RTTStats \<Rightarrow> RTTStats" where
  "expireWindows s r =
     (let now = rs_time s; w = us32 (rtt_recentMinRTTwindow r) in
      if rs_time (rtt_recentMinRTT r) < now + i64 (- rtt_recentMinRTTwindow r)
      then r\<lparr>rtt_recentMinRTT := rtt_halfWindowRTT r, rtt_halfWindowRTT := rtt_quarterWindowRTT r,
             rtt_quarterWindowRTT := s\<rparr>
      else if rs_time (rtt_halfWindowRTT r) < now + i64 (i64 (- to_int64 (f32 (w * halfWindow))) * Microsecond)
      then r\<lparr>rtt_halfWindowRTT := rtt_quarterWindowRTT r, rtt_quarterWindowRTT := s\<rparr>
      else if rs_time (rtt_quarterWindowRTT r) < now + i64 (i64 (- to_int64 (f32 (w * quarterWindow))) * Microsecond)
      then r\<lparr>rtt_quarterWindowRTT := s\<rparr>
      else r)"

definition updateRecentMinRTT :: "int \<Rightarrow> int \<Rightarrow> RTTStats \<Rightarrow> RTTStats" where
  "updateRecentMinRTT sample now r =
     (let s = \<lparr>rs_rtt = sample, rs_time = now\<rparr>
      in expireWindows s (updateWindows s (sampleNewMin sample now r)))"

text \<open>The moving averages.\<close>

definition smoothDeviation :: "int \<Rightarrow> RTTStats \<Rightarrow> int" where
  "smoothDeviation sample r =
     from_us32 (f32 (f32 (oneMinusBeta * us32 (rtt_meanDeviation r))
                     + f32 (rttBeta * us32 (AbsDuration (i64 (rtt_smoothedRTT r - sample))))))"

definition smoothRTT :: "int \<Rightarrow> RTTStats \<Rightarrow> int" where
  "smoothRTT sample r =
     from_us32 (f32 (f32 (us32 (rtt_smoothedRTT r) * oneMinusAlpha) + f32 (us32 sample * rttAlpha)))"

definition UpdateRTT :: "int \<Rightarrow> int \<Rightarrow> int \<Rightarrow> RTTStats \<Rightarrow> RTTStats" where
  "UpdateRTT sendDelta ackDelay now r =
     (if sendDelta = InfDuration \<or> sendDelta \<le> 0 then r
      else
        let r1 = (if rtt_minRTT r = 0 \<or> rtt_minRTT r > sendDelta then r\<lparr>rtt_minRTT := sendDelta\<rparr> else r);
            r2 = updateRecentMinRTT sendDelta now r1;
            sample = (if sendDelta > ackDelay then i64 (sendDelta - ackDelay) else sendDelta);
            r3 = r2\<lparr>rtt_latestRTT := sample\<rparr>
        in if rtt_smoothedRTT r3 = 0
           then r3\<lparr>rtt_smoothedRTT := sample, rtt_meanDeviation := quot sample 2\<rparr>
           else let r4 = r3\<lparr>rtt_meanDeviation := smoothDeviation sample r3\<rparr>
                in r4\<lparr>rtt_smoothedRTT := smoothRTT sample r4\<rparr>)"

definition SampleNewRecentMinRTT :: "u32 \<Rightarrow> RTTStats \<Rightarrow> RTTStats" where
  "SampleNewRecentMinRTT numSamples r =
     r\<lparr>rtt_numMinRTTsamplesRemaining := numSamples, rtt_newMinRTT := zeroSample\<rparr>"

definition RTTStats_OnConnectionMigration :: "RTTStats \<Rightarrow> RTTStats" where
  "RTTStats_OnConnectionMigration r =
     r\<lparr>rtt_latestRTT := 0, rtt_minRTT := 0, rtt_smoothedRTT := 0, rtt_meanDeviation := 0,
       rtt_initialRTTus := initialRTTus, rtt_numMinRTTsamplesRemaining := 0,
       rtt_recentMinRTTwindow := InfDuration, rtt_recentMinRTT := zeroSample, rtt_halfWindowRTT := zeroSample,
       rtt_quarterWindowRTT := zeroSample\<rparr>"

definition ExpireSmoothedMetrics :: "RTTStats \<Rightarrow> RTTStats" where
  "ExpireSmoothedMetrics r =
     (let r1 = r\<lparr>rtt_meanDeviation := MaxDuration (rtt_meanDeviation r)
                   (AbsDuration (i64 (rtt_smoothedRTT r - rtt_latestRTT r)))\<rparr>
      in r1\<lparr>rtt_smoothedRTT := MaxDuration (rtt_smoothedRTT r1) (rtt_latestRTT r1)\<rparr>)"

definition UpdateSessionRTT :: "int \<Rightarrow> RTTStats \<Rightarrow> RTTStats" where
  "UpdateSessionRTT smoothedRTT r = r\<lparr>rtt_smoothedRTT := smoothedRTT\<rparr>"

section \<open>Bandwidth\<close>

text \<open>The estimate in bits per second; the callers pass a time that is not zero.\<close>

definition BandwidthFromDelta :: "ByteCount \<Rightarrow> int \<Rightarrow> u64" where
  "BandwidthFromDelta bytes d = bytes * 1000000000 div word_of_int d * 8"

section \<open>Hybrid slow start\<close>

definition hybridStartLowWindow :: ByteCount where "hybridStartLowWindow = 16"
definition hybridStartMinSamples :: u32 where "hybridStartMinSamples = 8"
definition hybridStartDelayFactorExp :: nat where "hybridStartDelayFactorExp = 3"
definition hybridStartDelayMinThresholdUs :: int where "hybridStartDelayMinThresholdUs = 4000"
definition hybridStartDelayMaxThresholdUs :: int where "hybridStartDelayMaxThresholdUs = 16000"

record HybridSlowStart =
  hss_endPacketNumber :: PacketNumber
  hss_lastSentPacketNumber :: PacketNumber
  hss_started :: bool
  hss_currentMinRTT :: int
  hss_rttSampleCount :: u32
  hss_hystartFound :: bool

definition StartReceiveRound :: "PacketNumber \<Rightarrow> HybridSlowStart \<Rightarrow> HybridSlowStart" where
  "StartReceiveRound lastSent s =
     s\<lparr>hss_endPacketNumber := lastSent, hss_currentMinRTT := 0, hss_rttSampleCount := 0, hss_started := True\<rparr>"

definition IsEndOfRound :: "PacketNumber \<Rightarrow> HybridSlowStart \<Rightarrow> bool" where
  "IsEndOfRound ack s \<longleftrightarrow> hss_endPacketNumber s < ack"

text \<open>The increase of the round trip time, in nanoseconds, that ends slow start.\<close>

definition minRTTincreaseThreshold :: "int \<Rightarrow> int" where
  "minRTTincreaseThreshold minRTT =
     MaxInt64 (MinInt64 (drop_bit hybridStartDelayFactorExp (quot minRTT Microsecond)) hybridStartDelayMaxThresholdUs)
       hybridStartDelayMinThresholdUs * Microsecond"

definition ShouldExitSlowStart :: "int \<Rightarrow> int \<Rightarrow> ByteCount \<Rightarrow> HybridSlowStart \<Rightarrow> bool \<times> HybridSlowStart" where
  "ShouldExitSlowStart latestRTT minRTT congestionWindow s =
     (let s1 = (if \<not> hss_started s then StartReceiveRound (hss_lastSentPacketNumber s) s else s) in
      if hss_hystartFound s1 then (True, s1)
      else
        let s2 = s1\<lparr>hss_rttSampleCount := hss_rttSampleCount s1 + 1\<rparr>;
            s3 = (if hss_rttSampleCount s2 \<le> hybridStartMinSamples
                     \<and> (hss_currentMinRTT s2 = 0 \<or> hss_currentMinRTT s2 > latestRTT)
                  then s2\<lparr>hss_currentMinRTT := latestRTT\<rparr> else s2);
            s4 = (if hss_rttSampleCount s3 = hybridStartMinSamples
                     \<and> hss_currentMinRTT s3 > i64 (minRTT + minRTTincreaseThreshold minRTT)
                  then s3\<lparr>hss_hystartFound := True\<rparr> else s3)
        in (congestionWindow \<ge> hybridStartLowWindow \<and> hss_hystartFound s4, s4))"

definition HybridSlowStart_OnPacketSent :: "PacketNumber \<Rightarrow> HybridSlowStart \<Rightarrow> HybridSlowStart" where
  "HybridSlowStart_OnPacketSent packetNumber s = s\<lparr>hss_lastSentPacketNumber := packetNumber\<rparr>"

definition HybridSlowStart_OnPacketAcked :: "PacketNumber \<Rightarrow> HybridSlowStart \<Rightarrow> HybridSlowStart" where
  "HybridSlowStart_OnPacketAcked ackedPacketNumber s =
     (if IsEndOfRound ackedPacketNumber s then s\<lparr>hss_started := False\<rparr> else s)"

definition Started :: "HybridSlowStart \<Rightarrow> bool" where
  "Started s = hss_started s"

definition Restart :: "HybridSlowStart \<Rightarrow> HybridSlowStart" where
  "Restart s = s\<lparr>hss_started := False, hss_hystartFound := False\<rparr>"

section \<open>Proportional rate reduction\<close>

definition DefaultTCPMSS :: ByteCount where "DefaultTCPMSS = 1460"

record PrrSender =
  prr_bytesSentSinceLoss :: ByteCount
  prr_bytesDeliveredSinceLoss :: ByteCount
  prr_ackCountSinceLoss :: ByteCount
  prr_bytesInFlightBeforeLoss :: ByteCount

definition PrrSender_OnPacketSent :: "ByteCount \<Rightarrow> PrrSender \<Rightarrow> PrrSender" where
  "PrrSender_OnPacketSent sentBytes p = p\<lparr>prr_bytesSentSinceLoss := prr_bytesSentSinceLoss p + sentBytes\<rparr>"

definition PrrSender_OnPacketLost :: "ByteCount \<Rightarrow> PrrSender \<Rightarrow> PrrSender" where
  "PrrSender_OnPacketLost bytesInFlight p =
     p\<lparr>prr_bytesSentSinceLoss := 0, prr_bytesInFlightBeforeLoss := bytesInFlight,
       prr_bytesDeliveredSinceLoss := 0, prr_ackCountSinceLoss := 0\<rparr>"

definition PrrSender_OnPacketAcked :: "ByteCount \<Rightarrow> PrrSender \<Rightarrow> PrrSender" where
  "PrrSender_OnPacketAcked ackedBytes p =
     p\<lparr>prr_bytesDeliveredSinceLoss := prr_bytesDeliveredSinceLoss p + ackedBytes,
       prr_ackCountSinceLoss := prr_ackCountSinceLoss p + 1\<rparr>"

definition PrrSender_TimeUntilSend :: "ByteCount \<Rightarrow> ByteCount \<Rightarrow> ByteCount \<Rightarrow> PrrSender \<Rightarrow> int" where
  "PrrSender_TimeUntilSend congestionWindow bytesInFlight slowstartThreshold p =
     (if prr_bytesSentSinceLoss p = 0 \<or> bytesInFlight < DefaultTCPMSS then 0
      else if congestionWindow > bytesInFlight then
        if prr_bytesDeliveredSinceLoss p + prr_ackCountSinceLoss p * DefaultTCPMSS \<le> prr_bytesSentSinceLoss p
        then InfDuration else 0
      else if prr_bytesDeliveredSinceLoss p * slowstartThreshold
              > prr_bytesSentSinceLoss p * prr_bytesInFlightBeforeLoss p then 0
      else InfDuration)"

section \<open>The smoothed round trip time stays between the old value and the sample\<close>

lemma f32_upper: "0 \<le> x \<Longrightarrow> x \<le> y \<Longrightarrow> f32 x \<le> y * (1 + 1 / 2 ^ 24)"
  using ieee_round_bounds(2) [of x 24] by simp

lemma f32_lower:
  assumes "y \<le> x" "0 \<le> x"
  shows "y * (1 - 1 / 2 ^ 24) \<le> f32 x"
proof -
  have "y * (2 ^ 24 - 1) \<le> x * (2 ^ 24 - 1)" using assms by (intro mult_right_mono) auto
  then show ?thesis using ieee_round_bounds(1) [of x 24] assms by simp
qed

lemma f32_nonneg: "0 \<le> x \<Longrightarrow> 0 \<le> f32 x"
  using f32_lower [of 0 x] by simp

lemma floor_us:
  assumes "0 \<le> d"
  shows "0 \<le> (of_int (quot d Microsecond) :: rat)" "(of_int (quot d Microsecond) :: rat) \<le> of_int d / 1000"
    "(of_int d :: rat) / 1000 - 1 \<le> of_int (quot d Microsecond)"
proof -
  have q: "quot d Microsecond = d div 1000" using assms by (simp add: quot_nonneg)
  have "1000 * (d div 1000) \<le> d" "d < 1000 * (d div 1000) + 1000" by simp_all
  then have "(of_int (1000 * (d div 1000)) :: rat) \<le> of_int d" "(of_int d :: rat) < of_int (1000 * (d div 1000) + 1000)"
    by (simp_all only: of_int_le_iff of_int_less_iff)
  then show "(of_int (quot d Microsecond) :: rat) \<le> of_int d / 1000"
    "(of_int d :: rat) / 1000 - 1 \<le> of_int (quot d Microsecond)" unfolding q by simp_all
  show "0 \<le> (of_int (quot d Microsecond) :: rat)" using assms unfolding q by (simp add: pos_imp_zdiv_nonneg_iff)
qed

text \<open>The weighted mean of two rounded values, rounded.\<close>

definition mean32 :: "int \<Rightarrow> int \<Rightarrow> rat" where
  "mean32 s x = f32 (f32 (us32 s * oneMinusAlpha) + f32 (us32 x * rttAlpha))"

lemma mean32_upper:
  assumes "0 \<le> s" "0 \<le> x" "s \<le> m" "x \<le> m"
  shows "mean32 s x \<le> of_int m / 1000 * (1 + 1 / 2 ^ 22)"
proof -
  define M :: rat where "M = of_int m / 1000"
  define e :: rat where "e = 1 + 1 / 2 ^ 24"
  have U: "f32 u \<le> v * e" if "0 \<le> u" "u \<le> v" for u v unfolding e_def by (rule f32_upper [OF that])
  have M: "of_int s / 1000 \<le> M" "of_int x / 1000 \<le> M" "0 \<le> M" using assms by (simp_all add: M_def)
  have s: "us32 s \<le> M * e" "0 \<le> us32 s"
    unfolding us32_def using order_trans [OF floor_us(2) [OF assms(1)] M(1)] floor_us(1) [OF assms(1)]
    by (blast intro: U f32_nonneg)+
  have x: "us32 x \<le> M * e" "0 \<le> us32 x"
    unfolding us32_def using order_trans [OF floor_us(2) [OF assms(2)] M(2)] floor_us(1) [OF assms(2)]
    by (blast intro: U f32_nonneg)+
  have a: "f32 (us32 s * oneMinusAlpha) \<le> M * e * (7 / 8) * e" "0 \<le> f32 (us32 s * oneMinusAlpha)"
    by (rule U f32_nonneg; use s in \<open>simp add: oneMinusAlpha_def\<close>)+
  have b: "f32 (us32 x * rttAlpha) \<le> M * e * (1 / 8) * e" "0 \<le> f32 (us32 x * rttAlpha)"
    by (rule U f32_nonneg; use x in \<open>simp add: rttAlpha_def\<close>)+
  have "M * e * (7 / 8) * e + M * e * (1 / 8) * e = M * e * e" by (simp add: field_simps)
  then have "f32 (us32 s * oneMinusAlpha) + f32 (us32 x * rttAlpha) \<le> M * e * e" using a(1) b(1) by linarith
  then have "mean32 s x \<le> M * e * e * e" unfolding mean32_def using a(2) b(2) by (intro U) auto
  also have "\<dots> = M * (e * e * e)" by simp
  also have "\<dots> \<le> M * (1 + 1 / 2 ^ 22)" using M(3) by (intro mult_left_mono) (simp_all add: e_def)
  finally show ?thesis by (simp add: M_def)
qed

lemma mean32_lower:
  assumes "0 \<le> s" "0 \<le> x" "m \<le> s" "m \<le> x" "0 \<le> m"
  shows "0 \<le> mean32 s x" "of_int m / 1000 * (1 - 1 / 2 ^ 22) \<le> mean32 s x + 1"
proof -
  define M :: rat where "M = of_int m / 1000 - 1"
  define e :: rat where "e = 1 - 1 / 2 ^ 24"
  have L: "v * e \<le> f32 u" if "v \<le> u" "0 \<le> u" for u v unfolding e_def by (rule f32_lower [OF that])
  have M: "M \<le> of_int s / 1000 - 1" "M \<le> of_int x / 1000 - 1" using assms by (simp_all add: M_def)
  have s: "M * e \<le> us32 s" "0 \<le> us32 s"
    unfolding us32_def using order_trans [OF M(1) floor_us(3) [OF assms(1)]] floor_us(1) [OF assms(1)]
    by (blast intro: L f32_nonneg)+
  have x: "M * e \<le> us32 x" "0 \<le> us32 x"
    unfolding us32_def using order_trans [OF M(2) floor_us(3) [OF assms(2)]] floor_us(1) [OF assms(2)]
    by (blast intro: L f32_nonneg)+
  have a: "M * e * (7 / 8) * e \<le> f32 (us32 s * oneMinusAlpha)" "0 \<le> f32 (us32 s * oneMinusAlpha)"
    by (rule L f32_nonneg; use s in \<open>simp add: oneMinusAlpha_def\<close>)+
  have b: "M * e * (1 / 8) * e \<le> f32 (us32 x * rttAlpha)" "0 \<le> f32 (us32 x * rttAlpha)"
    by (rule L f32_nonneg; use x in \<open>simp add: rttAlpha_def\<close>)+
  show "0 \<le> mean32 s x" unfolding mean32_def using a(2) b(2) by (intro f32_nonneg) auto
  have "M * e * (7 / 8) * e + M * e * (1 / 8) * e = M * e * e" by (simp add: field_simps)
  then have "M * e * e \<le> f32 (us32 s * oneMinusAlpha) + f32 (us32 x * rttAlpha)" using a(1) b(1) by linarith
  then have l: "M * e * e * e \<le> mean32 s x" unfolding mean32_def using a(2) b(2) by (intro L) auto
  define c where "c = e * e * e"
  have c: "1 - 1 / 2 ^ 22 \<le> c" "c \<le> 1" unfolding c_def e_def by simp_all
  have "of_int m / 1000 * (1 - 1 / 2 ^ 22) \<le> of_int m / 1000 * c"
    using c(1) assms(5) by (intro mult_left_mono) auto
  also have "\<dots> = M * e * e * e + c" by (simp add: M_def c_def algebra_simps)
  finally show "of_int m / 1000 * (1 - 1 / 2 ^ 22) \<le> mean32 s x + 1" using l c(2) by linarith
qed

text \<open>Back to nanoseconds.\<close>

lemma smoothRTT_bounds:
  assumes "0 \<le> rtt_smoothedRTT r" "rtt_smoothedRTT r \<le> 2 ^ 62" "0 \<le> x" "x \<le> 2 ^ 62"
  shows "smoothRTT x r * 2 ^ 22 \<le> max (rtt_smoothedRTT r) x * (2 ^ 22 + 1)"
    "min (rtt_smoothedRTT r) x * (2 ^ 22 - 1) \<le> (smoothRTT x r + 2000) * 2 ^ 22" "0 \<le> smoothRTT x r"
proof -
  define s where "s = rtt_smoothedRTT r"
  define y where "y = mean32 s x"
  define f where "f = \<lfloor>y\<rfloor>"
  have u: "y \<le> of_int (max s x) / 1000 * (1 + 1 / 2 ^ 22)"
    unfolding y_def using assms by (intro mean32_upper) (auto simp: s_def)
  have y0: "0 \<le> y" and l: "of_int (min s x) / 1000 * (1 - 1 / 2 ^ 22) \<le> y + 1"
    unfolding y_def using mean32_lower [of s x "min s x"] assms by (auto simp: s_def)
  have f: "0 \<le> f" "of_int f \<le> y" "y < of_int f + 1" using y0 floor_correct [of y] by (simp_all add: f_def)
  have "(of_int (f * 1000 * 2 ^ 22) :: rat) \<le> of_int (max s x * (2 ^ 22 + 1))"
    using order_trans [OF f(2) u] by simp
  then have up: "f * 1000 * 2 ^ 22 \<le> max s x * (2 ^ 22 + 1)" by (simp only: of_int_le_iff)
  have "(of_int (min s x * (2 ^ 22 - 1)) :: rat) \<le> of_int ((f * 1000 + 2000) * 2 ^ 22)"
    using l f(3) by simp
  then have lo: "min s x * (2 ^ 22 - 1) \<le> (f * 1000 + 2000) * 2 ^ 22" by (simp only: of_int_le_iff)
  have "max s x \<le> 2 ^ 62" using assms by (simp add: s_def)
  then have "f * 1000 < 2 ^ 63" using up by (simp del: max.bounded_iff)
  then have "i64 (f * 1000) = f * 1000" using f(1) by (intro i64_id) simp_all
  moreover have "smoothRTT x r = i64 (f * 1000)"
    using y0 by (simp add: smoothRTT_def from_us32_def to_int64_def f_def y_def mean32_def s_def)
  ultimately have "smoothRTT x r = f * 1000" by simp
  then show "smoothRTT x r * 2 ^ 22 \<le> max (rtt_smoothedRTT r) x * (2 ^ 22 + 1)"
    "min (rtt_smoothedRTT r) x * (2 ^ 22 - 1) \<le> (smoothRTT x r + 2000) * 2 ^ 22" "0 \<le> smoothRTT x r"
    using up lo f(1) by (simp_all add: s_def)
qed

lemma windows_keep [simp]:
  "rtt_smoothedRTT (updateRecentMinRTT sample now r) = rtt_smoothedRTT r"
  "rtt_minRTT (updateRecentMinRTT sample now r) = rtt_minRTT r"
  by (simp_all add: updateRecentMinRTT_def expireWindows_def updateWindows_def sampleNewMin_def Let_def)

text \<open>A sample that is used, field by field.\<close>

definition rtt_sample :: "int \<Rightarrow> int \<Rightarrow> int" where
  "rtt_sample sendDelta ackDelay = (if ackDelay < sendDelta then i64 (sendDelta - ackDelay) else sendDelta)"

lemma smoothRTT_cong: "rtt_smoothedRTT r = rtt_smoothedRTT r' \<Longrightarrow> smoothRTT x r = smoothRTT x r'"
  by (simp add: smoothRTT_def)

lemma UpdateRTT_fields:
  fixes r :: RTTStats and ackDelay :: int
  assumes "sendDelta \<noteq> InfDuration" "0 < sendDelta"
  defines "r1 \<equiv> r\<lparr>rtt_minRTT := (if rtt_minRTT r = 0 \<or> rtt_minRTT r > sendDelta then sendDelta else rtt_minRTT r)\<rparr>"
    and "x \<equiv> rtt_sample sendDelta ackDelay"
  obtains d where "UpdateRTT sendDelta ackDelay now r = (updateRecentMinRTT sendDelta now r1)
    \<lparr>rtt_latestRTT := x, rtt_meanDeviation := d,
     rtt_smoothedRTT := (if rtt_smoothedRTT r = 0 then x else smoothRTT x r)\<rparr>"
    "rtt_smoothedRTT r = 0 \<Longrightarrow> d = quot x 2"
proof -
  have r1: "(if rtt_minRTT r = 0 \<or> rtt_minRTT r > sendDelta then r\<lparr>rtt_minRTT := sendDelta\<rparr> else r) = r1"
    by (simp add: r1_def)
  have x: "(if sendDelta > ackDelay then i64 (sendDelta - ackDelay) else sendDelta) = x"
    by (simp add: x_def rtt_sample_def)
  define r2 where "r2 = updateRecentMinRTT sendDelta now r1"
  have r2: "rtt_smoothedRTT r2 = rtt_smoothedRTT r" by (simp add: r2_def r1_def)
  have s: "smoothRTT x (r2\<lparr>rtt_latestRTT := x, rtt_meanDeviation := d\<rparr>) = smoothRTT x r" for d
    by (rule smoothRTT_cong) (simp add: r2)
  have r1_smoothed: "rtt_smoothedRTT r1 = rtt_smoothedRTT r" by (simp add: r1_def)
  have eq: "UpdateRTT sendDelta ackDelay now r =
    (if rtt_smoothedRTT r = 0 then r2\<lparr>rtt_latestRTT := x, rtt_smoothedRTT := x, rtt_meanDeviation := quot x 2\<rparr>
     else r2\<lparr>rtt_latestRTT := x, rtt_meanDeviation := smoothDeviation x (r2\<lparr>rtt_latestRTT := x\<rparr>),
             rtt_smoothedRTT := smoothRTT x r\<rparr>)"
    using assms(1,2) by (simp add: UpdateRTT_def Let_def r1 x s r2 r1_smoothed flip: r2_def)
  show thesis
    by (rule that [of "if rtt_smoothedRTT r = 0 then quot x 2 else smoothDeviation x (r2\<lparr>rtt_latestRTT := x\<rparr>)"])
      (auto simp: eq r2_def)
qed

text \<open>
  C30: The smoothed round trip time is an average. A sample that is used is the measured time, reduced by the delay the
  peer reports unless nothing would be left of it. The first sample becomes the smoothed time; from then on the new
  smoothed time lies between the old one and the sample, up to the rounding of the 32-bit floating point
  numbers (one part in \<open>2 ^ 22\<close>) and of the conversions to microseconds (two microseconds).
\<close>

theorem smoothed_rtt_is_average:
  assumes "0 < sendDelta" "sendDelta \<le> 2 ^ 62" "0 \<le> ackDelay"
    and "0 \<le> SmoothedRTT r" "SmoothedRTT r \<le> 2 ^ 62"
  shows "let r' = UpdateRTT sendDelta ackDelay now r; x = LatestRTT r' in
    x = (if ackDelay < sendDelta then sendDelta - ackDelay else sendDelta)
    \<and> (SmoothedRTT r = 0 \<longrightarrow> SmoothedRTT r' = x \<and> MeanDeviation r' = x div 2)
    \<and> (SmoothedRTT r \<noteq> 0 \<longrightarrow>
         SmoothedRTT r' * 2 ^ 22 \<le> max (SmoothedRTT r) x * (2 ^ 22 + 1)
         \<and> min (SmoothedRTT r) x * (2 ^ 22 - 1) \<le> (SmoothedRTT r' + 2000) * 2 ^ 22)"
proof -
  define x where "x = rtt_sample sendDelta ackDelay"
  have x: "0 < x" "x \<le> 2 ^ 62" "x = (if ackDelay < sendDelta then sendDelta - ackDelay else sendDelta)"
    using assms by (auto simp: x_def rtt_sample_def i64_id)
  have ok: "sendDelta \<noteq> InfDuration" using assms(2) by (auto simp: InfDuration_def)
  obtain d r1 where u: "UpdateRTT sendDelta ackDelay now r = r1
      \<lparr>rtt_latestRTT := x, rtt_meanDeviation := d,
       rtt_smoothedRTT := (if rtt_smoothedRTT r = 0 then x else smoothRTT x r)\<rparr>"
    and d: "rtt_smoothedRTT r = 0 \<Longrightarrow> d = quot x 2"
    using UpdateRTT_fields [where r = r and now = now and ackDelay = ackDelay, OF ok assms(1)] unfolding x_def by blast
  show ?thesis
    unfolding u Let_def using smoothRTT_bounds [of r x] assms x d
    by (simp add: SmoothedRTT_def LatestRTT_def MeanDeviation_def quot_nonneg)
qed

theorem smoothed_rtt_is_average_witness:
  "let r = NewRTTStats\<lparr>rtt_smoothedRTT := 100000000\<rparr>; r' = UpdateRTT 200000000 20000000 0 r in
   LatestRTT r' = 180000000 \<and> SmoothedRTT r' * 2 ^ 22 \<le> 180000000 * (2 ^ 22 + 1)
   \<and> 100000000 * (2 ^ 22 - 1) \<le> (SmoothedRTT r' + 2000) * 2 ^ 22"
proof -
  define r where "r = NewRTTStats\<lparr>rtt_smoothedRTT := 100000000\<rparr>"
  define r' where "r' = UpdateRTT 200000000 20000000 0 r"
  have r: "SmoothedRTT r = 100000000" by (simp add: r_def SmoothedRTT_def)
  have "LatestRTT r' = 180000000 \<and> SmoothedRTT r' * 2 ^ 22 \<le> max (SmoothedRTT r) (LatestRTT r') * (2 ^ 22 + 1)
    \<and> min (SmoothedRTT r) (LatestRTT r') * (2 ^ 22 - 1) \<le> (SmoothedRTT r' + 2000) * 2 ^ 22"
    using smoothed_rtt_is_average [of 200000000 20000000 r 0] unfolding Let_def r'_def [symmetric] r by auto
  then show ?thesis using r unfolding Let_def r'_def r_def by (elim conjE) simp
qed

section \<open>The minima over the sample windows\<close>

text \<open>
  The states of the statistics together with the measured times since the start or the last migration, the most
  recent one first.
\<close>

inductive rtt_reachable :: "RTTStats \<Rightarrow> int list \<Rightarrow> bool" where
  start: "rtt_reachable NewRTTStats []"
| update: "rtt_reachable r xs \<Longrightarrow> 0 < d \<Longrightarrow> d \<noteq> InfDuration \<Longrightarrow> rtt_reachable (UpdateRTT d ackDelay now r) (d # xs)"
| ignored: "rtt_reachable r xs \<Longrightarrow> d \<le> 0 \<or> d = InfDuration \<Longrightarrow> rtt_reachable (UpdateRTT d ackDelay now r) xs"
| sampleNew: "rtt_reachable r xs \<Longrightarrow> rtt_reachable (SampleNewRecentMinRTT n r) xs"
| window: "rtt_reachable r xs \<Longrightarrow> rtt_reachable (SetRecentMinRTTwindow w r) xs"
| expire: "rtt_reachable r xs \<Longrightarrow> rtt_reachable (ExpireSmoothedMetrics r) xs"
| session: "rtt_reachable r xs \<Longrightarrow> rtt_reachable (UpdateSessionRTT d r) xs"
| migrate: "rtt_reachable r xs \<Longrightarrow> rtt_reachable (RTTStats_OnConnectionMigration r) []"

definition windows_ok :: "int set \<Rightarrow> RTTStats \<Rightarrow> bool" where
  "windows_ok X r \<longleftrightarrow>
     {RecentMinRTT r, GetHalfWindowRTT r, GetQuarterWindowRTT r} \<subseteq> X
     \<and> RecentMinRTT r \<le> GetHalfWindowRTT r \<and> GetHalfWindowRTT r \<le> GetQuarterWindowRTT r"

definition rtt_inv :: "RTTStats \<Rightarrow> int list \<Rightarrow> bool" where
  "rtt_inv r xs \<longleftrightarrow>
     (\<forall>x\<in>set xs. 0 < x)
     \<and> MinRTT r = (if xs = [] then 0 else Min (set xs))
     \<and> (if xs = [] then RecentMinRTT r = 0 else windows_ok (set xs) r)
     \<and> (0 < rtt_numMinRTTsamplesRemaining r \<longrightarrow> rs_rtt (rtt_newMinRTT r) = 0 \<or> rs_rtt (rtt_newMinRTT r) \<in> set xs)"

lemmas window_simps = RecentMinRTT_def GetHalfWindowRTT_def GetQuarterWindowRTT_def

lemma sampleNewMin_ok:
  assumes "RecentMinRTT r = 0 \<or> windows_ok X r" "d \<in> X"
    and "0 < rtt_numMinRTTsamplesRemaining r \<longrightarrow> rs_rtt (rtt_newMinRTT r) = 0 \<or> rs_rtt (rtt_newMinRTT r) \<in> X"
  shows "RecentMinRTT (sampleNewMin d now r) = 0 \<or> windows_ok X (sampleNewMin d now r)"
    "0 < rtt_numMinRTTsamplesRemaining (sampleNewMin d now r) \<longrightarrow>
      rs_rtt (rtt_newMinRTT (sampleNewMin d now r)) = 0 \<or> rs_rtt (rtt_newMinRTT (sampleNewMin d now r)) \<in> X"
  using assms by (auto simp: sampleNewMin_def windows_ok_def window_simps Let_def)

lemma updateWindows_ok:
  assumes "RecentMinRTT r = 0 \<or> windows_ok X r" "rs_rtt s \<in> X"
  shows "windows_ok X (updateWindows s r) \<and> GetQuarterWindowRTT (updateWindows s r) \<le> rs_rtt s"
  using assms by (auto simp: updateWindows_def windows_ok_def window_simps)

lemma expireWindows_ok:
  assumes "windows_ok X r" "GetQuarterWindowRTT r \<le> rs_rtt s" "rs_rtt s \<in> X"
  shows "windows_ok X (expireWindows s r)"
  using assms by (auto simp: expireWindows_def windows_ok_def window_simps Let_def)

lemma windows_keep_new [simp]:
  "rtt_newMinRTT (expireWindows s r) = rtt_newMinRTT r" "rtt_newMinRTT (updateWindows s r) = rtt_newMinRTT r"
  "rtt_numMinRTTsamplesRemaining (expireWindows s r) = rtt_numMinRTTsamplesRemaining r"
  "rtt_numMinRTTsamplesRemaining (updateWindows s r) = rtt_numMinRTTsamplesRemaining r"
  by (simp_all add: expireWindows_def updateWindows_def Let_def)

lemma UpdateRTT_inv:
  assumes inv: "rtt_inv r xs" and d: "0 < d" "d \<noteq> InfDuration"
  shows "rtt_inv (UpdateRTT d ackDelay now r) (d # xs)"
proof -
  define r1 where "r1 = r\<lparr>rtt_minRTT := (if rtt_minRTT r = 0 \<or> rtt_minRTT r > d then d else rtt_minRTT r)\<rparr>"
  define s where "s = \<lparr>rs_rtt = d, rs_time = now\<rparr>"
  define r2 where "r2 = sampleNewMin d now r1"
  define X where "X = set (d # xs)"
  have pre: "RecentMinRTT r1 = 0 \<or> windows_ok X r1"
    "0 < rtt_numMinRTTsamplesRemaining r1 \<longrightarrow> rs_rtt (rtt_newMinRTT r1) = 0 \<or> rs_rtt (rtt_newMinRTT r1) \<in> X"
    using inv by (auto simp: rtt_inv_def windows_ok_def window_simps r1_def X_def split: if_splits)
  have dX: "d \<in> X" "rs_rtt s \<in> X" by (simp_all add: X_def s_def)
  note r2 = sampleNewMin_ok [OF pre(1) dX(1) pre(2), of now, folded r2_def]
  note w = updateWindows_ok [OF r2(1) dX(2)]
  have u: "updateRecentMinRTT d now r1 = expireWindows s (updateWindows s r2)"
    by (simp add: updateRecentMinRTT_def s_def r2_def Let_def)
  obtain x e f where "UpdateRTT d ackDelay now r =
      (updateRecentMinRTT d now r1)\<lparr>rtt_latestRTT := x, rtt_meanDeviation := e, rtt_smoothedRTT := f\<rparr>"
    using UpdateRTT_fields [where r = r and now = now and ackDelay = ackDelay, OF d(2,1)] unfolding r1_def by blast
  then have eq: "UpdateRTT d ackDelay now r =
      (expireWindows s (updateWindows s r2))\<lparr>rtt_latestRTT := x, rtt_meanDeviation := e, rtt_smoothedRTT := f\<rparr>"
    by (simp add: u)
  have m: "rtt_minRTT (expireWindows s (updateWindows s r2)) = rtt_minRTT r1"
    using windows_keep(2) [of d now r1] by (simp add: u)
  have "rtt_minRTT r1 = Min (insert d (set xs))"
  proof (cases "xs = []")
    case False
    then have "0 < Min (set xs)" "rtt_minRTT r = Min (set xs)" using inv by (simp_all add: rtt_inv_def MinRTT_def)
    then have "rtt_minRTT r1 = min d (Min (set xs))" unfolding r1_def by (simp del: Min_gr_iff)
    then show ?thesis using False by simp
  qed (use inv in \<open>simp add: rtt_inv_def r1_def MinRTT_def\<close>)
  moreover have "windows_ok X (UpdateRTT d ackDelay now r)"
    using expireWindows_ok [of X "updateWindows s r2" s] w dX by (simp add: eq windows_ok_def window_simps)
  ultimately show ?thesis
    using r2(2) inv d by (auto simp: rtt_inv_def MinRTT_def eq m X_def)
qed

lemma rtt_reachable_inv: "rtt_reachable r xs \<Longrightarrow> rtt_inv r xs"
proof (induction rule: rtt_reachable.induct)
  case (update r xs d ackDelay now)
  then show ?case by (simp add: UpdateRTT_inv)
next
  case (ignored r xs d ackDelay now)
  then have "UpdateRTT d ackDelay now r = r" by (auto simp: UpdateRTT_def)
  then show ?case using ignored by simp
qed (auto simp: rtt_inv_def windows_ok_def window_simps MinRTT_def NewRTTStats_def SampleNewRecentMinRTT_def
    SetRecentMinRTTwindow_def ExpireSmoothedMetrics_def UpdateSessionRTT_def RTTStats_OnConnectionMigration_def Let_def
    split: if_splits)

text \<open>
  C31: The minima of the round trip time. Whatever measurements, changes of the window and requests for a new minimum
  happen since the start or the last migration: once there is a measurement, \<^verbatim>\<open>MinRTT\<close> is the least one; the minima over
  the whole window, its last half and its last quarter are measurements, and the shorter the window the larger
  they are.
\<close>

theorem rtt_minima_ordered:
  assumes "rtt_reachable r xs" "xs \<noteq> []"
  shows "MinRTT r = Min (set xs)
    \<and> {RecentMinRTT r, GetHalfWindowRTT r, GetQuarterWindowRTT r} \<subseteq> set xs
    \<and> MinRTT r \<le> RecentMinRTT r \<and> RecentMinRTT r \<le> GetHalfWindowRTT r
    \<and> GetHalfWindowRTT r \<le> GetQuarterWindowRTT r"
  using rtt_reachable_inv [OF assms(1)] assms(2) by (auto simp: rtt_inv_def windows_ok_def)

theorem rtt_minima_ordered_witness:
  "let r = UpdateRTT 300 0 2 (UpdateRTT 200 0 1 NewRTTStats) in
   MinRTT r = 200 \<and> 200 \<le> RecentMinRTT r \<and> RecentMinRTT r \<le> GetQuarterWindowRTT r"
proof -
  have "rtt_reachable (UpdateRTT 300 0 2 (UpdateRTT 200 0 1 NewRTTStats)) [300, 200]"
    by (intro rtt_reachable.intros) (simp_all add: InfDuration_def)
  then show ?thesis using rtt_minima_ordered by fastforce
qed

end
