(* ===== verification/Cubic.thy ===== *)
theory Cubic
  imports Congestion
begin

text \<open>
  The congestion controller, package \<^verbatim>\<open>congestion\<close>: the interface \<^verbatim>\<open>SendAlgorithm\<close> (\<^verbatim>\<open>interface.go\<close>), the cubic function
  (\<^verbatim>\<open>cubic.go\<close>) and the sender that uses it (\<^verbatim>\<open>cubic_sender.go\<close>). The clock is an argument, and so are the
  statistics of the round trip time, which the sender reads through a pointer it shares with the handler of sent
  packets.
\<close>

section \<open>The interface\<close>

text \<open>The methods the handler of sent packets calls, over the state of the controller.\<close>

record 'c SendAlgorithm =
  sa_OnPacketSent :: "int \<Rightarrow> ByteCount \<Rightarrow> PacketNumber \<Rightarrow> ByteCount \<Rightarrow> bool \<Rightarrow> 'c \<Rightarrow> 'c"
  sa_GetCongestionWindow :: "'c \<Rightarrow> ByteCount"
  sa_MaybeExitSlowStart :: "RTTStats \<Rightarrow> 'c \<Rightarrow> 'c"
  sa_OnPacketAcked :: "RTTStats \<Rightarrow> int \<Rightarrow> PacketNumber \<Rightarrow> ByteCount \<Rightarrow> ByteCount \<Rightarrow> 'c \<Rightarrow> 'c"
  sa_OnPacketLost :: "PacketNumber \<Rightarrow> ByteCount \<Rightarrow> ByteCount \<Rightarrow> 'c \<Rightarrow> 'c"
  sa_OnRetransmissionTimeout :: "bool \<Rightarrow> 'c \<Rightarrow> 'c"
  sa_RetransmissionDelay :: "RTTStats \<Rightarrow> 'c \<Rightarrow> int"
  sa_SmoothedRTT :: "RTTStats \<Rightarrow> 'c \<Rightarrow> int"
  sa_GetSlowStartThreshold :: "'c \<Rightarrow> ByteCount"

section \<open>The cubic function\<close>

definition cubeScale :: nat where "cubeScale = 40"
definition cubeCongestionWindowScale :: int where "cubeCongestionWindowScale = 410"
definition cubeFactor :: PacketNumber where "cubeFactor = word_of_int (push_bit cubeScale 1 div cubeCongestionWindowScale)"
definition defaultNumConnections :: int where "defaultNumConnections = 2"
definition cubic_beta :: rat where "cubic_beta = f32 (7 / 10)"
definition betaLastMax :: rat where "betaLastMax = f32 (85 / 100)"
definition shiftQuicCubicEpochWhenAppLimited :: bool where "shiftQuicCubicEpochWhenAppLimited = True"
definition maxCubicTimeInterval :: int where "maxCubicTimeInterval = 30 * 1000000"

record Cubic =
  cu_numConnections :: int
  cu_epoch :: int
  cu_appLimitedStartTime :: int
  cu_lastUpdateTime :: int
  cu_lastCongestionWindow :: PacketNumber
  cu_lastMaxCongestionWindow :: PacketNumber
  cu_ackedPacketsCount :: PacketNumber
  cu_estimatedTCPcongestionWindow :: PacketNumber
  cu_originPointCongestionWindow :: PacketNumber
  cu_timeToOriginPoint :: u32
  cu_lastTargetCongestionWindow :: PacketNumber

definition Cubic_Reset :: "Cubic \<Rightarrow> Cubic" where
  "Cubic_Reset c =
     c\<lparr>cu_epoch := 0, cu_appLimitedStartTime := 0, cu_lastUpdateTime := 0, cu_lastCongestionWindow := 0,
       cu_lastMaxCongestionWindow := 0, cu_ackedPacketsCount := 0, cu_estimatedTCPcongestionWindow := 0,
       cu_originPointCongestionWindow := 0, cu_timeToOriginPoint := 0, cu_lastTargetCongestionWindow := 0\<rparr>"

definition NewCubic :: Cubic where
  "NewCubic = Cubic_Reset \<lparr>cu_numConnections = defaultNumConnections, cu_epoch = 0, cu_appLimitedStartTime = 0,
     cu_lastUpdateTime = 0, cu_lastCongestionWindow = 0, cu_lastMaxCongestionWindow = 0, cu_ackedPacketsCount = 0,
     cu_estimatedTCPcongestionWindow = 0, cu_originPointCongestionWindow = 0, cu_timeToOriginPoint = 0,
     cu_lastTargetCongestionWindow = 0\<rparr>"

text \<open>The backoff factor for \<open>n\<close> connections; \<^verbatim>\<open>RenoBeta\<close> of the senders is the same expression.\<close>

definition nConnectionBeta :: "int \<Rightarrow> rat" where
  "nConnectionBeta n = f32 (f32 (f32 (f32 (of_int n) - 1) + cubic_beta) / f32 (of_int n))"

definition Cubic_beta :: "Cubic \<Rightarrow> rat" where
  "Cubic_beta c = nConnectionBeta (cu_numConnections c)"

definition Cubic_alpha :: "Cubic \<Rightarrow> rat" where
  "Cubic_alpha c =
     (let b = Cubic_beta c; n = f32 (of_int (cu_numConnections c))
      in f32 (f32 (f32 (f32 (3 * n) * n) * f32 (1 - b)) / f32 (1 + b)))"

definition OnApplicationLimited :: "int \<Rightarrow> Cubic \<Rightarrow> Cubic" where
  "OnApplicationLimited now c =
     (if shiftQuicCubicEpochWhenAppLimited
      then if cu_appLimitedStartTime c = 0 then c\<lparr>cu_appLimitedStartTime := now\<rparr> else c
      else c\<lparr>cu_epoch := 0\<rparr>)"

text \<open>A product of a window and a factor, as a \<^verbatim>\<open>float32\<close>, converted to a window.\<close>

definition scaleWindow :: "PacketNumber \<Rightarrow> rat \<Rightarrow> PacketNumber" where
  "scaleWindow w b = word_of_int (to_int64 (f32 (f32 (of_int (uint w)) * b)))"

definition CongestionWindowAfterPacketLoss :: "PacketNumber \<Rightarrow> Cubic \<Rightarrow> PacketNumber \<times> Cubic" where
  "CongestionWindowAfterPacketLoss currentCongestionWindow c =
     (let c1 = c\<lparr>cu_lastMaxCongestionWindow :=
                   (if currentCongestionWindow < cu_lastMaxCongestionWindow c
                    then scaleWindow currentCongestionWindow betaLastMax else currentCongestionWindow)\<rparr>;
          c2 = c1\<lparr>cu_epoch := 0\<rparr>
      in (scaleWindow currentCongestionWindow (Cubic_beta c2), c2))"

text \<open>
  The integer part of a cube root, bit by bit from bit \<open>i - 1\<close> down. \<^verbatim>\<open>math.Cbrt\<close> is accurate to one unit in the
  last place; the integer part of its result is taken to be exact.
\<close>

primrec cbrt_bits :: "nat \<Rightarrow> int \<Rightarrow> int \<Rightarrow> int" where
  "cbrt_bits 0 x k = k"
| "cbrt_bits (Suc i) x k = cbrt_bits i x (if (k + 2 ^ i) ^ 3 \<le> x then k + 2 ^ i else k)"

definition Cbrt :: "rat \<Rightarrow> int" where
  "Cbrt x = cbrt_bits 32 \<lfloor>x\<rfloor> 0"

text \<open>The start of an epoch, or its shift by the time the application sent too little.\<close>

definition startEpoch :: "int \<Rightarrow> PacketNumber \<Rightarrow> Cubic \<Rightarrow> Cubic" where
  "startEpoch currentTime currentCongestionWindow c =
     (if cu_epoch c = 0 then
        let c1 = c\<lparr>cu_epoch := currentTime, cu_ackedPacketsCount := 1,
                   cu_estimatedTCPcongestionWindow := currentCongestionWindow\<rparr> in
        if cu_lastMaxCongestionWindow c1 \<le> currentCongestionWindow
        then c1\<lparr>cu_timeToOriginPoint := 0, cu_originPointCongestionWindow := currentCongestionWindow\<rparr>
        else c1\<lparr>cu_timeToOriginPoint :=
                  word_of_int (Cbrt (f64 (of_int (uint (cubeFactor * (cu_lastMaxCongestionWindow c1 - currentCongestionWindow)))))),
                cu_originPointCongestionWindow := cu_lastMaxCongestionWindow c1\<rparr>
      else if shiftQuicCubicEpochWhenAppLimited \<and> cu_appLimitedStartTime c \<noteq> 0
      then c\<lparr>cu_epoch := cu_epoch c + timeSub currentTime (cu_appLimitedStartTime c), cu_appLimitedStartTime := 0\<rparr>
      else c)"

text \<open>The value of the cubic function; the arithmetic on \<^verbatim>\<open>int64\<close> wraps around.\<close>

definition cubicTarget :: "int \<Rightarrow> int \<Rightarrow> Cubic \<Rightarrow> PacketNumber" where
  "cubicTarget currentTime delayMin c =
     (let elapsedTime = quot (i64 (push_bit 10 (quot (timeSub (currentTime + delayMin) (cu_epoch c)) Microsecond))) 1000000;
          offset = i64 (int (unat (cu_timeToOriginPoint c)) - elapsedTime);
          offset' = (if offset < 0 then i64 (- offset) else offset);
          deltaCongestionWindow = word_of_int (drop_bit cubeScale
            (i64 (i64 (i64 (cubeCongestionWindowScale * offset') * offset') * offset')))
      in if elapsedTime > int (unat (cu_timeToOriginPoint c))
         then cu_originPointCongestionWindow c + deltaCongestionWindow
         else cu_originPointCongestionWindow c - deltaCongestionWindow)"

text \<open>
  The loop that estimates the window of TCP. The recursion is bounded by \<open>fuel\<close>; the bound the caller passes is
  enough, which is proved below.
\<close>

definition requiredAckCount :: "rat \<Rightarrow> PacketNumber \<Rightarrow> PacketNumber" where
  "requiredAckCount alpha est = word_of_int (to_int64 (f32 (f32 (of_int (uint est)) / alpha)))"

fun tcpWindow_loop :: "nat \<Rightarrow> rat \<Rightarrow> PacketNumber \<Rightarrow> PacketNumber \<Rightarrow> PacketNumber \<times> PacketNumber" where
  "tcpWindow_loop 0 alpha acked est = (acked, est)"
| "tcpWindow_loop (Suc fuel) alpha acked est =
     (if acked < requiredAckCount alpha est then (acked, est)
      else tcpWindow_loop fuel alpha (acked - requiredAckCount alpha est) (est + 1))"

definition CongestionWindowAfterAck :: "int \<Rightarrow> PacketNumber \<Rightarrow> int \<Rightarrow> Cubic \<Rightarrow> PacketNumber \<times> Cubic" where
  "CongestionWindowAfterAck currentTime currentCongestionWindow delayMin c =
     (let c1 = c\<lparr>cu_ackedPacketsCount := cu_ackedPacketsCount c + 1\<rparr> in
      if cu_lastCongestionWindow c1 = currentCongestionWindow
         \<and> timeSub currentTime (cu_lastUpdateTime c1) \<le> maxCubicTimeInterval
      then (MaxPacketNumber (cu_lastTargetCongestionWindow c1) (cu_estimatedTCPcongestionWindow c1), c1)
      else
        let c2 = startEpoch currentTime currentCongestionWindow
                   (c1\<lparr>cu_lastCongestionWindow := currentCongestionWindow, cu_lastUpdateTime := currentTime\<rparr>);
            target = cubicTarget currentTime delayMin c2;
            (acked, est) = tcpWindow_loop (unat (cu_ackedPacketsCount c2) + 2) (Cubic_alpha c2)
                             (cu_ackedPacketsCount c2) (cu_estimatedTCPcongestionWindow c2);
            c3 = c2\<lparr>cu_ackedPacketsCount := acked, cu_estimatedTCPcongestionWindow := est,
                    cu_lastTargetCongestionWindow := target\<rparr>
        in (if target < est then est else target, c3))"

definition SetNumConnections :: "int \<Rightarrow> Cubic \<Rightarrow> Cubic" where
  "SetNumConnections n c = c\<lparr>cu_numConnections := n\<rparr>"

section \<open>The sender\<close>

definition maxBurstBytes :: ByteCount where "maxBurstBytes = 3 * DefaultTCPMSS"
definition defaultMinimumCongestionWindow :: PacketNumber where "defaultMinimumCongestionWindow = 2"
definition renoBeta :: rat where "renoBeta = f32 (7 / 10)"

record connectionStats =
  cs_slowstartPacketsLost :: PacketNumber
  cs_slowstartBytesLost :: ByteCount

record cubicSender =
  cb_hybridSlowStart :: HybridSlowStart
  cb_prr :: PrrSender
  cb_stats :: connectionStats
  cb_cubic :: Cubic
  cb_reno :: bool
  cb_largestSentPacketNumber :: PacketNumber
  cb_largestAckedPacketNumber :: PacketNumber
  cb_largestSentAtLastCutback :: PacketNumber
  cb_congestionWindow :: PacketNumber
  cb_slowstartThreshold :: PacketNumber
  cb_lastCutbackExitedSlowstart :: bool
  cb_slowStartLargeReduction :: bool
  cb_minCongestionWindow :: PacketNumber
  cb_maxTCPCongestionWindow :: PacketNumber
  cb_numConnections :: int
  cb_congestionWindowCount :: ByteCount
  cb_initialCongestionWindow :: PacketNumber
  cb_initialMaxCongestionWindow :: PacketNumber

abbreviation newHybridSlowStart :: HybridSlowStart where
  "newHybridSlowStart \<equiv> \<lparr>hss_endPacketNumber = 0, hss_lastSentPacketNumber = 0, hss_started = False,
     hss_currentMinRTT = 0, hss_rttSampleCount = 0, hss_hystartFound = False\<rparr>"

abbreviation newPrrSender :: PrrSender where
  "newPrrSender \<equiv> \<lparr>prr_bytesSentSinceLoss = 0, prr_bytesDeliveredSinceLoss = 0, prr_ackCountSinceLoss = 0,
     prr_bytesInFlightBeforeLoss = 0\<rparr>"

definition NewCubicSender :: "bool \<Rightarrow> PacketNumber \<Rightarrow> PacketNumber \<Rightarrow> cubicSender" where
  "NewCubicSender reno initialCongestionWindow initialMaxCongestionWindow =
     \<lparr>cb_hybridSlowStart = newHybridSlowStart, cb_prr = newPrrSender,
      cb_stats = \<lparr>cs_slowstartPacketsLost = 0, cs_slowstartBytesLost = 0\<rparr>, cb_cubic = NewCubic, cb_reno = reno,
      cb_largestSentPacketNumber = 0, cb_largestAckedPacketNumber = 0, cb_largestSentAtLastCutback = 0,
      cb_congestionWindow = initialCongestionWindow, cb_slowstartThreshold = initialMaxCongestionWindow,
      cb_lastCutbackExitedSlowstart = False, cb_slowStartLargeReduction = False,
      cb_minCongestionWindow = defaultMinimumCongestionWindow, cb_maxTCPCongestionWindow = initialMaxCongestionWindow,
      cb_numConnections = defaultNumConnections, cb_congestionWindowCount = 0,
      cb_initialCongestionWindow = initialCongestionWindow, cb_initialMaxCongestionWindow = initialMaxCongestionWindow\<rparr>"

definition cubicSender_GetCongestionWindow :: "cubicSender \<Rightarrow> ByteCount" where
  "cubicSender_GetCongestionWindow c = cb_congestionWindow c * DefaultTCPMSS"

definition cubicSender_GetSlowStartThreshold :: "cubicSender \<Rightarrow> ByteCount" where
  "cubicSender_GetSlowStartThreshold c = cb_slowstartThreshold c * DefaultTCPMSS"

definition cubicSender_InRecovery :: "cubicSender \<Rightarrow> bool" where
  "cubicSender_InRecovery c \<longleftrightarrow>
     cb_largestAckedPacketNumber c \<le> cb_largestSentAtLastCutback c \<and> cb_largestAckedPacketNumber c \<noteq> 0"

definition cubicSender_InSlowStart :: "cubicSender \<Rightarrow> bool" where
  "cubicSender_InSlowStart c \<longleftrightarrow> cubicSender_GetCongestionWindow c < cubicSender_GetSlowStartThreshold c"

definition cubicSender_TimeUntilSend :: "ByteCount \<Rightarrow> cubicSender \<Rightarrow> int" where
  "cubicSender_TimeUntilSend bytesInFlight c =
     (if cubicSender_InRecovery c
      then PrrSender_TimeUntilSend (cubicSender_GetCongestionWindow c) bytesInFlight (cubicSender_GetSlowStartThreshold c) (cb_prr c)
      else if cubicSender_GetCongestionWindow c > bytesInFlight then 0
      else InfDuration)"

definition cubicSender_OnPacketSent :: "PacketNumber \<Rightarrow> ByteCount \<Rightarrow> bool \<Rightarrow> cubicSender \<Rightarrow> bool \<times> cubicSender" where
  "cubicSender_OnPacketSent packetNumber bytes isRetransmittable c =
     (if \<not> isRetransmittable then (False, c)
      else
        let c1 = (if cubicSender_InRecovery c then c\<lparr>cb_prr := PrrSender_OnPacketSent bytes (cb_prr c)\<rparr> else c)
        in (True, c1\<lparr>cb_largestSentPacketNumber := packetNumber,
                     cb_hybridSlowStart := HybridSlowStart_OnPacketSent packetNumber (cb_hybridSlowStart c1)\<rparr>))"

definition cubicSender_ExitSlowstart :: "cubicSender \<Rightarrow> cubicSender" where
  "cubicSender_ExitSlowstart c = c\<lparr>cb_slowstartThreshold := cb_congestionWindow c\<rparr>"

definition cubicSender_SlowstartThreshold :: "cubicSender \<Rightarrow> PacketNumber" where
  "cubicSender_SlowstartThreshold c = cb_slowstartThreshold c"

definition cubicSender_MaybeExitSlowStart :: "RTTStats \<Rightarrow> cubicSender \<Rightarrow> cubicSender" where
  "cubicSender_MaybeExitSlowStart r c =
     (if cubicSender_InSlowStart c then
        let (exit, hss) = ShouldExitSlowStart (LatestRTT r) (MinRTT r) (cubicSender_GetCongestionWindow c div DefaultTCPMSS)
                            (cb_hybridSlowStart c);
            c1 = c\<lparr>cb_hybridSlowStart := hss\<rparr>
        in if exit then cubicSender_ExitSlowstart c1 else c1
      else c)"

definition cubicSender_isCwndLimited :: "ByteCount \<Rightarrow> cubicSender \<Rightarrow> bool" where
  "cubicSender_isCwndLimited bytesInFlight c =
     (let congestionWindow = cubicSender_GetCongestionWindow c in
      if bytesInFlight \<ge> congestionWindow then True
      else
        let availableBytes = congestionWindow - bytesInFlight;
            slowStartLimited = (cubicSender_InSlowStart c \<and> bytesInFlight > congestionWindow div 2)
        in slowStartLimited \<or> availableBytes \<le> maxBurstBytes)"

definition cubicSender_maybeIncreaseCwnd :: "RTTStats \<Rightarrow> int \<Rightarrow> ByteCount \<Rightarrow> cubicSender \<Rightarrow> cubicSender" where
  "cubicSender_maybeIncreaseCwnd r now bytesInFlight c =
     (if \<not> cubicSender_isCwndLimited bytesInFlight c then c\<lparr>cb_cubic := OnApplicationLimited now (cb_cubic c)\<rparr>
      else if cb_congestionWindow c \<ge> cb_maxTCPCongestionWindow c then c
      else if cubicSender_InSlowStart c then c\<lparr>cb_congestionWindow := cb_congestionWindow c + 1\<rparr>
      else if cb_reno c then
        let c1 = c\<lparr>cb_congestionWindowCount := cb_congestionWindowCount c + 1\<rparr> in
        if cb_congestionWindowCount c1 * word_of_int (cb_numConnections c1) \<ge> cb_congestionWindow c1
        then c1\<lparr>cb_congestionWindow := cb_congestionWindow c1 + 1, cb_congestionWindowCount := 0\<rparr>
        else c1
      else
        let (w, cubic) = CongestionWindowAfterAck now (cb_congestionWindow c) (MinRTT r) (cb_cubic c)
        in c\<lparr>cb_congestionWindow := MinPacketNumber (cb_maxTCPCongestionWindow c) w, cb_cubic := cubic\<rparr>)"

definition cubicSender_OnPacketAcked :: "RTTStats \<Rightarrow> int \<Rightarrow> PacketNumber \<Rightarrow> ByteCount \<Rightarrow> ByteCount \<Rightarrow> cubicSender \<Rightarrow> cubicSender" where
  "cubicSender_OnPacketAcked r now ackedPacketNumber ackedBytes bytesInFlight c =
     (let c1 = c\<lparr>cb_largestAckedPacketNumber := MaxPacketNumber ackedPacketNumber (cb_largestAckedPacketNumber c)\<rparr> in
      if cubicSender_InRecovery c1 then c1\<lparr>cb_prr := PrrSender_OnPacketAcked ackedBytes (cb_prr c1)\<rparr>
      else
        let c2 = cubicSender_maybeIncreaseCwnd r now bytesInFlight c1
        in if cubicSender_InSlowStart c2
           then c2\<lparr>cb_hybridSlowStart := HybridSlowStart_OnPacketAcked ackedPacketNumber (cb_hybridSlowStart c2)\<rparr>
           else c2)"

definition cubicSender_RenoBeta :: "cubicSender \<Rightarrow> rat" where
  "cubicSender_RenoBeta c =
     f32 (f32 (f32 (f32 (of_int (cb_numConnections c)) - 1) + renoBeta) / f32 (of_int (cb_numConnections c)))"

text \<open>A loss of a packet that was sent before the last cutback.\<close>

definition lossBeforeCutback :: "ByteCount \<Rightarrow> cubicSender \<Rightarrow> cubicSender" where
  "lossBeforeCutback lostBytes c =
     (if cb_lastCutbackExitedSlowstart c then
        let s = cb_stats c;
            s1 = s\<lparr>cs_slowstartPacketsLost := cs_slowstartPacketsLost s + 1,
                   cs_slowstartBytesLost := cs_slowstartBytesLost s + lostBytes\<rparr>;
            c1 = c\<lparr>cb_stats := s1\<rparr>
        in if cb_slowStartLargeReduction c1 then
             let c2 = (if cs_slowstartPacketsLost s1 = 1
                          \<or> cs_slowstartBytesLost s1 div DefaultTCPMSS > (cs_slowstartBytesLost s1 - lostBytes) div DefaultTCPMSS
                       then c1\<lparr>cb_congestionWindow := MaxPacketNumber (cb_congestionWindow c1 - 1) (cb_minCongestionWindow c1)\<rparr>
                       else c1)
             in c2\<lparr>cb_slowstartThreshold := cb_congestionWindow c2\<rparr>
           else c1
      else c)"

text \<open>The cutback: the reduced window, before the minimum is enforced.\<close>

definition reduceWindow :: "cubicSender \<Rightarrow> cubicSender" where
  "reduceWindow c =
     (if cb_slowStartLargeReduction c \<and> cubicSender_InSlowStart c
      then c\<lparr>cb_congestionWindow := cb_congestionWindow c - 1\<rparr>
      else if cb_reno c then c\<lparr>cb_congestionWindow := scaleWindow (cb_congestionWindow c) (cubicSender_RenoBeta c)\<rparr>
      else
        let (w, cubic) = CongestionWindowAfterPacketLoss (cb_congestionWindow c) (cb_cubic c)
        in c\<lparr>cb_congestionWindow := w, cb_cubic := cubic\<rparr>)"

definition cubicSender_OnPacketLost :: "PacketNumber \<Rightarrow> ByteCount \<Rightarrow> ByteCount \<Rightarrow> cubicSender \<Rightarrow> cubicSender" where
  "cubicSender_OnPacketLost packetNumber lostBytes bytesInFlight c =
     (if packetNumber \<le> cb_largestSentAtLastCutback c then lossBeforeCutback lostBytes c
      else
        let c1 = c\<lparr>cb_lastCutbackExitedSlowstart := cubicSender_InSlowStart c\<rparr>;
            c2 = (if cubicSender_InSlowStart c1
                  then c1\<lparr>cb_stats := (cb_stats c1)\<lparr>cs_slowstartPacketsLost := cs_slowstartPacketsLost (cb_stats c1) + 1\<rparr>\<rparr>
                  else c1);
            c3 = c2\<lparr>cb_prr := PrrSender_OnPacketLost bytesInFlight (cb_prr c2)\<rparr>;
            c4 = reduceWindow c3;
            c5 = (if cb_congestionWindow c4 < cb_minCongestionWindow c4
                  then c4\<lparr>cb_congestionWindow := cb_minCongestionWindow c4\<rparr> else c4)
        in c5\<lparr>cb_slowstartThreshold := cb_congestionWindow c5,
              cb_largestSentAtLastCutback := cb_largestSentPacketNumber c5, cb_congestionWindowCount := 0\<rparr>)"

definition cubicSender_BandwidthEstimate :: "RTTStats \<Rightarrow> cubicSender \<Rightarrow> u64" where
  "cubicSender_BandwidthEstimate r c =
     (let srtt = SmoothedRTT r in if srtt = 0 then 0 else BandwidthFromDelta (cubicSender_GetCongestionWindow c) srtt)"

definition cubicSender_HybridSlowStart :: "cubicSender \<Rightarrow> HybridSlowStart" where
  "cubicSender_HybridSlowStart c = cb_hybridSlowStart c"

definition cubicSender_SetNumEmulatedConnections :: "int \<Rightarrow> cubicSender \<Rightarrow> cubicSender" where
  "cubicSender_SetNumEmulatedConnections n c =
     (let c1 = c\<lparr>cb_numConnections := Max_int n 1\<rparr>
      in c1\<lparr>cb_cubic := SetNumConnections (cb_numConnections c1) (cb_cubic c1)\<rparr>)"

definition cubicSender_OnRetransmissionTimeout :: "bool \<Rightarrow> cubicSender \<Rightarrow> cubicSender" where
  "cubicSender_OnRetransmissionTimeout packetsRetransmitted c =
     (let c1 = c\<lparr>cb_largestSentAtLastCutback := 0\<rparr> in
      if \<not> packetsRetransmitted then c1
      else c1\<lparr>cb_hybridSlowStart := Restart (cb_hybridSlowStart c1), cb_cubic := Cubic_Reset (cb_cubic c1),
              cb_slowstartThreshold := cb_congestionWindow c1 div 2, cb_congestionWindow := cb_minCongestionWindow c1\<rparr>)"

definition cubicSender_OnConnectionMigration :: "cubicSender \<Rightarrow> cubicSender" where
  "cubicSender_OnConnectionMigration c =
     c\<lparr>cb_hybridSlowStart := Restart (cb_hybridSlowStart c), cb_prr := newPrrSender, cb_largestSentPacketNumber := 0,
       cb_largestAckedPacketNumber := 0, cb_largestSentAtLastCutback := 0, cb_lastCutbackExitedSlowstart := False,
       cb_cubic := Cubic_Reset (cb_cubic c), cb_congestionWindowCount := 0,
       cb_congestionWindow := cb_initialCongestionWindow c, cb_slowstartThreshold := cb_initialMaxCongestionWindow c,
       cb_maxTCPCongestionWindow := cb_initialMaxCongestionWindow c\<rparr>"

definition cubicSender_SetSlowStartLargeReduction :: "bool \<Rightarrow> cubicSender \<Rightarrow> cubicSender" where
  "cubicSender_SetSlowStartLargeReduction enabled c = c\<lparr>cb_slowStartLargeReduction := enabled\<rparr>"

definition cubicSender_RetransmissionDelay :: "RTTStats \<Rightarrow> int" where
  "cubicSender_RetransmissionDelay r =
     (if SmoothedRTT r = 0 then 0 else i64 (SmoothedRTT r + i64 (MeanDeviation r * 4)))"

definition cubicSender_SmoothedRTT :: "RTTStats \<Rightarrow> int" where
  "cubicSender_SmoothedRTT r = SmoothedRTT r"

text \<open>The sender as a value of the interface.\<close>

definition cubicAlgorithm :: "cubicSender SendAlgorithm" where
  "cubicAlgorithm =
     \<lparr>sa_OnPacketSent = (\<lambda>sentTime bytesInFlight pn bytes retr c. snd (cubicSender_OnPacketSent pn bytes retr c)),
      sa_GetCongestionWindow = cubicSender_GetCongestionWindow,
      sa_MaybeExitSlowStart = cubicSender_MaybeExitSlowStart,
      sa_OnPacketAcked = cubicSender_OnPacketAcked,
      sa_OnPacketLost = cubicSender_OnPacketLost,
      sa_OnRetransmissionTimeout = cubicSender_OnRetransmissionTimeout,
      sa_RetransmissionDelay = (\<lambda>r c. cubicSender_RetransmissionDelay r),
      sa_SmoothedRTT = (\<lambda>r c. cubicSender_SmoothedRTT r),
      sa_GetSlowStartThreshold = cubicSender_GetSlowStartThreshold\<rparr>"

section \<open>The loop that estimates the window of TCP ends\<close>

lemma alpha_default:
  assumes "cu_numConnections c = 2"
  shows "97 / 100 < Cubic_alpha c" "Cubic_alpha c < 98 / 100"
proof -
  have "97 / 100 < Cubic_alpha NewCubic \<and> Cubic_alpha NewCubic < 98 / 100" by code_simp
  moreover have "Cubic_alpha c = Cubic_alpha NewCubic"
    using assms by (simp add: Cubic_alpha_def Cubic_beta_def NewCubic_def Cubic_Reset_def defaultNumConnections_def)
  ultimately show "97 / 100 < Cubic_alpha c" "Cubic_alpha c < 98 / 100" by simp_all
qed

lemma unat_word_of_int: "0 \<le> x \<Longrightarrow> x < 2 ^ 64 \<Longrightarrow> unat (word_of_int x :: u64) = nat x"
  by (simp add: unsigned_of_int take_bit_int_eq_self)

text \<open>The factor is below one, so the required count grows faster than the estimate and is not zero.\<close>

lemma requiredAckCount_pos:
  assumes a: "97 / 100 < alpha" "alpha < 98 / 100" and est: "1 \<le> unat est" "unat est \<le> 2 ^ 60"
  shows "1 \<le> unat (requiredAckCount alpha est)"
proof -
  define n :: rat where "n = of_nat (unat est)"
  have n: "1 \<le> n" "n \<le> 2 ^ 60"
  proof -
    show "1 \<le> n" unfolding n_def using of_nat_mono [OF est(1), where 'a = rat] by simp
    have "(of_nat (unat est) :: rat) \<le> of_nat (2 ^ 60)" using est(2) by (simp only: of_nat_le_iff)
    then show "n \<le> 2 ^ 60" unfolding n_def by (simp only: of_nat_power of_nat_numeral)
  qed
  define q where "q = f32 (f32 n / alpha)"
  have f: "n * (1 - 1 / 2 ^ 24) \<le> f32 n" "f32 n \<le> n * (1 + 1 / 2 ^ 24)"
    using n f32_lower [of n n] f32_upper [of n n] by simp_all
  have "n * (1 - 1 / 2 ^ 24) \<ge> 0" using n(1) by simp
  then have f0: "0 \<le> f32 n" using f(1) by linarith
  have up: "f32 n / alpha \<le> 2 * n"
  proof -
    have "f32 n \<le> alpha * (2 * n)"
    proof -
      have "n * (1 + 1 / 2 ^ 24) \<le> 97 / 100 * (2 * n)" using n(1) by simp
      also have "\<dots> \<le> alpha * (2 * n)" using a(1) n(1) by (intro mult_right_mono) auto
      finally show ?thesis using f(2) by linarith
    qed
    then show ?thesis using a(1) by (simp add: pos_divide_le_eq mult.commute)
  qed
  have lo: "n * (101 / 100) \<le> f32 n / alpha"
  proof -
    have "n * (101 / 100) * alpha \<le> n * (101 / 100) * (98 / 100)" using a(2) n(1) by (intro mult_left_mono) auto
    also have "\<dots> \<le> n * (1 - 1 / 2 ^ 24)" using n(1) by simp
    finally have "n * (101 / 100) * alpha \<le> f32 n" using f(1) by linarith
    then show ?thesis using a(1) by (simp add: pos_le_divide_eq)
  qed
  have q0: "0 \<le> f32 n / alpha" using f0 a(1) by simp
  have q: "1 \<le> q" "q \<le> 2 ^ 62"
  proof -
    have "n * (101 / 100) * (1 - 1 / 2 ^ 24) \<le> q"
      unfolding q_def using lo q0 by (intro f32_lower)
    moreover have "1 \<le> n * (101 / 100) * (1 - 1 / 2 ^ 24)" using n(1) by simp
    ultimately show "1 \<le> q" by linarith
    have "q \<le> 2 * n * (1 + 1 / 2 ^ 24)"
      unfolding q_def using up q0 by (intro f32_upper)
    also have "\<dots> \<le> 2 ^ 62" using n(2) by simp
    finally show "q \<le> 2 ^ 62" .
  qed
  have fl: "1 \<le> \<lfloor>q\<rfloor>" "\<lfloor>q\<rfloor> < 2 ^ 64"
  proof -
    show "1 \<le> \<lfloor>q\<rfloor>" using q(1) by (simp add: le_floor_iff)
    have "\<lfloor>q\<rfloor> \<le> 2 ^ 62" using q(2) by (simp add: floor_le_iff)
    then show "\<lfloor>q\<rfloor> < 2 ^ 64" by simp
  qed
  have "requiredAckCount alpha est = word_of_int \<lfloor>q\<rfloor>"
    using q(1) by (simp add: requiredAckCount_def q_def n_def to_int64_def)
  then have "unat (requiredAckCount alpha est) = nat \<lfloor>q\<rfloor>"
    using unat_word_of_int [OF order_trans [OF zero_le_one fl(1)] fl(2)] by simp
  then show ?thesis using fl(1) by linarith
qed

text \<open>One more than the acknowledged packets is enough fuel, two for an estimate of zero.\<close>

lemma tcpWindow_loop_ends:
  assumes a: "97 / 100 < alpha" "alpha < 98 / 100"
    and "unat acked + (if est = 0 then 1 else 0) < fuel" "unat acked + unat est + fuel \<le> 2 ^ 60"
  shows "(let (acked', est') = tcpWindow_loop fuel alpha acked est in acked' < requiredAckCount alpha est')
    \<and> tcpWindow_loop (fuel + k) alpha acked est = tcpWindow_loop fuel alpha acked est"
  using assms(3,4)
proof (induction fuel arbitrary: acked est)
  case (Suc fuel)
  define r where "r = requiredAckCount alpha est"
  show ?case
  proof (cases "acked < r")
    case False
    then have r: "unat (acked - r) = unat acked - unat r" by (intro unat_minus_le) simp
    have "unat est < 2 ^ 60" using Suc.prems by simp
    then have e: "unat (est + 1) = unat est + 1" using unat_plus_less [of est 1] by simp
    then have e0: "est + 1 \<noteq> 0" by auto
    have "unat (acked - r) < fuel"
    proof (cases "est = 0")
      case True
      then show ?thesis using Suc.prems(1) r by simp
    next
      case False
      then have "1 \<le> unat est" using unat_eq_zero [of est] by linarith
      then have "1 \<le> unat r"
        unfolding r_def using requiredAckCount_pos [OF a] \<open>unat est < 2 ^ 60\<close> by simp
      moreover have "unat r \<le> unat acked" using \<open>\<not> acked < r\<close> by (simp add: word_less_nat_alt not_less)
      ultimately show ?thesis using Suc.prems(1) False r by simp
    qed
    then have "(let (acked', est') = tcpWindow_loop fuel alpha (acked - r) (est + 1) in acked' < requiredAckCount alpha est')
      \<and> tcpWindow_loop (fuel + k) alpha (acked - r) (est + 1) = tcpWindow_loop fuel alpha (acked - r) (est + 1)"
      using Suc.prems e r e0 by (intro Suc.IH) simp_all
    then show ?thesis using False by (simp add: r_def)
  qed (simp add: r_def)
qed simp

text \<open>
  C33: The loop in \<^verbatim>\<open>CongestionWindowAfterAck\<close> that estimates the window of TCP ends. For the default number of connections
  it leaves by its own condition, not enough acknowledged packets for another step, before the bound of the model's
  recursion is reached: a larger bound gives the same result.
\<close>

theorem cubic_estimate_loop_terminates:
  assumes "cu_numConnections c = defaultNumConnections" "unat acked + unat est \<le> 2 ^ 58"
  shows "(let (acked', est') = tcpWindow_loop (unat acked + 2) (Cubic_alpha c) acked est
          in acked' < requiredAckCount (Cubic_alpha c) est')
    \<and> (\<forall>k. tcpWindow_loop (unat acked + 2 + k) (Cubic_alpha c) acked est
          = tcpWindow_loop (unat acked + 2) (Cubic_alpha c) acked est)"
proof -
  have n: "cu_numConnections c = 2" using assms(1) by (simp add: defaultNumConnections_def)
  show ?thesis
    using tcpWindow_loop_ends [OF alpha_default [OF n], of acked est "unat acked + 2"] assms(2) by auto
qed

theorem cubic_estimate_loop_terminates_witness:
  "fst (tcpWindow_loop (unat (10 :: PacketNumber) + 2) (Cubic_alpha NewCubic) 10 3)
     < requiredAckCount (Cubic_alpha NewCubic) (snd (tcpWindow_loop (unat (10 :: PacketNumber) + 2) (Cubic_alpha NewCubic) 10 3))"
  using cubic_estimate_loop_terminates [of NewCubic 10 3]
  by (auto simp: NewCubic_def Cubic_Reset_def split: prod.splits)

section \<open>The congestion window\<close>

lemma beta_default: "nConnectionBeta 2 = 7130317 / 8388608"
  by code_simp

text \<open>The product of a window and the backoff factor, after two roundings.\<close>

lemma scaleWindow_bounds:
  assumes "unat w \<le> 2500"
  shows "84 * unat w \<le> 100 * (unat (scaleWindow w (nConnectionBeta 2)) + 1)"
    "100 * unat (scaleWindow w (nConnectionBeta 2)) \<le> 86 * unat w"
proof -
  define n :: rat where "n = of_nat (unat w)"
  define b :: rat where "b = 7130317 / 8388608"
  define y where "y = f32 (f32 n * b)"
  have n: "0 \<le> n" "n \<le> 2500"
    using of_nat_mono [OF assms, where 'a = rat] of_nat_0_le_iff unfolding n_def by (simp_all only: of_nat_numeral)
  have f: "n * (1 - 1 / 2 ^ 24) \<le> f32 n" "f32 n \<le> n * (1 + 1 / 2 ^ 24)" "0 \<le> f32 n"
    using n f32_lower [of n n] f32_upper [of n n] f32_nonneg [of n] by simp_all
  have fb: "0 \<le> f32 n * b" using f(3) by (simp add: b_def)
  have "n * (1 - 1 / 2 ^ 24) * b \<le> f32 n * b" "f32 n * b \<le> n * (1 + 1 / 2 ^ 24) * b"
    using f by (simp_all add: b_def)
  then have "n * (1 - 1 / 2 ^ 24) * b * (1 - 1 / 2 ^ 24) \<le> y" "y \<le> n * (1 + 1 / 2 ^ 24) * b * (1 + 1 / 2 ^ 24)"
    unfolding y_def using f32_lower [OF _ fb] f32_upper [OF fb] by blast+
  then have y: "n * (84 / 100) \<le> y" "y \<le> n * (86 / 100)" "0 \<le> y"
    using n(1) f32_nonneg [OF fb] by (simp_all add: b_def y_def)
  define k where "k = nat \<lfloor>y\<rfloor>"
  have k: "int k = \<lfloor>y\<rfloor>" using y(3) by (simp add: k_def)
  have ky: "of_nat k \<le> y" "y < of_nat k + 1"
  proof -
    have "(of_nat k :: rat) = of_int \<lfloor>y\<rfloor>" by (simp flip: k)
    then show "of_nat k \<le> y" "y < of_nat k + 1" using floor_correct [of y] by simp_all
  qed
  have up: "100 * k \<le> 86 * unat w"
  proof -
    have "(of_nat (100 * k) :: rat) \<le> of_nat (86 * unat w)" using ky(1) y(2) by (simp add: n_def)
    then show ?thesis by (simp only: of_nat_le_iff)
  qed
  have lo: "84 * unat w \<le> 100 * (k + 1)"
  proof -
    have "(of_nat (84 * unat w) :: rat) \<le> of_nat (100 * (k + 1))" using ky(2) y(1) by (simp add: n_def)
    then show ?thesis by (simp only: of_nat_le_iff)
  qed
  have "scaleWindow w (nConnectionBeta 2) = word_of_int \<lfloor>y\<rfloor>"
    using y(3) by (simp add: scaleWindow_def beta_default to_int64_def y_def b_def n_def)
  moreover have "\<lfloor>y\<rfloor> < 2 ^ 64" using up assms unfolding k [symmetric] by simp
  ultimately have "unat (scaleWindow w (nConnectionBeta 2)) = k"
    using unat_word_of_int [of "\<lfloor>y\<rfloor>"] y(3) by (simp add: k_def)
  then show "84 * unat w \<le> 100 * (unat (scaleWindow w (nConnectionBeta 2)) + 1)"
    "100 * unat (scaleWindow w (nConnectionBeta 2)) \<le> 86 * unat w" using up lo by simp_all
qed

text \<open>
  What the handler of sent packets relies on: an invariant all methods keep, and a bound on the window; a timeout sets
  the window to the minimum; the delays are those of the statistics.
\<close>

locale send_algorithm =
  fixes A :: "'c SendAlgorithm" and inv :: "'c \<Rightarrow> bool" and minWindow maxWindow :: nat
  assumes inv_sent: "inv c \<Longrightarrow> inv (sa_OnPacketSent A t b n l retr c)"
    and inv_exit: "inv c \<Longrightarrow> inv (sa_MaybeExitSlowStart A r c)"
    and inv_acked: "inv c \<Longrightarrow> inv (sa_OnPacketAcked A r t n l b c)"
    and inv_lost: "inv c \<Longrightarrow> inv (sa_OnPacketLost A n l b c)"
    and inv_timeout: "inv c \<Longrightarrow> inv (sa_OnRetransmissionTimeout A retr c)"
    and window_le: "inv c \<Longrightarrow> unat (sa_GetCongestionWindow A c) \<le> maxWindow"
    and window_timeout: "inv c \<Longrightarrow> unat (sa_GetCongestionWindow A (sa_OnRetransmissionTimeout A True c)) = minWindow"
    and delay: "sa_RetransmissionDelay A r c =
      (if SmoothedRTT r = 0 then 0 else i64 (SmoothedRTT r + i64 (MeanDeviation r * 4)))"
    and smoothed: "sa_SmoothedRTT A r c = SmoothedRTT r"

definition cubic_inv :: "cubicSender \<Rightarrow> bool" where
  "cubic_inv c \<longleftrightarrow> unat (cb_congestionWindow c) \<le> unat (cb_maxTCPCongestionWindow c)
     \<and> unat (cb_maxTCPCongestionWindow c) \<le> 2500 \<and> 2 \<le> unat (cb_maxTCPCongestionWindow c)
     \<and> cb_minCongestionWindow c = 2 \<and> \<not> cb_slowStartLargeReduction c
     \<and> cb_numConnections c = 2 \<and> cu_numConnections (cb_cubic c) = 2"

lemma renoBeta_default: "cb_numConnections c = 2 \<Longrightarrow> cubicSender_RenoBeta c = nConnectionBeta 2"
  by (simp add: cubicSender_RenoBeta_def nConnectionBeta_def renoBeta_def cubic_beta_def)

lemma window_bytes: "unat w \<le> 2500 \<Longrightarrow> unat (w * DefaultTCPMSS) = unat w * 1460"
proof -
  assume "unat w \<le> 2500"
  then have "unat w * 1460 < 2 ^ 64" by simp
  then show ?thesis by (simp add: DefaultTCPMSS_def unat_word_ariths)
qed

lemma CongestionWindowAfterAck_numConnections:
  "cu_numConnections (snd (CongestionWindowAfterAck t w d c)) = cu_numConnections c"
  by (simp add: CongestionWindowAfterAck_def startEpoch_def Let_def split: prod.splits)

lemma unat_less_succ: "(w :: u64) < v \<Longrightarrow> unat (w + 1) \<le> unat v"
  using unat_succ [of w v] by (simp add: word_less_nat_alt)

lemma maybeIncreaseCwnd_inv: "cubic_inv c \<Longrightarrow> cubic_inv (cubicSender_maybeIncreaseCwnd r t b c)"
  using CongestionWindowAfterAck_numConnections [of t "cb_congestionWindow c" "MinRTT r" "cb_cubic c"]
  by (auto simp: cubicSender_maybeIncreaseCwnd_def cubic_inv_def Let_def OnApplicationLimited_def unat_min not_le
      unat_less_succ split: prod.splits)

lemma OnPacketAcked_inv: "cubic_inv c \<Longrightarrow> cubic_inv (cubicSender_OnPacketAcked r t n l b c)"
proof -
  assume c: "cubic_inv c"
  define c1 where "c1 = c\<lparr>cb_largestAckedPacketNumber := MaxPacketNumber n (cb_largestAckedPacketNumber c)\<rparr>"
  have c1: "cubic_inv c1" using c by (simp add: cubic_inv_def c1_def)
  have "cubic_inv (cubicSender_maybeIncreaseCwnd r t b c1)" by (rule maybeIncreaseCwnd_inv [OF c1])
  then show ?thesis
    using c1 unfolding cubicSender_OnPacketAcked_def Let_def c1_def [symmetric] by (simp add: cubic_inv_def)
qed

text \<open>The window after a loss that starts a new recovery period.\<close>

definition cutWindow :: "PacketNumber \<Rightarrow> PacketNumber" where
  "cutWindow w = max 2 (scaleWindow w (nConnectionBeta 2))"

lemma OnPacketLost_window:
  assumes "cubic_inv c" "\<not> n \<le> cb_largestSentAtLastCutback c"
  shows "cb_congestionWindow (cubicSender_OnPacketLost n l b c) = cutWindow (cb_congestionWindow c)"
    "cubic_inv (cubicSender_OnPacketLost n l b c)"
proof -
  define c3 where "c3 = (let c1 = c\<lparr>cb_lastCutbackExitedSlowstart := cubicSender_InSlowStart c\<rparr>;
      c2 = (if cubicSender_InSlowStart c1
            then c1\<lparr>cb_stats := (cb_stats c1)\<lparr>cs_slowstartPacketsLost := cs_slowstartPacketsLost (cb_stats c1) + 1\<rparr>\<rparr>
            else c1)
      in c2\<lparr>cb_prr := PrrSender_OnPacketLost b (cb_prr c2)\<rparr>)"
  define c4 where "c4 = reduceWindow c3"
  define c5 where "c5 = (if cb_congestionWindow c4 < cb_minCongestionWindow c4
      then c4\<lparr>cb_congestionWindow := cb_minCongestionWindow c4\<rparr> else c4)"
  have c3: "cubic_inv c3" "cb_congestionWindow c3 = cb_congestionWindow c"
    using assms(1) by (simp_all add: c3_def cubic_inv_def Let_def)
  have inv3: "\<not> cb_slowStartLargeReduction c3" "cb_numConnections c3 = 2" "cu_numConnections (cb_cubic c3) = 2"
    using c3(1) by (simp_all add: cubic_inv_def)
  have c4: "cb_congestionWindow c4 = scaleWindow (cb_congestionWindow c) (nConnectionBeta 2)"
      "cb_minCongestionWindow c4 = cb_minCongestionWindow c3" "cb_maxTCPCongestionWindow c4 = cb_maxTCPCongestionWindow c3"
      "cb_slowStartLargeReduction c4 = cb_slowStartLargeReduction c3" "cb_numConnections c4 = cb_numConnections c3"
      "cu_numConnections (cb_cubic c4) = cu_numConnections (cb_cubic c3)"
    using inv3 c3(2) by (simp_all add: c4_def reduceWindow_def renoBeta_default CongestionWindowAfterPacketLoss_def Cubic_beta_def
        Let_def)
  have c5: "cb_congestionWindow c5 = cutWindow (cb_congestionWindow c)"
    using c3(1) by (auto simp: c5_def c4 cutWindow_def cubic_inv_def max_def not_less dest: leD)
  have eq: "cubicSender_OnPacketLost n l b c = c5\<lparr>cb_slowstartThreshold := cb_congestionWindow c5,
      cb_largestSentAtLastCutback := cb_largestSentPacketNumber c5, cb_congestionWindowCount := 0\<rparr>"
    using assms(2) by (simp add: cubicSender_OnPacketLost_def Let_def c5_def c4_def c3_def)
  show "cb_congestionWindow (cubicSender_OnPacketLost n l b c) = cutWindow (cb_congestionWindow c)" by (simp add: eq c5)
  have w: "unat (cb_congestionWindow c) \<le> 2500" using assms(1) by (simp add: cubic_inv_def)
  have "unat (cutWindow (cb_congestionWindow c)) \<le> unat (cb_maxTCPCongestionWindow c3)"
    using scaleWindow_bounds(2) [OF w] c3 by (simp add: cutWindow_def unat_max cubic_inv_def)
  then show "cubic_inv (cubicSender_OnPacketLost n l b c)"
    using c3(1) c5 by (simp add: eq cubic_inv_def c5_def c4)
qed

lemma OnPacketLost_inv: "cubic_inv c \<Longrightarrow> cubic_inv (cubicSender_OnPacketLost n l b c)"
proof (cases "n \<le> cb_largestSentAtLastCutback c")
  case True
  assume "cubic_inv c"
  then show ?thesis using True by (simp add: cubicSender_OnPacketLost_def lossBeforeCutback_def cubic_inv_def Let_def)
qed (rule OnPacketLost_window(2))

interpretation cubic: send_algorithm cubicAlgorithm cubic_inv 2920 3650000
proof unfold_locales
  fix c :: cubicSender and t b n l retr r
  assume c: "cubic_inv c"
  show "cubic_inv (sa_OnPacketSent cubicAlgorithm t b n l retr c)"
    using c by (simp add: cubicAlgorithm_def cubicSender_OnPacketSent_def cubic_inv_def Let_def)
  show "cubic_inv (sa_MaybeExitSlowStart cubicAlgorithm r c)"
    using c by (simp add: cubicAlgorithm_def cubicSender_MaybeExitSlowStart_def cubicSender_ExitSlowstart_def cubic_inv_def
        Let_def split: prod.splits)
  show "cubic_inv (sa_OnPacketAcked cubicAlgorithm r t n l b c)"
    using OnPacketAcked_inv [OF c] by (simp add: cubicAlgorithm_def)
  show "cubic_inv (sa_OnPacketLost cubicAlgorithm n l b c)"
    using OnPacketLost_inv [OF c] by (simp add: cubicAlgorithm_def)
  show "cubic_inv (sa_OnRetransmissionTimeout cubicAlgorithm retr c)"
    using c by (simp add: cubicAlgorithm_def cubicSender_OnRetransmissionTimeout_def cubic_inv_def Cubic_Reset_def Let_def)
  show "unat (sa_GetCongestionWindow cubicAlgorithm c) \<le> 3650000"
    using c window_bytes [of "cb_congestionWindow c"]
    by (simp add: cubicAlgorithm_def cubicSender_GetCongestionWindow_def cubic_inv_def)
  show "unat (sa_GetCongestionWindow cubicAlgorithm (sa_OnRetransmissionTimeout cubicAlgorithm True c)) = 2920"
    using c window_bytes [of 2]
    by (simp add: cubicAlgorithm_def cubicSender_GetCongestionWindow_def cubicSender_OnRetransmissionTimeout_def cubic_inv_def
        Let_def)
qed (simp_all add: cubicAlgorithm_def cubicSender_RetransmissionDelay_def cubicSender_SmoothedRTT_def)

text \<open>The states of a sender as the handler creates it, under any calls of the interface.\<close>

inductive cubic_reachable :: "cubicSender \<Rightarrow> bool" where
  start: "2 \<le> unat m \<Longrightarrow> unat m \<le> 2500 \<Longrightarrow> w \<le> m \<Longrightarrow> cubic_reachable (NewCubicSender reno w m)"
| sent: "cubic_reachable c \<Longrightarrow> cubic_reachable (snd (cubicSender_OnPacketSent n l retr c))"
| exit: "cubic_reachable c \<Longrightarrow> cubic_reachable (cubicSender_MaybeExitSlowStart r c)"
| acked: "cubic_reachable c \<Longrightarrow> cubic_reachable (cubicSender_OnPacketAcked r t n l b c)"
| lost: "cubic_reachable c \<Longrightarrow> cubic_reachable (cubicSender_OnPacketLost n l b c)"
| timeout: "cubic_reachable c \<Longrightarrow> cubic_reachable (cubicSender_OnRetransmissionTimeout retr c)"

lemma cubic_reachable_inv: "cubic_reachable c \<Longrightarrow> cubic_inv c"
proof (induction rule: cubic_reachable.induct)
  case (start m w reno)
  then show ?case
    by (simp add: NewCubicSender_def cubic_inv_def defaultMinimumCongestionWindow_def defaultNumConnections_def NewCubic_def
        Cubic_Reset_def word_le_nat_alt)
next
  case (sent c n l retr)
  then show ?case using cubic.inv_sent [of c] by (simp add: cubicAlgorithm_def)
next
  case (exit c r)
  then show ?case using cubic.inv_exit [of c] by (simp add: cubicAlgorithm_def)
next
  case (timeout c retr)
  then show ?case using cubic.inv_timeout [of c] by (simp add: cubicAlgorithm_def)
qed (simp_all add: OnPacketAcked_inv OnPacketLost_inv)

text \<open>
  C32: The congestion window. Whatever is sent, acknowledged and lost, the window never exceeds the maximum the sender was
  created with; the first loss of a recovery period multiplies it by 0.85 up to rounding, but never goes below two
  packets, and becomes the slow start threshold; a timeout sets it to two packets.
\<close>

theorem cubic_window_bounds:
  assumes "cubic_reachable c"
  shows "unat (cb_congestionWindow c) \<le> unat (cb_maxTCPCongestionWindow c)
    \<and> (\<forall>n l b. cb_largestSentAtLastCutback c < n \<longrightarrow>
        (let w = unat (cb_congestionWindow c); c' = cubicSender_OnPacketLost n l b c; w' = unat (cb_congestionWindow c') in
         2 \<le> w' \<and> 84 * w \<le> 100 * (w' + 1) \<and> 100 * w' \<le> max 200 (86 * w)
         \<and> cb_slowstartThreshold c' = cb_congestionWindow c'))
    \<and> cb_congestionWindow (cubicSender_OnRetransmissionTimeout True c) = 2"
proof -
  have inv: "cubic_inv c" by (rule cubic_reachable_inv [OF assms])
  have w: "unat (cb_congestionWindow c) \<le> 2500" using inv by (simp add: cubic_inv_def)
  have "cb_slowstartThreshold (cubicSender_OnPacketLost n l b c) = cb_congestionWindow (cubicSender_OnPacketLost n l b c)"
    if "cb_largestSentAtLastCutback c < n" for n l b
    using that [unfolded not_le [symmetric]] by (simp add: cubicSender_OnPacketLost_def Let_def)
  moreover have cut: "unat (cutWindow (cb_congestionWindow c)) = max 2 (unat (scaleWindow (cb_congestionWindow c) (nConnectionBeta 2)))"
    by (simp add: cutWindow_def unat_max)
  moreover have "2 \<le> unat (cutWindow (cb_congestionWindow c))"
    "84 * unat (cb_congestionWindow c) \<le> 100 * (unat (cutWindow (cb_congestionWindow c)) + 1)"
    "100 * unat (cutWindow (cb_congestionWindow c)) \<le> max 200 (86 * unat (cb_congestionWindow c))"
    using scaleWindow_bounds [OF w] unfolding cut by (auto simp: max_def)
  ultimately show ?thesis
    using inv OnPacketLost_window(1) [OF inv]
    by (auto simp: Let_def not_le cubic_inv_def cubicSender_OnRetransmissionTimeout_def)
qed

theorem cubic_window_bounds_witness:
  "let c = cubicSender_OnPacketLost 1 1000 5000 (NewCubicSender False 32 2500) in
   unat (cb_congestionWindow c) \<le> 28 \<and> 26 \<le> unat (cb_congestionWindow c)
   \<and> cb_congestionWindow (cubicSender_OnRetransmissionTimeout True c) = 2"
proof -
  define c0 where "c0 = NewCubicSender False 32 2500"
  have r: "cubic_reachable c0" unfolding c0_def by (rule cubic_reachable.start) simp_all
  have w: "cb_congestionWindow c0 = 32" "cb_largestSentAtLastCutback c0 < 1"
    by (simp_all add: c0_def NewCubicSender_def)
  define w' where "w' = unat (cb_congestionWindow (cubicSender_OnPacketLost 1 1000 5000 c0))"
  have "84 * 32 \<le> 100 * (w' + 1) \<and> 100 * w' \<le> max 200 (86 * 32)"
    using cubic_window_bounds [OF r] w unfolding Let_def w'_def by simp
  moreover have "cb_congestionWindow (cubicSender_OnRetransmissionTimeout True (cubicSender_OnPacketLost 1 1000 5000 c0)) = 2"
    using cubic_window_bounds [OF cubic_reachable.lost [OF r]] by simp
  ultimately show ?thesis unfolding Let_def c0_def [symmetric] w'_def [symmetric] by simp
qed

end
