(* ===== verification/SentPackets.thy ===== *)
theory SentPackets
  imports Unpacker ReceivedPackets Cubic "HOL-Library.Multiset"
begin

text \<open>
  The sending half of the package \<^verbatim>\<open>ackhandler\<close>: the packets that were sent (\<^verbatim>\<open>packet.go\<close>, \<^verbatim>\<open>retransmittable.go\<close>)
  and the handler that tracks them until they are acknowledged or queued for retransmission
  (\<^verbatim>\<open>sent_packet_handler.go\<close>). The history is the list of its elements; an element is the packet it holds, whose
  number is unique in the history. The congestion controller is a value of the interface \<^verbatim>\<open>SendAlgorithm\<close>: a record of
  its methods over its state. One reading of the clock serves one operation.
\<close>

section \<open>Packets\<close>

record Packet =
  pk_PacketNumber :: PacketNumber
  pk_Frames :: "Frame list"
  pk_Length :: ByteCount
  pk_EncryptionLevel :: EncryptionLevel
  pk_SendTime :: int

primrec isAckOrStopWaiting :: "Frame \<Rightarrow> bool" where
  "isAckOrStopWaiting (FStream _) = False"
| "isAckOrStopWaiting (FAck _) = True"
| "isAckOrStopWaiting (FRstStream _) = False"
| "isAckOrStopWaiting (FConnectionClose _) = False"
| "isAckOrStopWaiting (FGoaway _) = False"
| "isAckOrStopWaiting (FWindowUpdate _) = False"
| "isAckOrStopWaiting (FBlocked _) = False"
| "isAckOrStopWaiting (FStopWaiting _) = True"
| "isAckOrStopWaiting (FPing _) = False"
| "isAckOrStopWaiting (FAddAddress _) = False"
| "isAckOrStopWaiting (FClosePath _) = False"
| "isAckOrStopWaiting (FPaths _) = False"

definition GetFramesForRetransmission :: "Packet \<Rightarrow> Frame list" where
  "GetFramesForRetransmission p = filter (\<lambda>f. \<not> isAckOrStopWaiting f) (pk_Frames p)"

text \<open>The types of frame that \<^verbatim>\<open>IsRetransmittable\<close> lists.\<close>

primrec retransmittableType :: "Frame \<Rightarrow> bool" where
  "retransmittableType (FStream _) = True"
| "retransmittableType (FAck _) = False"
| "retransmittableType (FRstStream _) = True"
| "retransmittableType (FConnectionClose _) = False"
| "retransmittableType (FGoaway _) = True"
| "retransmittableType (FWindowUpdate _) = True"
| "retransmittableType (FBlocked _) = True"
| "retransmittableType (FStopWaiting _) = False"
| "retransmittableType (FPing _) = True"
| "retransmittableType (FAddAddress _) = True"
| "retransmittableType (FClosePath _) = False"
| "retransmittableType (FPaths _) = True"

definition Packet_IsRetransmittable :: "Packet \<Rightarrow> bool" where
  "Packet_IsRetransmittable p = list_ex retransmittableType (pk_Frames p)"

definition IsFrameRetransmittable :: "Frame \<Rightarrow> bool" where
  "IsFrameRetransmittable f = (\<not> isAckOrStopWaiting f)"

definition stripNonRetransmittableFrames :: "Frame list \<Rightarrow> Frame list" where
  "stripNonRetransmittableFrames fs = filter IsFrameRetransmittable fs"

definition HasRetransmittableFrames :: "Frame list \<Rightarrow> bool" where
  "HasRetransmittableFrames fs = list_ex IsFrameRetransmittable fs"

section \<open>The handler\<close>

definition timeReorderingFraction :: rat where "timeReorderingFraction = 1 / 8"
definition defaultRTOTimeout :: int where "defaultRTOTimeout = 500 * 1000000"
definition minRTOTimeout :: int where "minRTOTimeout = 200 * 1000000"
definition maxRTOTimeout :: int where "maxRTOTimeout = 60 * 1000000000"
definition maxTailLossProbes :: u32 where "maxTailLossProbes = 2"
definition minRetransmissionTime :: int where "minRetransmissionTime = 200 * 1000000"
definition minTailLossProbeTimeout :: int where "minTailLossProbeTimeout = 10 * 1000000"
definition DefaultMaxCongestionWindow :: nat where "DefaultMaxCongestionWindow = 2500"
definition MaxTrackedSkippedPackets :: nat where "MaxTrackedSkippedPackets = 10"
definition MaxTrackedSentPackets :: nat where "MaxTrackedSentPackets = 2 * DefaultMaxCongestionWindow"
definition MaxNonRetransmittablePackets :: int where "MaxNonRetransmittablePackets = 19"

abbreviation ErrDuplicateOrOutOfOrderAck :: gerror where "ErrDuplicateOrOutOfOrderAck \<equiv> Errorf ''SentPacketHandler: Duplicate or out-of-order ACK''"
abbreviation ErrTooManyTrackedSentPackets :: gerror where "ErrTooManyTrackedSentPackets \<equiv> Errorf ''Too many outstanding non-acked and non-retransmitted packets''"
abbreviation ErrAckForSkippedPacket :: gerror where "ErrAckForSkippedPacket \<equiv> QErr InvalidAckData"
abbreviation errAckForUnsentPacket :: gerror where "errAckForUnsentPacket \<equiv> QErr InvalidAckData"
abbreviation errPacketNumberNotIncreasing :: gerror where "errPacketNumberNotIncreasing \<equiv> Errorf ''Already sent a packet with a higher packet number''"
abbreviation errAckedWrongPacket :: gerror where "errAckedWrongPacket \<equiv> Errorf ''BUG: ackhandler would have acked wrong packet''"

record 'c sentPacketHandler =
  sp_lastSentPacketNumber :: PacketNumber
  sp_skippedPackets :: "PacketNumber list"
  sp_numNonRetransmittablePackets :: int
  sp_LargestAcked :: PacketNumber
  sp_largestReceivedPacketWithAck :: PacketNumber
  sp_packetHistory :: "Packet list"
  sp_stopWaitingManager :: stopWaitingManager
  sp_retransmissionQueue :: "Packet list"
  sp_bytesInFlight :: ByteCount
  sp_congestion :: 'c
  sp_rttStats :: RTTStats
  sp_rtoCount :: u32
  sp_tlpCount :: u32
  sp_lossTime :: int
  sp_lastSentTime :: int
  sp_alarm :: int
  sp_packets :: u64
  sp_retransmissions :: u64
  sp_losses :: u64

abbreviation emptyStopWaitingManager :: stopWaitingManager where
  "emptyStopWaitingManager \<equiv>
     \<lparr>swm_largestLeastUnackedSent = 0, swm_nextLeastUnacked = 0, swm_lastStopWaitingFrame = None\<rparr>"

definition NewSentPacketHandler :: "RTTStats \<Rightarrow> 'c \<Rightarrow> 'c sentPacketHandler" where
  "NewSentPacketHandler rttStats cong =
     \<lparr>sp_lastSentPacketNumber = 0, sp_skippedPackets = [], sp_numNonRetransmittablePackets = 0, sp_LargestAcked = 0,
      sp_largestReceivedPacketWithAck = 0, sp_packetHistory = [], sp_stopWaitingManager = emptyStopWaitingManager,
      sp_retransmissionQueue = [], sp_bytesInFlight = 0, sp_congestion = cong, sp_rttStats = rttStats,
      sp_rtoCount = 0, sp_tlpCount = 0, sp_lossTime = 0, sp_lastSentTime = 0, sp_alarm = 0, sp_packets = 0,
      sp_retransmissions = 0, sp_losses = 0\<rparr>"

definition sentPacketHandler_GetCongestionWindow :: "'c SendAlgorithm \<Rightarrow> 'c sentPacketHandler \<Rightarrow> ByteCount" where
  "sentPacketHandler_GetCongestionWindow A h = sa_GetCongestionWindow A (sp_congestion h)"

definition GetBytesInFlight :: "'c sentPacketHandler \<Rightarrow> ByteCount" where
  "GetBytesInFlight h = sp_bytesInFlight h"

definition sentPacketHandler_GetSlowStartThreshold :: "'c SendAlgorithm \<Rightarrow> 'c sentPacketHandler \<Rightarrow> ByteCount" where
  "sentPacketHandler_GetSlowStartThreshold A h = sa_GetSlowStartThreshold A (sp_congestion h)"

definition sentPacketHandler_GetStatistics :: "'c sentPacketHandler \<Rightarrow> u64 \<times> u64 \<times> u64" where
  "sentPacketHandler_GetStatistics h = (sp_packets h, sp_retransmissions h, sp_losses h)"

definition largestInOrderAcked :: "'c sentPacketHandler \<Rightarrow> PacketNumber" where
  "largestInOrderAcked h =
     (case sp_packetHistory h of f # _ \<Rightarrow> pk_PacketNumber f - 1 | [] \<Rightarrow> sp_LargestAcked h)"

definition ShouldSendRetransmittablePacket :: "'c sentPacketHandler \<Rightarrow> bool" where
  "ShouldSendRetransmittablePacket h \<longleftrightarrow> sp_numNonRetransmittablePackets h \<ge> MaxNonRetransmittablePackets"

subsection \<open>Alarms\<close>

definition computeRTOTimeout :: "'c SendAlgorithm \<Rightarrow> 'c sentPacketHandler \<Rightarrow> int" where
  "computeRTOTimeout A h =
     (let d = sa_RetransmissionDelay A (sp_rttStats h) (sp_congestion h);
          rto = MaxDuration (if d = 0 then defaultRTOTimeout else d) minRTOTimeout
      in MinDuration (i64 (push_bit (unat (sp_rtoCount h)) rto)) maxRTOTimeout)"

definition hasMultipleOutstandingRetransmittablePackets :: "'c sentPacketHandler \<Rightarrow> bool" where
  "hasMultipleOutstandingRetransmittablePackets h \<longleftrightarrow> length (sp_packetHistory h) \<ge> 2"

definition computeTLPTimeout :: "'c SendAlgorithm \<Rightarrow> 'c sentPacketHandler \<Rightarrow> int" where
  "computeTLPTimeout A h =
     (let rtt = sa_SmoothedRTT A (sp_rttStats h) (sp_congestion h) in
      if hasMultipleOutstandingRetransmittablePackets h
      then MaxDuration (i64 (2 * rtt)) (i64 (quot (i64 (rtt * 3)) 2 + quot minRetransmissionTime 2))
      else MaxDuration (i64 (2 * rtt)) minTailLossProbeTimeout)"

definition updateLossDetectionAlarm :: "'c SendAlgorithm \<Rightarrow> 'c sentPacketHandler \<Rightarrow> 'c sentPacketHandler" where
  "updateLossDetectionAlarm A h =
     (if sp_packetHistory h = [] then h\<lparr>sp_alarm := 0\<rparr>
      else if sp_lossTime h \<noteq> 0 then h\<lparr>sp_alarm := sp_lossTime h\<rparr>
      else if SmoothedRTT (sp_rttStats h) \<noteq> 0 \<and> sp_tlpCount h < maxTailLossProbes
      then h\<lparr>sp_alarm := sp_lastSentTime h + computeTLPTimeout A h\<rparr>
      else h\<lparr>sp_alarm := sp_lastSentTime h + MaxDuration (computeRTOTimeout A h) minRetransmissionTime\<rparr>)"

definition sentPacketHandler_GetAlarmTimeout :: "'c sentPacketHandler \<Rightarrow> int" where
  "sentPacketHandler_GetAlarmTimeout h = sp_alarm h"

subsection \<open>Sending a packet\<close>

text \<open>One number that is left out; only the last few are remembered.\<close>

definition skipPacket :: "PacketNumber \<Rightarrow> PacketNumber list \<Rightarrow> PacketNumber list" where
  "skipPacket p skipped =
     (let s = skipped @ [p] in if length s > MaxTrackedSkippedPackets then tl s else s)"

definition skippedAfter :: "PacketNumber \<Rightarrow> PacketNumber \<Rightarrow> PacketNumber list \<Rightarrow> PacketNumber list" where
  "skippedAfter lastSent pn skipped = fold (\<lambda>n. skipPacket (of_nat n)) [Suc (unat lastSent)..<unat pn] skipped"

definition trackPacket :: "int \<Rightarrow> Packet \<Rightarrow> 'c sentPacketHandler \<Rightarrow> 'c sentPacketHandler" where
  "trackPacket now packet h =
     (if pk_Frames packet \<noteq> []
      then h\<lparr>sp_bytesInFlight := sp_bytesInFlight h + pk_Length packet,
             sp_packetHistory := sp_packetHistory h @ [packet\<lparr>pk_SendTime := now\<rparr>],
             sp_numNonRetransmittablePackets := 0\<rparr>
      else h\<lparr>sp_numNonRetransmittablePackets := i64 (sp_numNonRetransmittablePackets h + 1)\<rparr>)"

definition SentPacket :: "'c SendAlgorithm \<Rightarrow> int \<Rightarrow> Packet \<Rightarrow> 'c sentPacketHandler \<Rightarrow> 'c sentPacketHandler outcome" where
  "SentPacket A now packet h =
     (if pk_PacketNumber packet \<le> sp_lastSentPacketNumber h then fail_with errPacketNumberNotIncreasing h
      else if length (sp_retransmissionQueue h) + length (sp_packetHistory h) + 1 > MaxTrackedSentPackets
      then fail_with ErrTooManyTrackedSentPackets h
      else
        let h1 = h\<lparr>sp_skippedPackets := skippedAfter (sp_lastSentPacketNumber h) (pk_PacketNumber packet) (sp_skippedPackets h),
                   sp_lastSentPacketNumber := pk_PacketNumber packet,
                   sp_packets := sp_packets h + 1, sp_lastSentTime := now\<rparr>;
            packet1 = packet\<lparr>pk_Frames := stripNonRetransmittableFrames (pk_Frames packet)\<rparr>;
            h2 = trackPacket now packet1 h1;
            h3 = h2\<lparr>sp_congestion := sa_OnPacketSent A now (sp_bytesInFlight h2) (pk_PacketNumber packet)
                      (pk_Length packet) (pk_Frames packet1 \<noteq> []) (sp_congestion h2)\<rparr>
        in done_ok (updateLossDetectionAlarm A h3))"

subsection \<open>Queueing for retransmission\<close>

definition queuePacketForRetransmission :: "Packet \<Rightarrow> 'c sentPacketHandler \<Rightarrow> 'c sentPacketHandler" where
  "queuePacketForRetransmission packet h =
     h\<lparr>sp_bytesInFlight := sp_bytesInFlight h - pk_Length packet,
       sp_retransmissionQueue := sp_retransmissionQueue h @ [packet],
       sp_packetHistory := remove1 packet (sp_packetHistory h),
       sp_stopWaitingManager := QueuedRetransmissionForPacketNumber (pk_PacketNumber packet) (sp_stopWaitingManager h)\<rparr>"

text \<open>A packet that is given up: it is queued, and the congestion controller is told.\<close>

definition losePacket :: "'c SendAlgorithm \<Rightarrow> Packet \<Rightarrow> 'c sentPacketHandler \<Rightarrow> 'c sentPacketHandler" where
  "losePacket A packet h =
     (let h1 = queuePacketForRetransmission packet h
      in h1\<lparr>sp_congestion := sa_OnPacketLost A (pk_PacketNumber packet) (pk_Length packet) (sp_bytesInFlight h1)
              (sp_congestion h1)\<rparr>)"

definition queueRTO :: "'c SendAlgorithm \<Rightarrow> Packet \<Rightarrow> 'c sentPacketHandler \<Rightarrow> 'c sentPacketHandler" where
  "queueRTO A packet h =
     (let h1 = queuePacketForRetransmission packet h;
          h2 = h1\<lparr>sp_losses := sp_losses h1 + 1\<rparr>
      in h2\<lparr>sp_congestion := sa_OnPacketLost A (pk_PacketNumber packet) (pk_Length packet) (sp_bytesInFlight h2)
              (sp_congestion h2)\<rparr>)"

definition retransmissionTimeout :: "'c SendAlgorithm \<Rightarrow> 'c sentPacketHandler \<Rightarrow> 'c sentPacketHandler" where
  "retransmissionTimeout A h = h\<lparr>sp_congestion := sa_OnRetransmissionTimeout A True (sp_congestion h)\<rparr>"

definition retransmitTLP :: "'c sentPacketHandler \<Rightarrow> 'c sentPacketHandler" where
  "retransmitTLP h =
     (if sp_packetHistory h = [] then h else queuePacketForRetransmission (last (sp_packetHistory h)) h)"

definition retransmitAllPackets :: "'c SendAlgorithm \<Rightarrow> 'c sentPacketHandler \<Rightarrow> 'c sentPacketHandler" where
  "retransmitAllPackets A h = retransmissionTimeout A (fold (queueRTO A) (sp_packetHistory h) h)"

definition retransmitOldestPacket :: "'c SendAlgorithm \<Rightarrow> 'c sentPacketHandler \<Rightarrow> 'c sentPacketHandler" where
  "retransmitOldestPacket A h = (case sp_packetHistory h of p # _ \<Rightarrow> queueRTO A p h | [] \<Rightarrow> h)"

definition retransmitOldestTwoPackets :: "'c SendAlgorithm \<Rightarrow> 'c sentPacketHandler \<Rightarrow> 'c sentPacketHandler" where
  "retransmitOldestTwoPackets A h =
     retransmissionTimeout A (retransmitOldestPacket A (retransmitOldestPacket A h))"

definition DuplicatePacket :: "Packet \<Rightarrow> 'c sentPacketHandler \<Rightarrow> 'c sentPacketHandler" where
  "DuplicatePacket packet h = h\<lparr>sp_retransmissionQueue := sp_retransmissionQueue h @ [packet]\<rparr>"

definition DequeuePacketForRetransmission :: "'c sentPacketHandler \<Rightarrow> Packet option \<times> 'c sentPacketHandler" where
  "DequeuePacketForRetransmission h =
     (case sp_retransmissionQueue h of
        [] \<Rightarrow> (None, h)
      | packet # q \<Rightarrow> (Some packet, h\<lparr>sp_retransmissionQueue := q, sp_retransmissions := sp_retransmissions h + 1\<rparr>))"

definition GetLeastUnacked :: "'c sentPacketHandler \<Rightarrow> PacketNumber" where
  "GetLeastUnacked h = largestInOrderAcked h + 1"

definition sentPacketHandler_GetStopWaitingFrame ::
  "bool \<Rightarrow> 'c sentPacketHandler \<Rightarrow> StopWaitingFrame option \<times> 'c sentPacketHandler" where
  "sentPacketHandler_GetStopWaitingFrame force h =
     (let (f, s) = GetStopWaitingFrame force (sp_stopWaitingManager h) in (f, h\<lparr>sp_stopWaitingManager := s\<rparr>))"

definition SendingAllowed :: "'c SendAlgorithm \<Rightarrow> 'c sentPacketHandler \<Rightarrow> bool" where
  "SendingAllowed A h =
     (let congestionLimited = sp_bytesInFlight h > sa_GetCongestionWindow A (sp_congestion h);
          maxTrackedLimited = length (sp_retransmissionQueue h) + length (sp_packetHistory h) \<ge> MaxTrackedSentPackets;
          haveRetransmissions = sp_retransmissionQueue h \<noteq> []
      in \<not> maxTrackedLimited \<and> (\<not> congestionLimited \<or> haveRetransmissions))"

subsection \<open>Lost packets\<close>

text \<open>The time after which a packet below an acknowledged one is lost: the fraction is computed with 64-bit floats.\<close>

definition delayUntilLost :: "RTTStats \<Rightarrow> int" where
  "delayUntilLost r =
     to_int64 (f64 ((1 + timeReorderingFraction) * f64 (of_int (MaxDuration (LatestRTT r) (SmoothedRTT r)))))"

text \<open>The loop over the history: the lost packets, the loss time and the number of losses.\<close>

fun detectLost_loop :: "int \<Rightarrow> int \<Rightarrow> PacketNumber \<Rightarrow> Packet list \<Rightarrow> int \<Rightarrow> u64 \<Rightarrow> Packet list \<times> int \<times> u64" where
  "detectLost_loop now lostDelay largestAcked [] lossTime losses = ([], lossTime, losses)"
| "detectLost_loop now lostDelay largestAcked (packet # ps) lossTime losses =
     (if pk_PacketNumber packet > largestAcked then ([], lossTime, losses)
      else
        let timeSinceSent = timeSub now (pk_SendTime packet) in
        if timeSinceSent > lostDelay then
          let (lost, lt, n) = detectLost_loop now lostDelay largestAcked ps lossTime (losses + 1) in (packet # lost, lt, n)
        else if lossTime = 0
        then detectLost_loop now lostDelay largestAcked ps (now + i64 (lostDelay - timeSinceSent)) losses
        else detectLost_loop now lostDelay largestAcked ps lossTime losses)"

definition detectLostPackets :: "'c SendAlgorithm \<Rightarrow> int \<Rightarrow> 'c sentPacketHandler \<Rightarrow> 'c sentPacketHandler" where
  "detectLostPackets A now h =
     (let (lost, lossTime, losses) = detectLost_loop now (delayUntilLost (sp_rttStats h)) (sp_LargestAcked h)
                                       (sp_packetHistory h) 0 (sp_losses h)
      in fold (losePacket A) lost (h\<lparr>sp_lossTime := lossTime, sp_losses := losses\<rparr>))"

definition SetInflightAsLost :: "'c SendAlgorithm \<Rightarrow> 'c sentPacketHandler \<Rightarrow> 'c sentPacketHandler" where
  "SetInflightAsLost A h =
     (let lost = takeWhile (\<lambda>p. \<not> pk_PacketNumber p > sp_LargestAcked h) (sp_packetHistory h)
      in fold (losePacket A) lost (h\<lparr>sp_losses := sp_losses h + of_nat (length lost)\<rparr>))"

definition hasOutstandingRetransmittablePacket :: "'c sentPacketHandler \<Rightarrow> bool" where
  "hasOutstandingRetransmittablePacket h = list_ex Packet_IsRetransmittable (sp_packetHistory h)"

text \<open>\<open>onRTOCallback\<close> is the callback of the path, if it is set: it tells whether the path has potentially failed.\<close>

definition sentPacketHandler_OnAlarm ::
  "'c SendAlgorithm \<Rightarrow> (int \<Rightarrow> bool) option \<Rightarrow> int \<Rightarrow> 'c sentPacketHandler \<Rightarrow> 'c sentPacketHandler" where
  "sentPacketHandler_OnAlarm A onRTOCallback now h =
     (if \<not> hasOutstandingRetransmittablePacket h then h\<lparr>sp_alarm := 0\<rparr>
      else updateLossDetectionAlarm A
        (if sp_lossTime h \<noteq> 0 then detectLostPackets A now h
         else if sp_tlpCount h < maxTailLossProbes
         then let h1 = retransmitTLP h in h1\<lparr>sp_tlpCount := sp_tlpCount h1 + 1\<rparr>
         else
           let potentiallyFailed = (case onRTOCallback of None \<Rightarrow> False | Some f \<Rightarrow> f (sp_lastSentTime h));
               h1 = (if potentiallyFailed then retransmitAllPackets A h else retransmitOldestTwoPackets A h)
           in h1\<lparr>sp_rtoCount := sp_rtoCount h1 + 1\<rparr>))"

subsection \<open>Acknowledgements\<close>

definition onPacketAcked :: "Packet \<Rightarrow> 'c sentPacketHandler \<Rightarrow> 'c sentPacketHandler" where
  "onPacketAcked packet h =
     h\<lparr>sp_bytesInFlight := sp_bytesInFlight h - pk_Length packet, sp_rtoCount := 0, sp_tlpCount := 0,
       sp_packetHistory := remove1 packet (sp_packetHistory h)\<rparr>"

text \<open>What \<^verbatim>\<open>ReceivedAck\<close> and \<^verbatim>\<open>ReceivedClosePath\<close> do for every newly acknowledged packet.\<close>

definition ackPacket :: "'c SendAlgorithm \<Rightarrow> int \<Rightarrow> Packet \<Rightarrow> 'c sentPacketHandler \<Rightarrow> 'c sentPacketHandler" where
  "ackPacket A now packet h =
     (let h1 = onPacketAcked packet h
      in h1\<lparr>sp_congestion := sa_OnPacketAcked A (sp_rttStats h1) now (pk_PacketNumber packet) (pk_Length packet)
              (sp_bytesInFlight h1) (sp_congestion h1)\<rparr>)"

text \<open>
  The search for the newly acknowledged packets walks through the history and the ranges together, both in
  ascending order. \<open>rs\<close> are the ranges from the current one upwards; the last one is never left.
\<close>

fun advanceRange :: "PacketNumber \<Rightarrow> AckRange list \<Rightarrow> AckRange list" where
  "advanceRange pn (r # r' # rs) = (if pn > ar_Last r then advanceRange pn (r' # rs) else r # r' # rs)"
| "advanceRange pn rs = rs"

fun newlyAcked_loop :: "PacketNumber \<Rightarrow> PacketNumber \<Rightarrow> AckRange list \<Rightarrow> Packet list \<Rightarrow> Packet list result" where
  "newlyAcked_loop largestAcked lowestAcked rs [] = Inr []"
| "newlyAcked_loop largestAcked lowestAcked rs (packet # ps) =
     (if pk_PacketNumber packet < lowestAcked then newlyAcked_loop largestAcked lowestAcked rs ps
      else if pk_PacketNumber packet > largestAcked then Inr []
      else if rs \<noteq> [] then
        let rs' = advanceRange (pk_PacketNumber packet) rs; ackRange = hd rs' in
        if pk_PacketNumber packet \<ge> ar_First ackRange then
          if pk_PacketNumber packet > ar_Last ackRange then Inl errAckedWrongPacket
          else rbind (newlyAcked_loop largestAcked lowestAcked rs' ps) (\<lambda>acked. Inr (packet # acked))
        else newlyAcked_loop largestAcked lowestAcked rs' ps
      else rbind (newlyAcked_loop largestAcked lowestAcked rs ps) (\<lambda>acked. Inr (packet # acked)))"

definition determineNewlyAckedPackets :: "AckFrame \<Rightarrow> 'c sentPacketHandler \<Rightarrow> Packet list result" where
  "determineNewlyAckedPackets ackFrame h =
     newlyAcked_loop (ack_LargestAcked ackFrame) (ack_LowestAcked ackFrame) (rev (ack_AckRanges ackFrame)) (sp_packetHistory h)"

definition determineNewlyAckedPacketsClosePath :: "ClosePathFrame \<Rightarrow> 'c sentPacketHandler \<Rightarrow> Packet list result" where
  "determineNewlyAckedPacketsClosePath f h =
     newlyAcked_loop (cp_LargestAcked f) (cp_LowestAcked f) (rev (cp_AckRanges f)) (sp_packetHistory h)"

text \<open>The packet with the given number, if it is still in the history, gives a sample of the round trip time.\<close>

fun findSent :: "PacketNumber \<Rightarrow> Packet list \<Rightarrow> Packet option" where
  "findSent n [] = None"
| "findSent n (packet # ps) =
     (if pk_PacketNumber packet = n then Some packet
      else if pk_PacketNumber packet > n then None
      else findSent n ps)"

definition maybeUpdateRTT :: "int \<Rightarrow> PacketNumber \<Rightarrow> int \<Rightarrow> int \<Rightarrow> 'c sentPacketHandler \<Rightarrow> bool \<times> 'c sentPacketHandler" where
  "maybeUpdateRTT now largestAcked ackDelay rcvTime h =
     (case findSent largestAcked (sp_packetHistory h) of
        None \<Rightarrow> (False, h)
      | Some packet \<Rightarrow>
          (True, h\<lparr>sp_rttStats := UpdateRTT (timeSub rcvTime (pk_SendTime packet)) ackDelay now (sp_rttStats h)\<rparr>))"

definition skippedPacketsAcked :: "AckFrame \<Rightarrow> 'c sentPacketHandler \<Rightarrow> bool" where
  "skippedPacketsAcked ackFrame h = list_ex (AckFrame_AcksPacket ackFrame) (sp_skippedPackets h)"

definition skippedPacketsAckedClosePath :: "ClosePathFrame \<Rightarrow> 'c sentPacketHandler \<Rightarrow> bool" where
  "skippedPacketsAckedClosePath f h = list_ex (ClosePathFrame_AcksPacket f) (sp_skippedPackets h)"

fun deleteIndex_loop :: "PacketNumber \<Rightarrow> nat \<Rightarrow> PacketNumber list \<Rightarrow> nat \<Rightarrow> nat" where
  "deleteIndex_loop lioa i [] deleteIndex = deleteIndex"
| "deleteIndex_loop lioa i (p # ps) deleteIndex =
     deleteIndex_loop lioa (i + 1) ps (if p \<le> lioa then i + 1 else deleteIndex)"

definition garbageCollectSkippedPackets :: "'c sentPacketHandler \<Rightarrow> 'c sentPacketHandler" where
  "garbageCollectSkippedPackets h =
     h\<lparr>sp_skippedPackets :=
         drop (deleteIndex_loop (largestInOrderAcked h) 0 (sp_skippedPackets h) 0) (sp_skippedPackets h)\<rparr>"

text \<open>\<^verbatim>\<open>ReceivedAck\<close> after the checks that reject or ignore the frame.\<close>

definition sampleRTT :: "'c SendAlgorithm \<Rightarrow> int \<Rightarrow> AckFrame \<Rightarrow> int \<Rightarrow> 'c sentPacketHandler \<Rightarrow> 'c sentPacketHandler" where
  "sampleRTT A now ackFrame rcvTime h =
     (let (rttUpdated, h1) = maybeUpdateRTT now (ack_LargestAcked ackFrame) (ack_DelayTime ackFrame) rcvTime h
      in if rttUpdated then h1\<lparr>sp_congestion := sa_MaybeExitSlowStart A (sp_rttStats h1) (sp_congestion h1)\<rparr> else h1)"

definition applyAck :: "'c SendAlgorithm \<Rightarrow> int \<Rightarrow> AckFrame \<Rightarrow> int \<Rightarrow> 'c sentPacketHandler \<Rightarrow> 'c sentPacketHandler outcome" where
  "applyAck A now ackFrame rcvTime h =
     (let h1 = sampleRTT A now ackFrame rcvTime h
      in case determineNewlyAckedPackets ackFrame h1 of
           Inl err \<Rightarrow> fail_with err h1
         | Inr ackedPackets \<Rightarrow>
             let h2 = fold (ackPacket A now) ackedPackets h1;
                 h3 = garbageCollectSkippedPackets (updateLossDetectionAlarm A (detectLostPackets A now h2))
             in done_ok (h3\<lparr>sp_stopWaitingManager := stopWaitingManager_ReceivedAck ackFrame (sp_stopWaitingManager h3)\<rparr>))"

definition ReceivedAck :: "'c SendAlgorithm \<Rightarrow> int \<Rightarrow> AckFrame \<Rightarrow> PacketNumber \<Rightarrow> int \<Rightarrow> 'c sentPacketHandler
    \<Rightarrow> 'c sentPacketHandler outcome" where
  "ReceivedAck A now ackFrame withPacketNumber rcvTime h =
     (if ack_LargestAcked ackFrame > sp_lastSentPacketNumber h then fail_with errAckForUnsentPacket h
      else if withPacketNumber \<le> sp_largestReceivedPacketWithAck h then fail_with ErrDuplicateOrOutOfOrderAck h
      else
        let h1 = h\<lparr>sp_largestReceivedPacketWithAck := withPacketNumber\<rparr> in
        if ack_LargestAcked ackFrame \<le> largestInOrderAcked h1 then done_ok h1
        else
          let h2 = h1\<lparr>sp_LargestAcked := ack_LargestAcked ackFrame\<rparr> in
          if skippedPacketsAcked ackFrame h2 then fail_with ErrAckForSkippedPacket h2
          else applyAck A now ackFrame rcvTime h2)"

definition ReceivedClosePath :: "'c SendAlgorithm \<Rightarrow> int \<Rightarrow> ClosePathFrame \<Rightarrow> PacketNumber \<Rightarrow> 'c sentPacketHandler
    \<Rightarrow> 'c sentPacketHandler outcome" where
  "ReceivedClosePath A now f withPacketNumber h =
     (if cp_LargestAcked f > sp_lastSentPacketNumber h then fail_with errAckForUnsentPacket h
      else if withPacketNumber \<le> sp_largestReceivedPacketWithAck h then fail_with ErrDuplicateOrOutOfOrderAck h
      else
        let h1 = h\<lparr>sp_largestReceivedPacketWithAck := withPacketNumber\<rparr> in
        if skippedPacketsAckedClosePath f h1 then fail_with ErrAckForSkippedPacket h1
        else case determineNewlyAckedPacketsClosePath f h1 of
          Inl err \<Rightarrow> fail_with err h1
        | Inr ackedPackets \<Rightarrow>
            done_ok (garbageCollectSkippedPackets (SetInflightAsLost A (fold (ackPacket A now) ackedPackets h1))))"

section \<open>The newly acknowledged packets\<close>

text \<open>
  The walk through history and ranges computes what \<^verbatim>\<open>AcksPacket\<close> says: the packets of the history that lie in
  one of the ranges. It relies on the order of both.
\<close>

abbreviation ascending_packets :: "Packet list \<Rightarrow> bool" where
  "ascending_packets \<equiv> sorted_wrt (\<lambda>p q. pk_PacketNumber p < pk_PacketNumber q)"

definition ascending_ranges :: "AckRange list \<Rightarrow> bool" where
  "ascending_ranges rs \<longleftrightarrow>
     sorted_wrt (\<lambda>r r'. ar_Last r < ar_First r') rs \<and> (\<forall>r\<in>set rs. ar_First r \<le> ar_Last r)"

definition in_ranges :: "AckRange list \<Rightarrow> PacketNumber \<Rightarrow> bool" where
  "in_ranges rs n \<longleftrightarrow> (\<exists>r\<in>set rs. ar_First r \<le> n \<and> n \<le> ar_Last r)"

lemma advanceRange_spec:
  assumes "rs \<noteq> []" "n \<le> ar_Last (last rs)"
  obtains before where "rs = before @ advanceRange n rs" "\<forall>r\<in>set before. ar_Last r < n"
    "advanceRange n rs \<noteq> []" "n \<le> ar_Last (hd (advanceRange n rs))"
proof -
  have "\<exists>before. rs = before @ advanceRange n rs \<and> (\<forall>r\<in>set before. ar_Last r < n) \<and> advanceRange n rs \<noteq> []
      \<and> n \<le> ar_Last (hd (advanceRange n rs))"
    using assms
  proof (induction n rs rule: advanceRange.induct)
    case (1 n r r' rs)
    show ?case
    proof (cases "ar_Last r < n")
      case True
      then obtain before where "r' # rs = before @ advanceRange n (r' # rs)" "\<forall>r\<in>set before. ar_Last r < n"
          "advanceRange n (r' # rs) \<noteq> []" "n \<le> ar_Last (hd (advanceRange n (r' # rs)))"
        using 1 by auto
      then show ?thesis using True by (intro exI [of _ "r # before"]) auto
    qed auto
  qed auto
  then show thesis using that by blast
qed

lemma in_ranges_advance:
  assumes rs: "rs = before @ rs'" "\<forall>r\<in>set before. ar_Last r < n" "rs' \<noteq> []" "n \<le> ar_Last (hd rs')"
    and asc: "ascending_ranges rs"
  shows "in_ranges rs n \<longleftrightarrow> ar_First (hd rs') \<le> n" "n \<le> m \<Longrightarrow> in_ranges rs m \<longleftrightarrow> in_ranges rs' m"
    "ascending_ranges rs'"
proof -
  obtain r0 rs0 where r0: "rs' = r0 # rs0" using rs(3) by (cases rs') auto
  show asc': "ascending_ranges rs'" using asc rs(1) by (auto simp: ascending_ranges_def sorted_wrt_append)
  have gt: "n < ar_First r" if "r \<in> set rs0" for r
    using asc' rs(4) that unfolding r0 ascending_ranges_def by auto
  have "\<not> n \<le> ar_Last r" if "r \<in> set before" for r using rs(2) that by auto
  then show "in_ranges rs n \<longleftrightarrow> ar_First (hd rs') \<le> n"
    using rs(4) gt unfolding in_ranges_def rs(1) r0 by (auto dest: leD)
  have "\<not> m \<le> ar_Last r" if "n \<le> m" "r \<in> set before" for r using rs(2) that by auto
  then show "n \<le> m \<Longrightarrow> in_ranges rs m \<longleftrightarrow> in_ranges rs' m"
    unfolding in_ranges_def rs(1) by auto
qed

lemma filter_above_empty:
  assumes "ascending_packets (p # ps)" "largest < pk_PacketNumber p"
  shows "filter (\<lambda>q. lowest \<le> pk_PacketNumber q \<and> pk_PacketNumber q \<le> largest \<and> P q) (p # ps) = []"
  using assms by (auto simp: filter_empty_conv not_le intro: order.strict_trans)

lemma newlyAcked_loop_ranges:
  assumes "ascending_packets ps" "rs \<noteq> []" "ascending_ranges rs" "ar_Last (last rs) = largest"
  shows "newlyAcked_loop largest lowest rs ps = Inr (filter (\<lambda>p. lowest \<le> pk_PacketNumber p
           \<and> pk_PacketNumber p \<le> largest \<and> in_ranges rs (pk_PacketNumber p)) ps)"
  using assms
proof (induction ps arbitrary: rs)
  case (Cons p ps)
  let ?n = "pk_PacketNumber p"
  consider (below) "?n < lowest" | (above) "lowest \<le> ?n" "largest < ?n" | (within) "lowest \<le> ?n" "?n \<le> largest"
    by (meson not_le)
  then show ?case
  proof cases
    case below
    then show ?thesis using Cons by (simp add: not_le)
  next
    case above
    have "filter (\<lambda>q. lowest \<le> pk_PacketNumber q \<and> pk_PacketNumber q \<le> largest
        \<and> in_ranges rs (pk_PacketNumber q)) (p # ps) = []"
      by (rule filter_above_empty [OF Cons.prems(1) above(2)])
    then show ?thesis using above(2) leD [OF above(1)] by (simp del: filter.simps)
  next
    case within
    define rs' where "rs' = advanceRange ?n rs"
    obtain before where b: "rs = before @ rs'" "\<forall>r\<in>set before. ar_Last r < ?n" "rs' \<noteq> []" "?n \<le> ar_Last (hd rs')"
      using advanceRange_spec [of rs ?n] Cons.prems within unfolding rs'_def by blast
    note adv = in_ranges_advance [OF b Cons.prems(3)]
    have IH: "newlyAcked_loop largest lowest rs' ps = Inr (filter (\<lambda>p. lowest \<le> pk_PacketNumber p
        \<and> pk_PacketNumber p \<le> largest \<and> in_ranges rs' (pk_PacketNumber p)) ps)"
      using Cons.prems b adv(3) by (intro Cons.IH) auto
    also have "filter (\<lambda>p. lowest \<le> pk_PacketNumber p \<and> pk_PacketNumber p \<le> largest \<and> in_ranges rs' (pk_PacketNumber p)) ps
      = filter (\<lambda>p. lowest \<le> pk_PacketNumber p \<and> pk_PacketNumber p \<le> largest \<and> in_ranges rs (pk_PacketNumber p)) ps"
      using Cons.prems(1) adv(2) by (intro filter_cong) auto
    finally show ?thesis
      using within b(4) adv(1) Cons.prems(2) by (auto simp: Let_def rs'_def not_less)
  qed
qed simp

lemma newlyAcked_loop_noranges:
  assumes "ascending_packets ps"
  shows "newlyAcked_loop largest lowest [] ps =
    Inr (filter (\<lambda>p. lowest \<le> pk_PacketNumber p \<and> pk_PacketNumber p \<le> largest \<and> True) ps)"
  using assms
proof (induction ps)
  case (Cons p ps)
  show ?case
  proof (cases "largest < pk_PacketNumber p \<and> \<not> pk_PacketNumber p < lowest")
    case True
    then show ?thesis using filter_above_empty [OF Cons.prems, of largest lowest "\<lambda>_. True"] by (simp del: filter.simps)
  qed (use Cons in \<open>auto simp: not_less not_le\<close>)
qed simp

lemma descending_rev_ascending:
  assumes "ranges_wf largest lowest rs" "rs \<noteq> []"
  shows "ascending_ranges (rev rs)" "ar_Last (last (rev rs)) = largest"
proof -
  have ok: "\<forall>r\<in>set rs. range_ok r" and d: "descending rs" using assms by (simp_all add: ranges_wf_def)
  have "sorted_wrt (\<lambda>r r'. ar_Last r' < ar_First r) rs"
    using ok d
  proof (induction rs)
    case (Cons r rs)
    have "ar_Last x < ar_First r" if "x \<in> set rs" for x
      using descending_bounds [OF Cons.prems(2,1) that] by (simp add: word_less_nat_alt)
    moreover have "descending rs" using Cons.prems(2) by (cases rs) auto
    ultimately show ?case using Cons by simp
  qed simp
  then show "ascending_ranges (rev rs)"
    using ok by (auto simp: ascending_ranges_def sorted_wrt_rev range_ok_def word_le_nat_alt)
  show "ar_Last (last (rev rs)) = largest" using assms by (simp add: ranges_wf_def last_rev)
qed

lemma newlyAcked_loop_eq:
  assumes "ascending_packets ps" "ranges_wf largest lowest rs"
  shows "newlyAcked_loop largest lowest (rev rs) ps = Inr (filter (\<lambda>p. acksPacket largest lowest rs (pk_PacketNumber p)) ps)"
proof (cases "rs = []")
  case True
  then show ?thesis
    using newlyAcked_loop_noranges [OF assms(1)] by (auto simp: acksPacket_def not_less not_le intro!: filter_cong)
next
  case False
  then show ?thesis
    using newlyAcked_loop_ranges [OF assms(1) _ descending_rev_ascending [OF assms(2) False]]
    by (auto simp: acksPacket_def in_ranges_def list_ex_iff not_less not_le intro!: filter_cong)
qed

section \<open>What the handler tracks\<close>

text \<open>
  The invariant: the history is sorted by packet number and holds only numbers that were sent, the skipped numbers are
  different from them, and \<^verbatim>\<open>bytesInFlight\<close> is the sum of the lengths of the packets of the history.
\<close>

definition sp_inv :: "'c sentPacketHandler \<Rightarrow> bool" where
  "sp_inv h \<longleftrightarrow>
     ascending_packets (sp_packetHistory h)
     \<and> (\<forall>p\<in>set (sp_packetHistory h). 0 < pk_PacketNumber p \<and> pk_PacketNumber p \<le> sp_lastSentPacketNumber h
          \<and> pk_Frames p \<noteq> [])
     \<and> sp_bytesInFlight h = sum_list (map pk_Length (sp_packetHistory h))
     \<and> sorted_wrt (<) (sp_skippedPackets h)
     \<and> (\<forall>s\<in>set (sp_skippedPackets h). s \<le> sp_lastSentPacketNumber h \<and> s \<notin> pk_PacketNumber ` set (sp_packetHistory h))
     \<and> sp_LargestAcked h \<le> sp_lastSentPacketNumber h"

text \<open>The packets the handler still answers for.\<close>

definition content :: "'c sentPacketHandler \<Rightarrow> Packet multiset" where
  "content h = mset (sp_packetHistory h) + mset (sp_retransmissionQueue h)"

lemma ascending_distinct: "ascending_packets ps \<Longrightarrow> distinct ps"
  by (induction ps) auto

lemma ascending_remove1:
  assumes "ascending_packets ps"
  shows "remove1 p ps = filter (\<lambda>q. q \<noteq> p) ps" "ascending_packets (remove1 p ps)"
proof -
  show "remove1 p ps = filter (\<lambda>q. q \<noteq> p) ps"
    using ascending_distinct [OF assms] by (simp add: distinct_remove1_removeAll removeAll_filter_not_eq eq_commute)
  then show "ascending_packets (remove1 p ps)" using assms by (simp add: sorted_wrt_filter)
qed

lemma subset_remove1: "set ps \<subseteq> set xs \<Longrightarrow> p \<notin> set ps \<Longrightarrow> set ps \<subseteq> set (remove1 p xs)"
  by (metis in_set_remove1 subset_code(1))

subsection \<open>Taking packets out of the history\<close>

text \<open>
  The contract of the steps that take one packet out of the history: acknowledging it, giving it up, and queueing it
  after a timeout. \<open>queues\<close> tells whether it goes to the retransmission queue.
\<close>

locale packet_step =
  fixes act :: "Packet \<Rightarrow> 'c sentPacketHandler \<Rightarrow> 'c sentPacketHandler" and queues :: bool
  assumes act_history: "sp_packetHistory (act p h) = remove1 p (sp_packetHistory h)"
    and act_bytes: "sp_bytesInFlight (act p h) = sp_bytesInFlight h - pk_Length p"
    and act_queue: "sp_retransmissionQueue (act p h) = sp_retransmissionQueue h @ (if queues then [p] else [])"
    and act_keeps: "sp_lastSentPacketNumber (act p h) = sp_lastSentPacketNumber h"
      "sp_skippedPackets (act p h) = sp_skippedPackets h" "sp_LargestAcked (act p h) = sp_LargestAcked h"
      "sp_lossTime (act p h) = sp_lossTime h" "sp_lastSentTime (act p h) = sp_lastSentTime h"
      "sp_rttStats (act p h) = sp_rttStats h"
begin

lemma act_inv:
  assumes "sp_inv h" "p \<in> set (sp_packetHistory h)"
  shows "sp_inv (act p h)"
proof -
  have "sum_list (map pk_Length (sp_packetHistory h)) = pk_Length p + sum_list (map pk_Length (remove1 p (sp_packetHistory h)))"
    by (rule sum_list_map_remove1 [OF assms(2)])
  moreover have "ascending_packets (remove1 p (sp_packetHistory h))"
    using assms(1) by (intro ascending_remove1(2)) (simp add: sp_inv_def)
  moreover have "set (remove1 p (sp_packetHistory h)) \<subseteq> set (sp_packetHistory h)" by (rule set_remove1_subset)
  ultimately show ?thesis
    using assms(1) unfolding sp_inv_def act_history act_bytes act_keeps by (auto simp: image_subset_iff)
qed

lemma fold_keeps:
  "sp_lastSentPacketNumber (fold act ps h) = sp_lastSentPacketNumber h"
  "sp_skippedPackets (fold act ps h) = sp_skippedPackets h" "sp_LargestAcked (fold act ps h) = sp_LargestAcked h"
  "sp_lossTime (fold act ps h) = sp_lossTime h" "sp_lastSentTime (fold act ps h) = sp_lastSentTime h"
  "sp_rttStats (fold act ps h) = sp_rttStats h"
  by (induction ps arbitrary: h) (simp_all add: act_keeps)

lemma fold_inv:
  "sp_inv h \<Longrightarrow> distinct ps \<Longrightarrow> set ps \<subseteq> set (sp_packetHistory h) \<Longrightarrow> sp_inv (fold act ps h)"
proof (induction ps arbitrary: h)
  case (Cons p ps)
  have "set ps \<subseteq> set (sp_packetHistory (act p h))" using Cons.prems(2,3) by (simp add: act_history subset_remove1)
  then show ?case using Cons act_inv by simp
qed simp

lemma fold_history: "sp_inv h \<Longrightarrow> set ps \<subseteq> set (sp_packetHistory h) \<Longrightarrow> distinct ps \<Longrightarrow>
    sp_packetHistory (fold act ps h) = filter (\<lambda>p. p \<notin> set ps) (sp_packetHistory h)"
proof (induction ps arbitrary: h)
  case (Cons p ps)
  have asc: "ascending_packets (sp_packetHistory h)" using Cons.prems(1) by (simp add: sp_inv_def)
  have "set ps \<subseteq> set (sp_packetHistory (act p h))" using Cons.prems(2,3) by (simp add: act_history subset_remove1)
  then show ?case
    using Cons act_inv [of h p] by (auto simp: act_history ascending_remove1(1) [OF asc] intro!: filter_cong)
qed simp

lemma fold_queue: "sp_retransmissionQueue (fold act ps h) = sp_retransmissionQueue h @ (if queues then ps else [])"
  by (induction ps arbitrary: h) (simp_all add: act_queue)

lemma fold_content:
  assumes "sp_inv h" "set ps \<subseteq> set (sp_packetHistory h)" "distinct ps"
  shows "content h = content (fold act ps h) + (if queues then {#} else mset ps)"
proof -
  have d: "distinct (sp_packetHistory h)" using assms(1) by (simp add: sp_inv_def ascending_distinct)
  have "mset (sp_packetHistory h) = mset (filter (\<lambda>p. p \<notin> set ps) (sp_packetHistory h)) + mset ps"
  proof -
    have "mset (sp_packetHistory h) = mset_set (set (sp_packetHistory h))" "mset ps = mset_set (set ps)"
      using d assms(3) by (simp_all add: mset_set_set)
    moreover have "mset (filter (\<lambda>p. p \<notin> set ps) (sp_packetHistory h)) = mset_set (set (sp_packetHistory h) - set ps)"
      using d by (metis distinct_filter mset_set_set set_diff_eq set_filter)
    ultimately show ?thesis using assms(2) by (simp add: mset_set_Diff)
  qed
  then show ?thesis unfolding content_def fold_queue fold_history [OF assms] by simp
qed

end

interpretation acked: packet_step "ackPacket A now" False for A :: "'c SendAlgorithm" and now
  by unfold_locales (simp_all add: ackPacket_def onPacketAcked_def Let_def)

interpretation lost: packet_step "losePacket A" True for A :: "'c SendAlgorithm"
  by unfold_locales (simp_all add: losePacket_def queuePacketForRetransmission_def Let_def)

interpretation rto: packet_step "queueRTO A" True for A :: "'c SendAlgorithm"
  by unfold_locales (simp_all add: queueRTO_def queuePacketForRetransmission_def Let_def)

interpretation tlp: packet_step "queuePacketForRetransmission" True
  by unfold_locales (simp_all add: queuePacketForRetransmission_def)

subsection \<open>The operations keep the invariant\<close>

lemma skipPacket_sorted:
  assumes "sorted_wrt (<) ss" "\<forall>s\<in>set ss. s < p"
  shows "sorted_wrt (<) (skipPacket p ss)" "set (skipPacket p ss) \<subseteq> insert p (set ss)"
proof -
  have *: "sorted_wrt (<) (ss @ [p])" using assms by (simp add: sorted_wrt_append)
  have "sorted_wrt (<) (tl (ss @ [p]))" using * by (cases ss) auto
  then show "sorted_wrt (<) (skipPacket p ss)" using * by (simp add: skipPacket_def Let_def)
  have "set (tl (ss @ [p])) \<subseteq> insert p (set ss)" by (cases ss) auto
  then show "set (skipPacket p ss) \<subseteq> insert p (set ss)" by (auto simp: skipPacket_def Let_def)
qed

text \<open>The numbers between the last packet and this one are remembered as skipped.\<close>

lemma skippedAfter_sorted:
  assumes "sorted_wrt (<) ss" "\<forall>s\<in>set ss. s \<le> lastSent" "lastSent < pn"
  shows "sorted_wrt (<) (skippedAfter lastSent pn ss)"
    "\<forall>s\<in>set (skippedAfter lastSent pn ss). s \<in> set ss \<or> lastSent < s \<and> s < pn"
proof -
  have "sorted_wrt (<) (fold (\<lambda>n. skipPacket (of_nat n)) [Suc (unat lastSent)..<m] ss)
    \<and> (\<forall>s\<in>set (fold (\<lambda>n. skipPacket (of_nat n)) [Suc (unat lastSent)..<m] ss).
          s \<in> set ss \<or> lastSent < s \<and> unat s < m)"
    if "Suc (unat lastSent) \<le> m" "m \<le> unat pn" for m
    using that
  proof (induction m rule: dec_induct)
    case (step m)
    define ss' where "ss' = fold (\<lambda>n. skipPacket (of_nat n)) [Suc (unat lastSent)..<m] ss"
    have m: "unat (of_nat m :: PacketNumber) = m"
    proof -
      have "m < 18446744073709551616" using step.prems unat_less_64 [of pn] by linarith
      then show ?thesis by (simp add: unsigned_of_nat take_bit_nat_eq_self)
    qed
    have IH: "sorted_wrt (<) ss'" "\<forall>s\<in>set ss'. s \<in> set ss \<or> lastSent < s \<and> unat s < m"
      using step by (auto simp: ss'_def)
    have "\<forall>s\<in>set ss'. s < of_nat m"
      using IH(2) assms(2) step m by (fastforce simp: word_less_nat_alt word_le_nat_alt)
    from skipPacket_sorted [OF IH(1) this]
    have "sorted_wrt (<) (skipPacket (of_nat m) ss')" "set (skipPacket (of_nat m) ss') \<subseteq> insert (of_nat m) (set ss')" .
    moreover have "lastSent < of_nat m" using step m by (simp add: word_less_nat_alt)
    moreover have "\<forall>s\<in>insert (of_nat m) (set ss'). s \<in> set ss \<or> lastSent < s \<and> unat s < Suc m"
      using IH(2) m \<open>lastSent < of_nat m\<close> by auto
    ultimately show ?case using step(1) by (auto simp: ss'_def upt_Suc_append)
  qed (use assms in auto)
  from this [of "unat pn"] assms(3) show "sorted_wrt (<) (skippedAfter lastSent pn ss)"
    "\<forall>s\<in>set (skippedAfter lastSent pn ss). s \<in> set ss \<or> lastSent < s \<and> s < pn"
    by (auto simp: skippedAfter_def word_less_nat_alt Suc_le_eq)
qed

text \<open>The packet as it enters the history.\<close>

definition tracked :: "int \<Rightarrow> Packet \<Rightarrow> Packet list" where
  "tracked now p =
     (let fs = stripNonRetransmittableFrames (pk_Frames p)
      in if fs = [] then [] else [p\<lparr>pk_Frames := fs, pk_SendTime := now\<rparr>])"

lemma updateLossDetectionAlarm_keeps [simp]:
  "sp_packetHistory (updateLossDetectionAlarm A h) = sp_packetHistory h"
  "sp_retransmissionQueue (updateLossDetectionAlarm A h) = sp_retransmissionQueue h"
  "sp_bytesInFlight (updateLossDetectionAlarm A h) = sp_bytesInFlight h"
  "sp_skippedPackets (updateLossDetectionAlarm A h) = sp_skippedPackets h"
  "sp_lastSentPacketNumber (updateLossDetectionAlarm A h) = sp_lastSentPacketNumber h"
  "sp_LargestAcked (updateLossDetectionAlarm A h) = sp_LargestAcked h"
  by (simp_all add: updateLossDetectionAlarm_def)

lemma alarm_inv [simp]: "sp_inv (updateLossDetectionAlarm A h) = sp_inv h" "content (updateLossDetectionAlarm A h) = content h"
  by (simp_all add: sp_inv_def content_def)

lemma SentPacket_success:
  assumes "SentPacket A now p h = (None, h')"
  shows "sp_lastSentPacketNumber h < pk_PacketNumber p"
    "\<exists>c. h' = updateLossDetectionAlarm A ((trackPacket now (p\<lparr>pk_Frames := stripNonRetransmittableFrames (pk_Frames p)\<rparr>)
      (h\<lparr>sp_skippedPackets := skippedAfter (sp_lastSentPacketNumber h) (pk_PacketNumber p) (sp_skippedPackets h),
         sp_lastSentPacketNumber := pk_PacketNumber p, sp_packets := sp_packets h + 1, sp_lastSentTime := now\<rparr>))
      \<lparr>sp_congestion := c\<rparr>)"
proof -
  show *: "sp_lastSentPacketNumber h < pk_PacketNumber p"
    using assms unfolding SentPacket_def by (cases "pk_PacketNumber p \<le> sp_lastSentPacketNumber h") simp_all
  have "\<not> length (sp_retransmissionQueue h) + length (sp_packetHistory h) + 1 > MaxTrackedSentPackets"
    using assms * unfolding SentPacket_def by (metis fail_with_def not_less option.distinct(1) prod.inject)
  then show "\<exists>c. h' = updateLossDetectionAlarm A ((trackPacket now (p\<lparr>pk_Frames := stripNonRetransmittableFrames (pk_Frames p)\<rparr>)
      (h\<lparr>sp_skippedPackets := skippedAfter (sp_lastSentPacketNumber h) (pk_PacketNumber p) (sp_skippedPackets h),
         sp_lastSentPacketNumber := pk_PacketNumber p, sp_packets := sp_packets h + 1, sp_lastSentTime := now\<rparr>))
      \<lparr>sp_congestion := c\<rparr>)"
    using assms leD [OF less_imp_le] * unfolding SentPacket_def Let_def by (metis done_ok_def not_less prod.inject)
qed

lemma trackPacket_fields:
  fixes p :: Packet
  defines "p' \<equiv> p\<lparr>pk_Frames := stripNonRetransmittableFrames (pk_Frames p)\<rparr>"
  shows "sp_packetHistory (trackPacket now p' h) = sp_packetHistory h @ tracked now p"
    "sp_bytesInFlight (trackPacket now p' h) = sp_bytesInFlight h + sum_list (map pk_Length (tracked now p))"
    "sp_retransmissionQueue (trackPacket now p' h) = sp_retransmissionQueue h"
    "sp_lastSentPacketNumber (trackPacket now p' h) = sp_lastSentPacketNumber h"
    "sp_skippedPackets (trackPacket now p' h) = sp_skippedPackets h"
    "sp_LargestAcked (trackPacket now p' h) = sp_LargestAcked h"
  by (simp_all add: trackPacket_def tracked_def p'_def Let_def)

lemma SentPacket_ok:
  assumes "SentPacket A now p h = (None, h')" "sp_inv h"
  shows "sp_inv h'" "sp_packetHistory h' = sp_packetHistory h @ tracked now p"
    "sp_retransmissionQueue h' = sp_retransmissionQueue h" "sp_lastSentPacketNumber h' = pk_PacketNumber p"
    "sp_lastSentPacketNumber h < pk_PacketNumber p"
proof -
  show less: "sp_lastSentPacketNumber h < pk_PacketNumber p" by (rule SentPacket_success(1) [OF assms(1)])
  have eqs: "sp_packetHistory h' = sp_packetHistory h @ tracked now p"
    "sp_retransmissionQueue h' = sp_retransmissionQueue h" "sp_lastSentPacketNumber h' = pk_PacketNumber p"
    "sp_bytesInFlight h' = sp_bytesInFlight h + sum_list (map pk_Length (tracked now p))"
    "sp_skippedPackets h' = skippedAfter (sp_lastSentPacketNumber h) (pk_PacketNumber p) (sp_skippedPackets h)"
    "sp_LargestAcked h' = sp_LargestAcked h"
    using SentPacket_success(2) [OF assms(1)] by (auto simp: trackPacket_fields)
  then show "sp_packetHistory h' = sp_packetHistory h @ tracked now p"
    "sp_retransmissionQueue h' = sp_retransmissionQueue h" "sp_lastSentPacketNumber h' = pk_PacketNumber p" by simp_all
  have inv: "ascending_packets (sp_packetHistory h)"
    "\<forall>q\<in>set (sp_packetHistory h). 0 < pk_PacketNumber q \<and> pk_PacketNumber q \<le> sp_lastSentPacketNumber h \<and> pk_Frames q \<noteq> []"
    "sp_bytesInFlight h = sum_list (map pk_Length (sp_packetHistory h))"
    "sorted_wrt (<) (sp_skippedPackets h)" "\<forall>s\<in>set (sp_skippedPackets h). s \<le> sp_lastSentPacketNumber h"
    "\<forall>s\<in>set (sp_skippedPackets h). s \<notin> pk_PacketNumber ` set (sp_packetHistory h)"
    "sp_LargestAcked h \<le> sp_lastSentPacketNumber h"
    using assms(2) by (simp_all add: sp_inv_def)
  have t: "\<forall>q\<in>set (tracked now p). pk_PacketNumber q = pk_PacketNumber p \<and> pk_Frames q \<noteq> []" "length (tracked now p) \<le> 1"
    by (simp_all add: tracked_def Let_def)
  have "ascending_packets (tracked now p)" using t(2) by (cases "tracked now p") auto
  then have 1: "ascending_packets (sp_packetHistory h')"
    using inv(1,2) t less unfolding eqs sorted_wrt_append by auto
  have 2: "\<forall>q\<in>set (sp_packetHistory h'). 0 < pk_PacketNumber q \<and> pk_PacketNumber q \<le> sp_lastSentPacketNumber h' \<and> pk_Frames q \<noteq> []"
    using inv(2) t less unfolding eqs by (auto simp: le_less_trans)
  note skip = skippedAfter_sorted [OF inv(4,5) less]
  have 3: "\<forall>s\<in>set (sp_skippedPackets h'). s \<le> sp_lastSentPacketNumber h' \<and> s \<notin> pk_PacketNumber ` set (sp_packetHistory h')"
  proof (intro ballI conjI)
    fix s assume "s \<in> set (sp_skippedPackets h')"
    then have s: "s \<in> set (sp_skippedPackets h) \<or> sp_lastSentPacketNumber h < s \<and> s < pk_PacketNumber p"
      using skip(2) unfolding eqs by blast
    then show "s \<le> sp_lastSentPacketNumber h'" using inv(5) less unfolding eqs by auto
    have "s \<noteq> pk_PacketNumber q" if q: "q \<in> set (sp_packetHistory h)" for q
    proof
      assume "s = pk_PacketNumber q"
      then have "s \<le> sp_lastSentPacketNumber h" "s \<notin> set (sp_skippedPackets h)" using q inv(2,6) by blast+
      then show False using s by (auto dest: leD)
    qed
    moreover have "s < pk_PacketNumber p" using s inv(5) less by (meson order.strict_trans1)
    ultimately show "s \<notin> pk_PacketNumber ` set (sp_packetHistory h')"
      using t(1) unfolding eqs by auto
  qed
  show "sp_inv h'"
    unfolding sp_inv_def using 1 2 3 skip(1) inv(3,7) less by (simp add: eqs)
qed

lemma detectLost_loop_sub:
  "set (fst (detectLost_loop now d la ps lt n)) \<subseteq> set ps \<and> (distinct ps \<longrightarrow> distinct (fst (detectLost_loop now d la ps lt n)))"
  by (induction now d la ps lt n rule: detectLost_loop.induct) (auto simp: Let_def split: prod.splits)

lemma sp_inv_cong:
  assumes "sp_packetHistory h = sp_packetHistory h'" "sp_bytesInFlight h = sp_bytesInFlight h'"
    "sp_lastSentPacketNumber h = sp_lastSentPacketNumber h'" "sp_skippedPackets h = sp_skippedPackets h'"
    "sp_LargestAcked h = sp_LargestAcked h'"
  shows "sp_inv h = sp_inv h'"
  by (simp add: sp_inv_def assms)

lemma detectLostPackets_ok:
  assumes "sp_inv h"
  shows "sp_inv (detectLostPackets A now h)" "content (detectLostPackets A now h) = content h"
proof -
  define ps where "ps = fst (detectLost_loop now (delayUntilLost (sp_rttStats h)) (sp_LargestAcked h) (sp_packetHistory h) 0 (sp_losses h))"
  obtain lt n where eq: "detectLostPackets A now h = fold (losePacket A) ps (h\<lparr>sp_lossTime := lt, sp_losses := n\<rparr>)"
    by (cases "detectLost_loop now (delayUntilLost (sp_rttStats h)) (sp_LargestAcked h) (sp_packetHistory h) 0 (sp_losses h)")
      (simp add: detectLostPackets_def ps_def)
  have inv: "sp_inv (h\<lparr>sp_lossTime := lt, sp_losses := n\<rparr>)" using assms by (simp add: sp_inv_def)
  have "distinct (sp_packetHistory h)" using assms by (simp add: sp_inv_def ascending_distinct)
  then have ps: "set ps \<subseteq> set (sp_packetHistory h)" "distinct ps" using detectLost_loop_sub unfolding ps_def by blast+
  show "sp_inv (detectLostPackets A now h)" unfolding eq using ps by (intro lost.fold_inv [OF inv]) simp_all
  show "content (detectLostPackets A now h) = content h"
    unfolding eq using lost.fold_content [OF inv, of ps A] ps by (simp add: content_def)
qed

lemma SetInflightAsLost_ok:
  assumes "sp_inv h"
  shows "sp_inv (SetInflightAsLost A h)" "content (SetInflightAsLost A h) = content h"
proof -
  define ps where "ps = takeWhile (\<lambda>p. \<not> pk_PacketNumber p > sp_LargestAcked h) (sp_packetHistory h)"
  obtain n where eq: "SetInflightAsLost A h = fold (losePacket A) ps (h\<lparr>sp_losses := n\<rparr>)"
    by (simp add: SetInflightAsLost_def ps_def Let_def)
  have inv: "sp_inv (h\<lparr>sp_losses := n\<rparr>)" using assms by (simp add: sp_inv_def)
  have "distinct (sp_packetHistory h)" using assms by (simp add: sp_inv_def ascending_distinct)
  then have ps: "set ps \<subseteq> set (sp_packetHistory h)" "distinct ps"
    by (auto simp: ps_def dest: set_takeWhileD)
  show "sp_inv (SetInflightAsLost A h)" unfolding eq using ps by (intro lost.fold_inv [OF inv]) simp_all
  show "content (SetInflightAsLost A h) = content h"
    unfolding eq using lost.fold_content [OF inv, of ps A] ps by (simp add: content_def)
qed

lemma retransmitAllPackets_ok:
  assumes "sp_inv h"
  shows "sp_inv (retransmitAllPackets A h)" "content (retransmitAllPackets A h) = content h"
proof -
  define h1 where "h1 = fold (queueRTO A) (sp_packetHistory h) h"
  have d: "distinct (sp_packetHistory h)" using assms by (simp add: sp_inv_def ascending_distinct)
  have "sp_inv h1" unfolding h1_def using d by (intro rto.fold_inv [OF assms]) simp_all
  moreover have "content h1 = content h" unfolding h1_def using rto.fold_content [OF assms, of "sp_packetHistory h" A] d by simp
  ultimately show "sp_inv (retransmitAllPackets A h)" "content (retransmitAllPackets A h) = content h"
    by (simp_all add: retransmitAllPackets_def retransmissionTimeout_def sp_inv_def content_def flip: h1_def)
qed

lemma retransmitOldestPacket_ok:
  assumes "sp_inv h"
  shows "sp_inv (retransmitOldestPacket A h)" "content (retransmitOldestPacket A h) = content h"
proof -
  have "sp_inv (retransmitOldestPacket A h) \<and> content (retransmitOldestPacket A h) = content h"
  proof (cases "sp_packetHistory h")
    case (Cons p ps)
    then show ?thesis
      using rto.act_inv [OF assms, of p A] rto.fold_content [OF assms, of "[p]" A] by (simp add: retransmitOldestPacket_def)
  qed (use assms in \<open>simp add: retransmitOldestPacket_def\<close>)
  then show "sp_inv (retransmitOldestPacket A h)" "content (retransmitOldestPacket A h) = content h" by auto
qed

lemma retransmitTLP_ok:
  assumes "sp_inv h"
  shows "sp_inv (retransmitTLP h)" "content (retransmitTLP h) = content h"
  using tlp.act_inv [OF assms, of "last (sp_packetHistory h)"] tlp.fold_content [OF assms, of "[last (sp_packetHistory h)]"] assms
  by (auto simp: retransmitTLP_def)

lemma OnAlarm_ok:
  assumes "sp_inv h"
  shows "sp_inv (sentPacketHandler_OnAlarm A cb now h) \<and> content (sentPacketHandler_OnAlarm A cb now h) = content h"
proof -
  have tlp': "sp_inv ((retransmitTLP h)\<lparr>sp_tlpCount := n\<rparr>)" "content ((retransmitTLP h)\<lparr>sp_tlpCount := n\<rparr>) = content h" for n
    using retransmitTLP_ok [OF assms] by (simp_all add: sp_inv_def content_def)
  have two: "sp_inv (retransmitOldestTwoPackets A h)" "content (retransmitOldestTwoPackets A h) = content h"
    using retransmitOldestPacket_ok [OF retransmitOldestPacket_ok(1) [OF assms], of A A] retransmitOldestPacket_ok [OF assms, of A]
    by (simp_all add: retransmitOldestTwoPackets_def retransmissionTimeout_def sp_inv_def content_def)
  have cnt: "sp_inv h1 \<Longrightarrow> sp_inv (h1\<lparr>sp_rtoCount := n\<rparr>)" "content (h1\<lparr>sp_rtoCount := n\<rparr>) = content h1"
    for h1 :: "'a sentPacketHandler" and n by (simp_all add: sp_inv_def content_def)
  have al: "sp_inv (h\<lparr>sp_alarm := 0\<rparr>)" "content (h\<lparr>sp_alarm := 0\<rparr>) = content h"
    using assms by (simp_all add: sp_inv_def content_def)
  show ?thesis
    unfolding sentPacketHandler_OnAlarm_def Let_def
    using detectLostPackets_ok [OF assms] tlp' two retransmitAllPackets_ok [OF assms] al
    by (auto intro!: cnt simp: cnt(2))
qed

lemma garbage_ok [simp]:
  "content (garbageCollectSkippedPackets h) = content h"
  by (simp add: garbageCollectSkippedPackets_def content_def)

lemma garbage_inv: "sp_inv h \<Longrightarrow> sp_inv (garbageCollectSkippedPackets h)"
  by (auto simp: garbageCollectSkippedPackets_def sp_inv_def sorted_wrt_drop dest: in_set_dropD)

text \<open>The part shared by both acknowledging frames.\<close>

lemma ack_fold_ok:
  fixes P :: "PacketNumber \<Rightarrow> bool"
  assumes "sp_inv h"
  defines "ps \<equiv> filter (\<lambda>p. P (pk_PacketNumber p)) (sp_packetHistory h)"
  shows "sp_inv (fold (ackPacket A now) ps h)" "content h = content (fold (ackPacket A now) ps h) + mset ps"
proof -
  have ps: "set ps \<subseteq> set (sp_packetHistory h)" "distinct ps"
    using assms(1) by (auto simp: ps_def sp_inv_def ascending_distinct)
  show "sp_inv (fold (ackPacket A now) ps h)" using ps by (intro acked.fold_inv [OF assms(1)])
  show "content h = content (fold (ackPacket A now) ps h) + mset ps"
    using acked.fold_content [OF assms(1) ps, of A now] by simp
qed

lemma determineNewlyAcked_eq:
  assumes "sp_inv h" "ranges_wf (ack_LargestAcked f) (ack_LowestAcked f) (ack_AckRanges f)"
  shows "determineNewlyAckedPackets f h = Inr (filter (\<lambda>p. AckFrame_AcksPacket f (pk_PacketNumber p)) (sp_packetHistory h))"
  using newlyAcked_loop_eq [OF _ assms(2), of "sp_packetHistory h"] assms(1)
  by (simp add: determineNewlyAckedPackets_def AckFrame_AcksPacket_def sp_inv_def)

lemma determineNewlyAckedClosePath_eq:
  assumes "sp_inv h" "ranges_wf (cp_LargestAcked f) (cp_LowestAcked f) (cp_AckRanges f)"
  shows "determineNewlyAckedPacketsClosePath f h =
    Inr (filter (\<lambda>p. ClosePathFrame_AcksPacket f (pk_PacketNumber p)) (sp_packetHistory h))"
  using newlyAcked_loop_eq [OF _ assms(2), of "sp_packetHistory h"] assms(1)
  by (simp add: determineNewlyAckedPacketsClosePath_def ClosePathFrame_AcksPacket_def sp_inv_def)

definition acked_by :: "AckFrame \<Rightarrow> 'c sentPacketHandler \<Rightarrow> Packet list" where
  "acked_by f h = filter (\<lambda>p. AckFrame_AcksPacket f (pk_PacketNumber p)) (sp_packetHistory h)"

definition closed_by :: "ClosePathFrame \<Rightarrow> 'c sentPacketHandler \<Rightarrow> Packet list" where
  "closed_by f h = filter (\<lambda>p. ClosePathFrame_AcksPacket f (pk_PacketNumber p)) (sp_packetHistory h)"

lemma applyAck_ok:
  assumes inv: "sp_inv h" and wf: "ranges_wf (ack_LargestAcked f) (ack_LowestAcked f) (ack_AckRanges f)"
  shows "\<exists>h'. applyAck A now f rcvTime h = (None, h') \<and> sp_inv h' \<and> content h = content h' + mset (acked_by f h)"
proof -
  obtain c r where h2: "sampleRTT A now f rcvTime h = h\<lparr>sp_congestion := c, sp_rttStats := r\<rparr>"
  proof (cases "findSent (ack_LargestAcked f) (sp_packetHistory h)")
    case None
    then show thesis using that [where c = "sp_congestion h" and r = "sp_rttStats h"] by (simp add: sampleRTT_def maybeUpdateRTT_def)
  next
    case (Some p)
    show thesis
      by (rule that [where c = "sa_MaybeExitSlowStart A (UpdateRTT (timeSub rcvTime (pk_SendTime p)) (ack_DelayTime f) now (sp_rttStats h))
          (sp_congestion h)" and r = "UpdateRTT (timeSub rcvTime (pk_SendTime p)) (ack_DelayTime f) now (sp_rttStats h)"])
        (simp add: sampleRTT_def maybeUpdateRTT_def Some)
  qed
  define h2 where "h2 = h\<lparr>sp_congestion := c, sp_rttStats := r\<rparr>"
  have inv2: "sp_inv h2" "content h2 = content h" "acked_by f h2 = acked_by f h"
    using inv by (simp_all add: h2_def sp_inv_def content_def acked_by_def)
  define h3 where "h3 = fold (ackPacket A now) (acked_by f h2) h2"
  have h3: "sp_inv h3" "content h2 = content h3 + mset (acked_by f h2)"
    using ack_fold_ok [OF inv2(1), where P = "AckFrame_AcksPacket f" and A = A and now = now] by (simp_all add: h3_def acked_by_def)
  define h4 where "h4 = garbageCollectSkippedPackets (updateLossDetectionAlarm A (detectLostPackets A now h3))"
  have h4: "sp_inv h4" "content h4 = content h3"
    using detectLostPackets_ok [OF h3(1)] by (simp_all add: h4_def garbage_inv)
  define h5 where "h5 = h4\<lparr>sp_stopWaitingManager := stopWaitingManager_ReceivedAck f (sp_stopWaitingManager h4)\<rparr>"
  have h5: "sp_inv h5" "content h5 = content h4" using h4 by (simp_all add: h5_def sp_inv_def content_def)
  have "applyAck A now f rcvTime h = (None, h5)"
    using determineNewlyAcked_eq [OF inv2(1) wf, folded acked_by_def]
    by (simp add: applyAck_def h2 Let_def h3_def h4_def h5_def flip: h2_def)
  then show ?thesis using h5 h4 h3 inv2 by simp
qed

lemma pred_less:
  assumes "0 < (p :: u64)" "x \<le> p - 1"
  shows "x < p"
proof -
  have "unat (p - 1) = unat p - 1" using assms(1) unat_minus_le [of 1 p] by (simp add: word_le_nat_alt word_less_nat_alt)
  then show ?thesis using assms by (simp add: word_le_nat_alt word_less_nat_alt)
qed

lemma ReceivedAck_ok:
  assumes inv: "sp_inv h" and wf: "ranges_wf (ack_LargestAcked f) (ack_LowestAcked f) (ack_AckRanges f)"
    and eq: "ReceivedAck A now f n rcvTime h = (e, h')"
  shows "sp_inv h' \<and> content h = content h' + (if e = None then mset (acked_by f h) else {#})"
proof -
  define h1 where "h1 = h\<lparr>sp_largestReceivedPacketWithAck := n\<rparr>"
  define h2 where "h2 = h1\<lparr>sp_LargestAcked := ack_LargestAcked f\<rparr>"
  have h1: "sp_inv h1" "content h1 = content h" "acked_by f h1 = acked_by f h"
    using inv by (simp_all add: h1_def sp_inv_def content_def acked_by_def)
  consider (unsent) "ack_LargestAcked f > sp_lastSentPacketNumber h"
    | (dup) "\<not> ack_LargestAcked f > sp_lastSentPacketNumber h" "n \<le> sp_largestReceivedPacketWithAck h"
    | (go) "\<not> ack_LargestAcked f > sp_lastSentPacketNumber h" "\<not> n \<le> sp_largestReceivedPacketWithAck h" by blast
  then show ?thesis
  proof cases
    case unsent
    then show ?thesis using eq inv by (auto simp: ReceivedAck_def)
  next
    case dup
    then show ?thesis using eq inv by (auto simp: ReceivedAck_def)
  next
    case go
    have R: "ReceivedAck A now f n rcvTime h =
      (if ack_LargestAcked f \<le> largestInOrderAcked h1 then done_ok h1
       else if skippedPacketsAcked f h2 then fail_with ErrAckForSkippedPacket h2 else applyAck A now f rcvTime h2)"
      unfolding ReceivedAck_def Let_def h1_def h2_def using go by simp
    show ?thesis
    proof (cases "ack_LargestAcked f \<le> largestInOrderAcked h1")
      case True
      have "acked_by f h1 = []"
      proof (cases "sp_packetHistory h1")
        case (Cons p ps)
        then have "0 < pk_PacketNumber p" "ascending_packets (p # ps)" using h1(1) by (auto simp: sp_inv_def)
        moreover have "ack_LargestAcked f \<le> pk_PacketNumber p - 1" using True Cons by (simp add: largestInOrderAcked_def)
        ultimately have "ack_LargestAcked f < pk_PacketNumber q" if "q \<in> set (p # ps)" for q
          using that pred_less [of "pk_PacketNumber p" "ack_LargestAcked f"] by (auto intro: less_trans)
        then show ?thesis by (auto simp: acked_by_def Cons AckFrame_AcksPacket_def acksPacket_def filter_empty_conv)
      qed (simp add: acked_by_def)
      then show ?thesis using eq h1 R True by auto
    next
      case False
      have h2: "sp_inv h2" "content h2 = content h" "acked_by f h2 = acked_by f h"
        using h1 go by (simp_all add: h2_def sp_inv_def content_def acked_by_def h1_def)
      show ?thesis using eq h2 R False applyAck_ok [OF h2(1) wf, of A now rcvTime] by (auto split: if_splits)
    qed
  qed
qed

lemma ReceivedClosePath_ok:
  assumes inv: "sp_inv h" and wf: "ranges_wf (cp_LargestAcked f) (cp_LowestAcked f) (cp_AckRanges f)"
    and eq: "ReceivedClosePath A now f n h = (e, h')"
  shows "sp_inv h' \<and> content h = content h' + (if e = None then mset (closed_by f h) else {#})"
proof -
  define h1 where "h1 = h\<lparr>sp_largestReceivedPacketWithAck := n\<rparr>"
  have h1: "sp_inv h1" "content h1 = content h" "closed_by f h1 = closed_by f h"
    using inv by (simp_all add: h1_def sp_inv_def content_def closed_by_def)
  define h2 where "h2 = fold (ackPacket A now) (closed_by f h1) h1"
  have h2: "sp_inv h2" "content h1 = content h2 + mset (closed_by f h1)"
    using ack_fold_ok [OF h1(1), where P = "ClosePathFrame_AcksPacket f" and A = A and now = now]
    by (simp_all add: h2_def closed_by_def)
  note h3 = SetInflightAsLost_ok [OF h2(1), of A]
  have "ReceivedClosePath A now f n h =
    (if cp_LargestAcked f > sp_lastSentPacketNumber h then fail_with errAckForUnsentPacket h
     else if n \<le> sp_largestReceivedPacketWithAck h then fail_with ErrDuplicateOrOutOfOrderAck h
     else if skippedPacketsAckedClosePath f h1 then fail_with ErrAckForSkippedPacket h1
     else done_ok (garbageCollectSkippedPackets (SetInflightAsLost A h2)))"
    using determineNewlyAckedClosePath_eq [OF h1(1) wf, folded closed_by_def]
    by (simp add: ReceivedClosePath_def Let_def h2_def flip: h1_def)
  then show ?thesis using eq inv h1 h2 h3 by (auto simp: garbage_inv split: if_splits)
qed

end
