(* ===== verification/SentSafety.thy ===== *)
theory SentSafety
  imports SentPackets
begin

text \<open>
  Runs of the handler of sent packets: what it answers for, which acknowledgements it accepts, when it retransmits, and
  how the congestion controller limits it.
\<close>

section \<open>Runs of the handler\<close>

text \<open>
  The states of a handler, with the history of the run: \<open>N\<close> the numbers of all packets that were sent, \<open>T\<close> the
  packets it was asked to answer for, \<open>X\<close> the packets the peer acknowledged, \<open>D\<close> the packets
  handed out for retransmission. \<open>I\<close> are the initial states of the congestion controller. Frames from the peer have passed the parser, so their ranges are well-formed.
\<close>

inductive sp_reachable :: "'c SendAlgorithm \<Rightarrow> ('c \<Rightarrow> bool) \<Rightarrow> 'c sentPacketHandler \<Rightarrow> PacketNumber set \<Rightarrow> Packet list \<Rightarrow> Packet list
    \<Rightarrow> Packet list \<Rightarrow> bool" for A I where
  start: "I cong \<Longrightarrow> sp_reachable A I (NewSentPacketHandler rttStats cong) {} [] [] []"
| sent: "sp_reachable A I h N T X D \<Longrightarrow> SentPacket A now p h = (None, h')
    \<Longrightarrow> sp_reachable A I h' (insert (pk_PacketNumber p) N) (T @ tracked now p) X D"
| ack: "sp_reachable A I h N T X D \<Longrightarrow> ranges_wf (ack_LargestAcked f) (ack_LowestAcked f) (ack_AckRanges f)
    \<Longrightarrow> ReceivedAck A now f n rcvTime h = (e, h')
    \<Longrightarrow> sp_reachable A I h' N T (X @ (if e = None then acked_by f h else [])) D"
| closePath: "sp_reachable A I h N T X D \<Longrightarrow> ranges_wf (cp_LargestAcked c) (cp_LowestAcked c) (cp_AckRanges c)
    \<Longrightarrow> ReceivedClosePath A now c n h = (e, h')
    \<Longrightarrow> sp_reachable A I h' N T (X @ (if e = None then closed_by c h else [])) D"
| alarm: "sp_reachable A I h N T X D \<Longrightarrow> sp_reachable A I (sentPacketHandler_OnAlarm A cb now h) N T X D"
| inflightLost: "sp_reachable A I h N T X D \<Longrightarrow> sp_reachable A I (SetInflightAsLost A h) N T X D"
| dequeue: "sp_reachable A I h N T X D \<Longrightarrow> DequeuePacketForRetransmission h = (Some p, h')
    \<Longrightarrow> sp_reachable A I h' N T X (D @ [p])"
| duplicate: "sp_reachable A I h N T X D \<Longrightarrow> sp_reachable A I (DuplicatePacket p h) N (T @ [p]) X D"
| stopWaiting: "sp_reachable A I h N T X D \<Longrightarrow> sp_reachable A I (snd (sentPacketHandler_GetStopWaitingFrame force h)) N T X D"

lemma sp_reachable_inv:
  "sp_reachable A I h N T X D \<Longrightarrow> sp_inv h \<and> mset T = content h + mset X + mset D"
proof (induction rule: sp_reachable.induct)
  case (start rttStats cong)
  then show ?case by (simp add: NewSentPacketHandler_def sp_inv_def content_def)
next
  case (sent h N T X D now p h')
  then show ?case using SentPacket_ok [OF sent(2)] by (simp add: content_def)
next
  case (ack h N T X D f now n rcvTime e h')
  then show ?case using ReceivedAck_ok [OF _ ack(2,3)] by (auto simp: ac_simps)
next
  case (closePath h N T X D c now n e h')
  then show ?case using ReceivedClosePath_ok [OF _ closePath(2,3)] by (auto simp: ac_simps)
next
  case (alarm h N T X D cb now)
  then show ?case using OnAlarm_ok [of h A cb now] by simp
next
  case (inflightLost h N T X D)
  then show ?case using SetInflightAsLost_ok [of h A] by simp
next
  case (dequeue h N T X D p h')
  obtain q where "sp_retransmissionQueue h = p # q"
      "h' = h\<lparr>sp_retransmissionQueue := q, sp_retransmissions := sp_retransmissions h + 1\<rparr>"
    using dequeue(2) by (auto simp: DequeuePacketForRetransmission_def split: list.splits)
  then show ?case using dequeue(3) by (simp add: content_def sp_inv_def)
next
  case (duplicate h N T X D p)
  then show ?case by (simp add: DuplicatePacket_def content_def sp_inv_def)
next
  case (stopWaiting h N T X D force)
  then show ?case by (simp add: sentPacketHandler_GetStopWaitingFrame_def content_def sp_inv_def split: prod.splits)
qed

text \<open>
  C3: No packet is forgotten. In every run of the handler, every packet it was asked to answer for is, as often as it
  was handed in, either still in flight, or queued for retransmission, or handed out for retransmission, or
  it was acknowledged: its number is in a range of a frame of the peer that was accepted.
\<close>

theorem no_packet_forgotten:
  assumes "sp_reachable A I h N T X D"
  shows "mset T = mset (sp_packetHistory h) + mset (sp_retransmissionQueue h) + mset X + mset D"
  using sp_reachable_inv [OF assms] by (simp add: content_def)

text \<open>
  C7: Bytes in flight. In every run the history is sorted by packet number, every number in it was sent, and
  \<^verbatim>\<open>GetBytesInFlight\<close>, which congestion control compares with its window, is the sum of the lengths of the packets
  in it: every path that takes a packet out of the history subtracts its length exactly once.
\<close>

theorem bytes_in_flight_exact:
  assumes "sp_reachable A I h N T X D"
  shows "GetBytesInFlight h = sum_list (map pk_Length (sp_packetHistory h))
    \<and> sorted_wrt (<) (map pk_PacketNumber (sp_packetHistory h))
    \<and> (\<forall>p\<in>set (sp_packetHistory h). pk_PacketNumber p \<le> sp_lastSentPacketNumber h)"
  using sp_reachable_inv [OF assms] by (simp add: sp_inv_def GetBytesInFlight_def sorted_wrt_map)

text \<open>
  C5: The walk through the history finds the acknowledged packets. In every run and for every accepted ACK or CLOSE_PATH
  frame, the single pass over the history and the ranges returns exactly the packets of the history for which
  \<^verbatim>\<open>AcksPacket\<close> holds, in order, and never the error for a wrong packet.
\<close>

theorem newly_acked_equivalent:
  assumes "sp_reachable A I h N T X D"
  shows "(ranges_wf (ack_LargestAcked f) (ack_LowestAcked f) (ack_AckRanges f) \<longrightarrow>
      determineNewlyAckedPackets f h = Inr (filter (\<lambda>p. AckFrame_AcksPacket f (pk_PacketNumber p)) (sp_packetHistory h)))
    \<and> (ranges_wf (cp_LargestAcked c) (cp_LowestAcked c) (cp_AckRanges c) \<longrightarrow>
      determineNewlyAckedPacketsClosePath c h =
        Inr (filter (\<lambda>p. ClosePathFrame_AcksPacket c (pk_PacketNumber p)) (sp_packetHistory h)))"
  using sp_reachable_inv [OF assms] determineNewlyAcked_eq determineNewlyAckedClosePath_eq by blast

section \<open>Honest acknowledgements are accepted\<close>

text \<open>No operation but sending changes the last number, or adds to the skipped ones.\<close>

definition keeps_numbers :: "'c sentPacketHandler \<Rightarrow> 'c sentPacketHandler \<Rightarrow> bool" where
  "keeps_numbers h h' \<longleftrightarrow> sp_lastSentPacketNumber h' = sp_lastSentPacketNumber h
     \<and> set (sp_skippedPackets h') \<subseteq> set (sp_skippedPackets h)"

lemma keeps_refl [simp]: "keeps_numbers h h"
  by (simp add: keeps_numbers_def)

lemma keeps_trans: "keeps_numbers h h1 \<Longrightarrow> keeps_numbers h1 h2 \<Longrightarrow> keeps_numbers h h2"
  by (auto simp: keeps_numbers_def)

lemma keeps_update [simp]: "keeps_numbers h (updateLossDetectionAlarm A h1) = keeps_numbers h h1"
  by (simp add: keeps_numbers_def)

lemma keeps_garbage: "keeps_numbers h h1 \<Longrightarrow> keeps_numbers h (garbageCollectSkippedPackets h1)"
  by (auto simp: keeps_numbers_def garbageCollectSkippedPackets_def dest: in_set_dropD)

lemma keeps_detectLost: "keeps_numbers h (detectLostPackets A now h)"
  by (simp add: detectLostPackets_def keeps_numbers_def lost.fold_keeps split: prod.splits)

lemma keeps_SetInflightAsLost: "keeps_numbers h (SetInflightAsLost A h)"
  by (simp add: SetInflightAsLost_def keeps_numbers_def lost.fold_keeps Let_def)

lemma keeps_OnAlarm: "keeps_numbers h (sentPacketHandler_OnAlarm A cb now h)"
  using keeps_detectLost [of h A now]
  by (auto simp: sentPacketHandler_OnAlarm_def Let_def keeps_numbers_def retransmitTLP_def queuePacketForRetransmission_def
      retransmitAllPackets_def retransmissionTimeout_def rto.fold_keeps retransmitOldestTwoPackets_def
      retransmitOldestPacket_def rto.act_keeps split: list.splits)

lemma sampleRTT_keeps [simp]:
  "sp_lastSentPacketNumber (sampleRTT A now f rcvTime h) = sp_lastSentPacketNumber h"
  "sp_skippedPackets (sampleRTT A now f rcvTime h) = sp_skippedPackets h"
  by (simp_all add: sampleRTT_def maybeUpdateRTT_def split: option.splits)

lemma keeps_applyAck: "keeps_numbers h (snd (applyAck A now f rcvTime h))"
proof (cases "determineNewlyAckedPackets f (sampleRTT A now f rcvTime h)")
  case (Inr ps)
  define h2 where "h2 = fold (ackPacket A now) ps (sampleRTT A now f rcvTime h)"
  have "keeps_numbers h h2" by (simp add: h2_def keeps_numbers_def acked.fold_keeps)
  then have "keeps_numbers h (updateLossDetectionAlarm A (detectLostPackets A now h2))"
    using keeps_trans [OF _ keeps_detectLost] by simp
  from keeps_garbage [OF this] show ?thesis unfolding h2_def by (simp add: applyAck_def Inr Let_def keeps_numbers_def)
qed (simp add: applyAck_def keeps_numbers_def Let_def)

lemma keeps_ReceivedAck: "keeps_numbers h (snd (ReceivedAck A now f n rcvTime h))"
  using keeps_applyAck [of "h\<lparr>sp_largestReceivedPacketWithAck := n, sp_LargestAcked := ack_LargestAcked f\<rparr>" A now f rcvTime]
  by (simp add: ReceivedAck_def keeps_numbers_def Let_def)

lemma keeps_ReceivedClosePath: "keeps_numbers h (snd (ReceivedClosePath A now f n h))"
proof -
  have "keeps_numbers h (garbageCollectSkippedPackets (SetInflightAsLost A
      (fold (ackPacket A now) ps (h\<lparr>sp_largestReceivedPacketWithAck := n\<rparr>))))" for ps
    by (intro keeps_garbage keeps_trans [OF _ keeps_SetInflightAsLost]) (simp add: keeps_numbers_def acked.fold_keeps)
  then show ?thesis
    by (simp add: ReceivedClosePath_def Let_def keeps_numbers_def split: sum.splits)
qed

lemma sp_reachable_numbers:
  "sp_reachable A I h N T X D \<Longrightarrow> set (sp_skippedPackets h) \<inter> N = {} \<and> (\<forall>n\<in>N. n \<le> sp_lastSentPacketNumber h)"
proof (induction rule: sp_reachable.induct)
  case (sent h N T X D now p h')
  have inv: "sp_inv h" using sp_reachable_inv [OF sent(1)] by simp
  note ok = SentPacket_ok [OF sent(2) inv]
  have sk: "sp_skippedPackets h' = skippedAfter (sp_lastSentPacketNumber h) (pk_PacketNumber p) (sp_skippedPackets h)"
    using SentPacket_success(2) [OF sent(2)] by (auto simp: trackPacket_fields)
  have "\<forall>s\<in>set (sp_skippedPackets h'). s \<in> set (sp_skippedPackets h) \<or> sp_lastSentPacketNumber h < s \<and> s < pk_PacketNumber p"
    unfolding sk using inv by (intro skippedAfter_sorted(2) ok(5)) (simp_all add: sp_inv_def)
  moreover have "\<forall>s\<in>set (sp_skippedPackets h). s < pk_PacketNumber p"
    using inv ok(5) by (auto simp: sp_inv_def intro: le_less_trans)
  ultimately show ?case using sent(3) ok(4,5) by (fastforce dest: leD intro: order.strict_implies_order order_trans)
next
  case (ack h N T X D f now n rcvTime e h')
  then show ?case using keeps_ReceivedAck [of h A now f n rcvTime] by (auto simp: keeps_numbers_def)
next
  case (closePath h N T X D c now n e h')
  then show ?case using keeps_ReceivedClosePath [of h A now c n] by (auto simp: keeps_numbers_def)
next
  case (alarm h N T X D cb now)
  then show ?case using keeps_OnAlarm [of h A cb now] by (auto simp: keeps_numbers_def)
next
  case (inflightLost h N T X D)
  then show ?case using keeps_SetInflightAsLost [of h A] by (auto simp: keeps_numbers_def)
next
  case (dequeue h N T X D p h')
  then show ?case by (auto simp: DequeuePacketForRetransmission_def split: list.splits)
qed (auto simp: NewSentPacketHandler_def DuplicatePacket_def sentPacketHandler_GetStopWaitingFrame_def split: prod.splits)

lemma acks_largest:
  assumes "ranges_wf largest lowest rs"
  shows "acksPacket largest lowest rs largest"
proof (cases rs)
  case Nil
  then show ?thesis using assms by (simp add: acksPacket_def ranges_wf_def)
next
  case (Cons r rs')
  then have "unat largest \<in> range_set r" "r \<in> set rs" "rs \<noteq> []"
    using assms by (auto simp: ranges_wf_def range_set_def range_ok_def)
  then show ?thesis unfolding acksPacket_iff [OF assms] by (auto simp: acked_set_def)
qed

lemma honest_ack:
  assumes r: "sp_reachable A I h N T X D" and wf: "ranges_wf (ack_LargestAcked f) (ack_LowestAcked f) (ack_AckRanges f)"
    and honest: "\<And>q. AckFrame_AcksPacket f q \<Longrightarrow> q \<in> N"
  shows "fst (ReceivedAck A now f n rcvTime h) =
    (if n \<le> sp_largestReceivedPacketWithAck h then Some ErrDuplicateOrOutOfOrderAck else None)"
proof -
  note num = sp_reachable_numbers [OF r]
  have "ack_LargestAcked f \<in> N" by (rule honest) (simp add: AckFrame_AcksPacket_def acks_largest [OF wf])
  then have sent: "\<not> ack_LargestAcked f > sp_lastSentPacketNumber h" using num by (simp add: not_less)
  define h2 where "h2 = h\<lparr>sp_largestReceivedPacketWithAck := n, sp_LargestAcked := ack_LargestAcked f\<rparr>"
  have "\<not> skippedPacketsAcked f h2"
    using num honest by (auto simp: skippedPacketsAcked_def list_ex_iff h2_def)
  moreover have "sp_inv h2" using sp_reachable_inv [OF r] sent by (simp add: sp_inv_def h2_def not_less)
  then have "fst (applyAck A now f rcvTime h2) = None" using applyAck_ok [OF _ wf, of h2 A now rcvTime] by auto
  ultimately show ?thesis using sent by (simp add: ReceivedAck_def Let_def flip: h2_def)
qed

section \<open>Alarms\<close>

lemma detectLost_loop_lost:
  assumes "p \<in> set ps" "ascending_packets ps" "pk_PacketNumber p \<le> la" "d < timeSub now (pk_SendTime p)"
  shows "p \<in> set (fst (detectLost_loop now d la ps lt n))"
  using assms
proof (induction now d la ps lt n rule: detectLost_loop.induct)
  case (2 now d la q ps lt n)
  have q: "\<not> la < pk_PacketNumber q" using 2(4-7) by (auto simp: not_less)
  show ?case using 2 q by (cases "p = q") (auto simp: Let_def split: prod.splits)
qed simp

lemma detectLost_loop_only:
  "p \<in> set (fst (detectLost_loop now d la ps lt n)) \<Longrightarrow> pk_PacketNumber p \<le> la \<and> d < timeSub now (pk_SendTime p)"
  by (induction now d la ps lt n rule: detectLost_loop.induct) (auto simp: Let_def split: prod.splits if_splits)

text \<open>Loss detection moves exactly the packets that are late to the retransmission queue.\<close>

definition late :: "int \<Rightarrow> 'c sentPacketHandler \<Rightarrow> Packet \<Rightarrow> bool" where
  "late now h p \<longleftrightarrow> pk_PacketNumber p \<le> sp_LargestAcked h
     \<and> delayUntilLost (sp_rttStats h) < timeSub now (pk_SendTime p)"

lemma detectLostPackets_late:
  assumes "sp_inv h" "p \<in> set (sp_packetHistory h)"
  shows "late now h p \<Longrightarrow> p \<in> set (sp_retransmissionQueue (detectLostPackets A now h))
      \<and> p \<notin> set (sp_packetHistory (detectLostPackets A now h))"
    "\<not> late now h p \<Longrightarrow> p \<in> set (sp_packetHistory (detectLostPackets A now h))"
proof -
  define r where "r = detectLost_loop now (delayUntilLost (sp_rttStats h)) (sp_LargestAcked h) (sp_packetHistory h) 0 (sp_losses h)"
  define h0 where "h0 = h\<lparr>sp_lossTime := fst (snd r), sp_losses := snd (snd r)\<rparr>"
  have eq: "detectLostPackets A now h = fold (losePacket A) (fst r) h0"
    by (simp add: detectLostPackets_def r_def h0_def split: prod.splits)
  have asc: "ascending_packets (sp_packetHistory h)" using assms(1) by (simp add: sp_inv_def)
  have inv: "sp_inv h0" using assms(1) by (simp add: h0_def sp_inv_def)
  have sub: "set (fst r) \<subseteq> set (sp_packetHistory h0)" "distinct (fst r)"
    using detectLost_loop_sub ascending_distinct [OF asc] unfolding r_def h0_def by auto
  have mem: "p \<in> set (fst r) \<longleftrightarrow> late now h p"
    using detectLost_loop_lost [OF assms(2) asc] detectLost_loop_only unfolding r_def late_def by blast
  show "late now h p \<Longrightarrow> p \<in> set (sp_retransmissionQueue (detectLostPackets A now h))
      \<and> p \<notin> set (sp_packetHistory (detectLostPackets A now h))"
    "\<not> late now h p \<Longrightarrow> p \<in> set (sp_packetHistory (detectLostPackets A now h))"
    unfolding eq lost.fold_history [OF inv sub] lost.fold_queue using mem assms(2) by (auto simp: h0_def)
qed

lemma retransmits_one:
  assumes "sp_inv h" "sp_packetHistory h \<noteq> []"
  shows "length (sp_retransmissionQueue h) < length (sp_retransmissionQueue (retransmitTLP h))"
    "length (sp_retransmissionQueue h) < length (sp_retransmissionQueue (retransmitOldestTwoPackets A h))"
    "length (sp_retransmissionQueue h) < length (sp_retransmissionQueue (retransmitAllPackets A h))"
  using assms
  by (auto simp: retransmitTLP_def queuePacketForRetransmission_def retransmitOldestTwoPackets_def retransmissionTimeout_def
      retransmitOldestPacket_def rto.act_queue rto.act_history retransmitAllPackets_def rto.fold_queue split: list.splits)

text \<open>
  C8: Alarms lead to retransmissions. When the alarm fires while a packet with retransmittable frames is in flight: if it
  was set for a packet that is below an acknowledged one, all packets that are late by then are queued for retransmission
  and no others are taken out of flight; otherwise, probe or timeout, at least one packet is queued.
\<close>

theorem alarm_queues_retransmission:
  assumes "sp_reachable A I h N T X D" "hasOutstandingRetransmittablePacket h"
  shows "let h' = sentPacketHandler_OnAlarm A cb now h in
    if sp_lossTime h \<noteq> 0
    then \<forall>p\<in>set (sp_packetHistory h). if late now h p
           then p \<in> set (sp_retransmissionQueue h') \<and> p \<notin> set (sp_packetHistory h') else p \<in> set (sp_packetHistory h')
    else length (sp_retransmissionQueue h) < length (sp_retransmissionQueue h')"
proof -
  have inv: "sp_inv h" using sp_reachable_inv [OF assms(1)] by simp
  have ne: "sp_packetHistory h \<noteq> []" using assms(2) by (auto simp: hasOutstandingRetransmittablePacket_def)
  show ?thesis
    using detectLostPackets_late [OF inv, where now = now and A = A] retransmits_one [OF inv ne] assms(2)
    by (simp add: sentPacketHandler_OnAlarm_def Let_def)
qed

section \<open>The congestion window limits what is in flight\<close>

context send_algorithm
begin

lemma updateAlarm_congestion [simp]: "sp_congestion (updateLossDetectionAlarm A h) = sp_congestion h"
  by (simp add: updateLossDetectionAlarm_def)

lemma losePacket_congestion: "inv (sp_congestion h) \<Longrightarrow> inv (sp_congestion (losePacket A p h))"
  by (simp add: losePacket_def queuePacketForRetransmission_def inv_lost Let_def)

lemma queueRTO_congestion: "inv (sp_congestion h) \<Longrightarrow> inv (sp_congestion (queueRTO A p h))"
  by (simp add: queueRTO_def queuePacketForRetransmission_def inv_lost Let_def)

lemma ackPacket_congestion: "inv (sp_congestion h) \<Longrightarrow> inv (sp_congestion (ackPacket A now p h))"
  by (simp add: ackPacket_def onPacketAcked_def inv_acked Let_def)

lemma fold_congestion:
  assumes "\<And>p h. inv (sp_congestion h) \<Longrightarrow> inv (sp_congestion (f p h))"
  shows "inv (sp_congestion h) \<Longrightarrow> inv (sp_congestion (fold f ps h))"
  by (induction ps arbitrary: h) (simp_all add: assms)

lemma detectLost_congestion: "inv (sp_congestion h) \<Longrightarrow> inv (sp_congestion (detectLostPackets A now h))"
  by (simp add: detectLostPackets_def fold_congestion losePacket_congestion split: prod.splits)

lemma SetInflight_congestion: "inv (sp_congestion h) \<Longrightarrow> inv (sp_congestion (SetInflightAsLost A h))"
  by (simp add: SetInflightAsLost_def fold_congestion losePacket_congestion Let_def)

lemma timeout_congestion: "inv (sp_congestion h) \<Longrightarrow> inv (sp_congestion (retransmissionTimeout A h))"
  by (simp add: retransmissionTimeout_def inv_timeout)

lemma oldest_congestion: "inv (sp_congestion h) \<Longrightarrow> inv (sp_congestion (retransmitOldestPacket A h))"
  by (simp add: retransmitOldestPacket_def queueRTO_congestion split: list.splits)

lemma OnAlarm_congestion: "inv (sp_congestion h) \<Longrightarrow> inv (sp_congestion (sentPacketHandler_OnAlarm A cb now h))"
proof -
  assume h: "inv (sp_congestion h)"
  have "inv (sp_congestion (retransmitTLP h))"
    using h by (simp add: retransmitTLP_def queuePacketForRetransmission_def)
  moreover have "inv (sp_congestion (retransmitAllPackets A h))"
    using h by (simp add: retransmitAllPackets_def timeout_congestion fold_congestion queueRTO_congestion)
  moreover have "inv (sp_congestion (retransmitOldestTwoPackets A h))"
    using h by (simp add: retransmitOldestTwoPackets_def timeout_congestion oldest_congestion)
  ultimately show ?thesis
    using h detectLost_congestion [OF h, of now] by (simp add: sentPacketHandler_OnAlarm_def Let_def)
qed

lemma SentPacket_congestion:
  assumes "SentPacket A now p h = (None, h')" "inv (sp_congestion h)"
  shows "inv (sp_congestion h')"
proof -
  have "sp_congestion (trackPacket now q g) = sp_congestion g" for q and g :: "'c sentPacketHandler"
    by (simp add: trackPacket_def)
  then show ?thesis
    using assms inv_sent by (auto simp: SentPacket_def Let_def split: if_splits)
qed

lemma applyAck_congestion:
  assumes "inv (sp_congestion h)"
  shows "inv (sp_congestion (snd (applyAck A now f rcvTime h)))"
proof -
  have 1: "inv (sp_congestion (sampleRTT A now f rcvTime h))"
    using assms inv_exit by (simp add: sampleRTT_def maybeUpdateRTT_def split: option.splits)
  have "inv (sp_congestion (detectLostPackets A now (fold (ackPacket A now) ps (sampleRTT A now f rcvTime h))))" for ps
    using 1 by (simp add: detectLost_congestion fold_congestion ackPacket_congestion)
  then show ?thesis
    using 1 by (simp add: applyAck_def garbageCollectSkippedPackets_def Let_def split: sum.splits)
qed

lemma ReceivedAck_congestion:
  assumes "ReceivedAck A now f n rcvTime h = (e, h')" "inv (sp_congestion h)"
  shows "inv (sp_congestion h')"
proof -
  define h2 where "h2 = h\<lparr>sp_largestReceivedPacketWithAck := n, sp_LargestAcked := ack_LargestAcked f\<rparr>"
  have "inv (sp_congestion h2)" using assms(2) by (simp add: h2_def)
  from applyAck_congestion [OF this, of now f rcvTime] have "inv (sp_congestion (snd (ReceivedAck A now f n rcvTime h)))"
    using assms(2) unfolding h2_def by (simp add: ReceivedAck_def Let_def)
  then show ?thesis using assms(1) by simp
qed

lemma ReceivedClosePath_congestion:
  assumes "ReceivedClosePath A now c n h = (e, h')" "inv (sp_congestion h)"
  shows "inv (sp_congestion h')"
proof -
  have "inv (sp_congestion (SetInflightAsLost A (fold (ackPacket A now) ps (h\<lparr>sp_largestReceivedPacketWithAck := n\<rparr>))))" for ps
    using assms(2) by (simp add: SetInflight_congestion fold_congestion ackPacket_congestion)
  then have "inv (sp_congestion (snd (ReceivedClosePath A now c n h)))"
    using assms(2) by (simp add: ReceivedClosePath_def garbageCollectSkippedPackets_def Let_def split: sum.splits)
  then show ?thesis using assms(1) by simp
qed

lemma reachable_congestion:
  assumes "sp_reachable A I h N T X D" and I: "\<And>c. I c \<Longrightarrow> inv c"
  shows "inv (sp_congestion h)"
  using assms(1)
proof (induction rule: sp_reachable.induct)
  case (start cong rttStats)
  then show ?case using I by (simp add: NewSentPacketHandler_def)
next
  case (dequeue h N T X D p h')
  then show ?case by (auto simp: DequeuePacketForRetransmission_def split: list.splits)
qed (auto intro: SentPacket_congestion ReceivedAck_congestion ReceivedClosePath_congestion OnAlarm_congestion
    SetInflight_congestion simp: DuplicatePacket_def sentPacketHandler_GetStopWaitingFrame_def split: prod.splits)

lemma flight_bounded:
  assumes "sp_reachable A I h N T X D" "\<And>c. I c \<Longrightarrow> inv c"
    and "SendingAllowed A h" "sp_retransmissionQueue h = []" "SentPacket A now p h = (None, h')"
    and "maxWindow + unat (pk_Length p) < 2 ^ 64"
  shows "unat (GetBytesInFlight h') \<le> maxWindow + unat (pk_Length p)"
proof -
  have w: "unat (sa_GetCongestionWindow A (sp_congestion h)) \<le> maxWindow"
    by (rule window_le [OF reachable_congestion [OF assms(1,2)]])
  have "\<not> sp_bytesInFlight h > sa_GetCongestionWindow A (sp_congestion h)"
    using assms(3,4) by (simp add: SendingAllowed_def Let_def)
  then have b: "unat (sp_bytesInFlight h) \<le> maxWindow" using w by (simp add: word_less_nat_alt not_less)
  have "sp_bytesInFlight h' = sp_bytesInFlight h \<or> sp_bytesInFlight h' = sp_bytesInFlight h + pk_Length p"
    using SentPacket_success(2) [OF assms(5)] by (auto simp: trackPacket_fields tracked_def Let_def)
  moreover have "unat (sp_bytesInFlight h + pk_Length p) = unat (sp_bytesInFlight h) + unat (pk_Length p)"
    using b assms(6) by (intro unat_plus_less) simp
  ultimately show ?thesis using b by (auto simp: GetBytesInFlight_def)
qed

end

text \<open>
  C10: Congestion control limits what is in flight. In every run of a handler with the sender it creates by default, a window
  of at most 2500 packets, a packet that is sent while \<^verbatim>\<open>SendingAllowed\<close> holds and nothing waits for retransmission
  leaves at most that window and the packet itself in flight.
\<close>

theorem congestion_limits_flight:
  assumes "sp_reachable cubicAlgorithm (\<lambda>c. c = NewCubicSender False 32 (of_nat DefaultMaxCongestionWindow)) h N T X D"
    and "SendingAllowed cubicAlgorithm h" "sp_retransmissionQueue h = []" "SentPacket cubicAlgorithm now p h = (None, h')"
    and "unat (pk_Length p) < 2 ^ 63"
  shows "unat (GetBytesInFlight h') \<le> DefaultMaxCongestionWindow * unat DefaultTCPMSS + unat (pk_Length p)"
proof -
  have "cubic_inv (NewCubicSender False 32 (of_nat DefaultMaxCongestionWindow))"
    by (intro cubic_reachable_inv cubic_reachable.start) (simp_all add: DefaultMaxCongestionWindow_def)
  then show ?thesis
    using cubic.flight_bounded [OF assms(1) _ assms(2,3,4)] assms(5)
    by (simp add: DefaultMaxCongestionWindow_def DefaultTCPMSS_def)
qed

section \<open>Timeouts and packets that are not retransmitted\<close>

text \<open>
  C34: The exponential backoff overflows. Before the first round trip time is known, the timeout doubles with every
  retransmission timeout up to its maximum of 60 seconds, for up to 34 timeouts in a row; the shift for the next one
  leaves the range of \<^verbatim>\<open>int64\<close>, the timeout is negative, and the alarm falls back to the minimum of 200 milliseconds.
\<close>

theorem rto_backoff_overflows:
  assumes "SmoothedRTT (sp_rttStats h) = 0"
  shows "(unat (sp_rtoCount h) \<le> 34 \<longrightarrow>
      computeRTOTimeout cubicAlgorithm h = min (defaultRTOTimeout * 2 ^ unat (sp_rtoCount h)) maxRTOTimeout)
    \<and> (sp_rtoCount h = 35 \<longrightarrow> computeRTOTimeout cubicAlgorithm h < 0
        \<and> (sp_packetHistory h \<noteq> [] \<and> sp_lossTime h = 0 \<longrightarrow>
            sp_alarm (updateLossDetectionAlarm cubicAlgorithm h) = sp_lastSentTime h + minRetransmissionTime))"
proof -
  have rto: "computeRTOTimeout cubicAlgorithm h = min (i64 (500000000 * 2 ^ unat (sp_rtoCount h))) maxRTOTimeout"
    using assms cubic.delay [of "sp_rttStats h" "sp_congestion h"]
    by (simp add: computeRTOTimeout_def Let_def defaultRTOTimeout_def minRTOTimeout_def push_bit_eq_mult)
  have "i64 (500000000 * 2 ^ n) = 500000000 * 2 ^ n" if "n \<le> 34" for n :: nat
  proof (rule i64_id)
    have "(500000000 :: int) * 2 ^ n \<le> 500000000 * 2 ^ 34" using that by (intro mult_left_mono power_increasing) auto
    then show "(500000000 :: int) * 2 ^ n < 2 ^ 63" by simp
    show "- (2 ^ 63) \<le> (500000000 :: int) * 2 ^ n" by (rule order_trans [where y = 0]) simp_all
  qed
  moreover have "i64 (500000000 * 2 ^ 35) < 0" by code_simp
  ultimately show ?thesis
    using rto assms
    by (auto simp: defaultRTOTimeout_def updateLossDetectionAlarm_def maxRTOTimeout_def minRetransmissionTime_def)
qed

lemma idle_alarms:
  assumes "\<not> hasOutstandingRetransmittablePacket h" "alarms \<noteq> []"
  shows "fold (\<lambda>(cb, t). sentPacketHandler_OnAlarm A cb t) alarms h = h\<lparr>sp_alarm := 0\<rparr>"
  using assms
proof (induction alarms arbitrary: h)
  case (Cons a alarms)
  obtain cb t where a: "a = (cb, t)" by (cases a)
  have step: "sentPacketHandler_OnAlarm A cb t h = h\<lparr>sp_alarm := 0\<rparr>"
    unfolding sentPacketHandler_OnAlarm_def using Cons.prems(1) by (simp only: if_True not_False_eq_True simp_thms)
  have idle: "\<not> hasOutstandingRetransmittablePacket (h\<lparr>sp_alarm := 0\<rparr>)"
    using Cons.prems(1) unfolding hasOutstandingRetransmittablePacket_def by simp
  show ?case
  proof (cases "alarms = []")
    case True
    then show ?thesis using step by (simp add: a)
  next
    case False
    show ?thesis using Cons.IH [OF idle False] unfolding a fold_simps prod.case step by simp
  qed
qed simp

text \<open>
  C35: The alarms do not retransmit a CLOSE_PATH frame that nothing else accompanies. \<^verbatim>\<open>SentPacket\<close> counts the frame among
  the retransmittable ones, so a packet with no retransmittable frames but CLOSE_PATH enters the history, and its length the
  bytes in flight. The alarm asks \<^verbatim>\<open>IsRetransmittable\<close> of the packets instead, which leaves CLOSE_PATH out: as long
  as no packet in the history has another retransmittable frame, however many alarms fire, with whatever callback, they only
  cancel the timer; the packet stays in the history and in flight, and nothing is queued for retransmission.
\<close>

theorem close_path_packet_not_retransmitted:
  assumes "stripNonRetransmittableFrames (pk_Frames p) = map FClosePath fs" "fs \<noteq> []"
    and "SentPacket A now p h = (None, h')" "\<not> hasOutstandingRetransmittablePacket h" "alarms \<noteq> []"
  shows "sp_packetHistory h' = sp_packetHistory h @ [p\<lparr>pk_Frames := map FClosePath fs, pk_SendTime := now\<rparr>]
    \<and> GetBytesInFlight h' = GetBytesInFlight h + pk_Length p
    \<and> sp_retransmissionQueue h' = sp_retransmissionQueue h
    \<and> fold (\<lambda>(cb, t). sentPacketHandler_OnAlarm A cb t) alarms h' = h'\<lparr>sp_alarm := 0\<rparr>"
proof -
  have sent: "sp_packetHistory h' = sp_packetHistory h @ [p\<lparr>pk_Frames := map FClosePath fs, pk_SendTime := now\<rparr>]"
    "GetBytesInFlight h' = GetBytesInFlight h + pk_Length p" "sp_retransmissionQueue h' = sp_retransmissionQueue h"
    using assms(3) unfolding SentPacket_def
    by (auto simp: Let_def trackPacket_def assms(1,2) GetBytesInFlight_def split: if_splits)
  have "\<not> hasOutstandingRetransmittablePacket h'"
    using assms(4) by (auto simp: hasOutstandingRetransmittablePacket_def sent Packet_IsRetransmittable_def list_ex_iff)
  then show ?thesis using sent idle_alarms assms(5) by blast
qed

section \<open>A run\<close>

definition run_packet :: "PacketNumber \<Rightarrow> Packet" where
  "run_packet n = \<lparr>pk_PacketNumber = n, pk_Frames = [FPing PingFrame], pk_Length = 100,
     pk_EncryptionLevel = EncryptionForwardSecure, pk_SendTime = 0\<rparr>"

definition run_sender :: "cubicSender \<Rightarrow> bool" where
  "run_sender = (\<lambda>c. c = NewCubicSender False 32 (of_nat DefaultMaxCongestionWindow))"

definition run_start :: "cubicSender sentPacketHandler" where
  "run_start = NewSentPacketHandler NewRTTStats (NewCubicSender False 32 (of_nat DefaultMaxCongestionWindow))"

definition run_one :: "cubicSender sentPacketHandler" where
  "run_one = snd (SentPacket cubicAlgorithm 1000 (run_packet 1) run_start)"

definition run_two :: "cubicSender sentPacketHandler" where
  "run_two = snd (SentPacket cubicAlgorithm 2000 (run_packet 3) run_one)"

lemma SentPacket_accepted:
  assumes "sp_lastSentPacketNumber h < pk_PacketNumber p"
    and "length (sp_retransmissionQueue h) + length (sp_packetHistory h) < MaxTrackedSentPackets"
  shows "SentPacket A now p h = (None, snd (SentPacket A now p h))"
  using assms by (simp add: SentPacket_def Let_def not_le [symmetric])

lemma run_packet_tracked: "tracked now (run_packet n) = [(run_packet n)\<lparr>pk_SendTime := now\<rparr>]"
  by (simp add: tracked_def run_packet_def stripNonRetransmittableFrames_def IsFrameRetransmittable_def)

lemma run_sent_reachable:
  "sp_reachable cubicAlgorithm run_sender run_start {} [] [] []"
  "SentPacket cubicAlgorithm 1000 (run_packet 1) run_start = (None, run_one)"
  "sp_reachable cubicAlgorithm run_sender run_two {3, 1} [(run_packet 1)\<lparr>pk_SendTime := 1000\<rparr>, (run_packet 3)\<lparr>pk_SendTime := 2000\<rparr>] [] []"
  "sp_packetHistory run_two = [(run_packet 1)\<lparr>pk_SendTime := 1000\<rparr>, (run_packet 3)\<lparr>pk_SendTime := 2000\<rparr>]"
  "sp_retransmissionQueue run_two = []"
proof -
  show r0: "sp_reachable cubicAlgorithm run_sender run_start {} [] [] []"
    unfolding run_start_def by (rule sp_reachable.start) (simp add: run_sender_def)
  show s1: "SentPacket cubicAlgorithm 1000 (run_packet 1) run_start = (None, run_one)"
    unfolding run_one_def by (rule SentPacket_accepted)
      (simp_all add: run_start_def NewSentPacketHandler_def run_packet_def MaxTrackedSentPackets_def DefaultMaxCongestionWindow_def)
  note r1 = sp_reachable.sent [OF r0 s1, unfolded run_packet_tracked]
  have inv0: "sp_inv run_start" using sp_reachable_inv [OF r0] by simp
  have e: "sp_packetHistory run_start = []" "sp_retransmissionQueue run_start = []"
    by (simp_all add: run_start_def NewSentPacketHandler_def)
  note h1 = SentPacket_ok [OF s1 inv0, unfolded run_packet_tracked e]
  have s2: "SentPacket cubicAlgorithm 2000 (run_packet 3) run_one = (None, run_two)"
    unfolding run_two_def by (rule SentPacket_accepted)
      (simp_all add: h1 run_packet_def MaxTrackedSentPackets_def DefaultMaxCongestionWindow_def)
  note h2 = SentPacket_ok [OF s2 h1(1), unfolded run_packet_tracked]
  show "sp_packetHistory run_two = [(run_packet 1)\<lparr>pk_SendTime := 1000\<rparr>, (run_packet 3)\<lparr>pk_SendTime := 2000\<rparr>]"
    "sp_retransmissionQueue run_two = []" by (simp_all add: h2 h1)
  show "sp_reachable cubicAlgorithm run_sender run_two {3, 1} [(run_packet 1)\<lparr>pk_SendTime := 1000\<rparr>, (run_packet 3)\<lparr>pk_SendTime := 2000\<rparr>] [] []"
    using sp_reachable.sent [OF r1 s2, unfolded run_packet_tracked] by (simp add: run_packet_def)
qed

theorem no_packet_forgotten_witness:
  "mset [(run_packet 1)\<lparr>pk_SendTime := 1000\<rparr>, (run_packet 3)\<lparr>pk_SendTime := 2000\<rparr>] =
     mset (sp_packetHistory run_two) + mset (sp_retransmissionQueue run_two) + {#} + {#}"
  using no_packet_forgotten [OF run_sent_reachable(3)] by simp

theorem bytes_in_flight_exact_witness:
  "GetBytesInFlight run_two = 200 \<and> sorted_wrt (<) (map pk_PacketNumber (sp_packetHistory run_two))"
  using bytes_in_flight_exact [OF run_sent_reachable(3)] by (simp add: run_sent_reachable(4) run_packet_def)

theorem newly_acked_equivalent_witness:
  "determineNewlyAckedPackets \<lparr>ack_PathID = 0, ack_LargestAcked = 1, ack_LowestAcked = 1, ack_AckRanges = [],
     ack_PacketReceivedTime = 0, ack_DelayTime = 0\<rparr> run_two = Inr [(run_packet 1)\<lparr>pk_SendTime := 1000\<rparr>]"
  using newly_acked_equivalent [OF run_sent_reachable(3), of "\<lparr>ack_PathID = 0, ack_LargestAcked = 1, ack_LowestAcked = 1,
     ack_AckRanges = [], ack_PacketReceivedTime = 0, ack_DelayTime = 0\<rparr>"]
  by (simp add: ranges_wf_def run_sent_reachable(4) AckFrame_AcksPacket_def acksPacket_def run_packet_def)

lemma run_outstanding: "hasOutstandingRetransmittablePacket run_two"
  by (simp add: hasOutstandingRetransmittablePacket_def run_sent_reachable(4) Packet_IsRetransmittable_def run_packet_def)

lemma run_two_lossTime: "sp_lossTime run_two = 0"
proof -
  have "sp_lossTime (snd (SentPacket A now p h)) = sp_lossTime h" for A :: "cubicSender SendAlgorithm" and now p h
    by (simp add: SentPacket_def trackPacket_def updateLossDetectionAlarm_def Let_def)
  then show ?thesis by (simp add: run_two_def run_one_def run_start_def NewSentPacketHandler_def)
qed

theorem alarm_queues_retransmission_witness:
  "0 < length (sp_retransmissionQueue (sentPacketHandler_OnAlarm cubicAlgorithm None 5000 run_two))"
  using alarm_queues_retransmission [OF run_sent_reachable(3) run_outstanding, of None 5000]
  by (simp add: run_two_lossTime run_sent_reachable(5))

theorem congestion_limits_flight_witness:
  "unat (GetBytesInFlight run_one) \<le> 2500 * 1460 + 100"
proof -
  have a: "SendingAllowed cubicAlgorithm run_start" "sp_retransmissionQueue run_start = []"
    by (simp_all add: SendingAllowed_def run_start_def NewSentPacketHandler_def MaxTrackedSentPackets_def
        DefaultMaxCongestionWindow_def not_less [symmetric])
  show ?thesis
    using congestion_limits_flight [OF run_sent_reachable(1) [unfolded run_sender_def] a run_sent_reachable(2)]
    by (simp add: run_packet_def DefaultMaxCongestionWindow_def DefaultTCPMSS_def)
qed

theorem rto_backoff_overflows_witness:
  "computeRTOTimeout cubicAlgorithm (run_start\<lparr>sp_rtoCount := 3\<rparr>) = 4000000000
   \<and> computeRTOTimeout cubicAlgorithm (run_start\<lparr>sp_rtoCount := 35\<rparr>) < 0"
proof -
  have "SmoothedRTT (sp_rttStats (run_start\<lparr>sp_rtoCount := n\<rparr>)) = 0" for n
    by (simp add: run_start_def NewSentPacketHandler_def NewRTTStats_def SmoothedRTT_def)
  from rto_backoff_overflows [OF this, of 3] rto_backoff_overflows [OF this, of 35]
  show ?thesis by (simp add: defaultRTOTimeout_def maxRTOTimeout_def)
qed

theorem close_path_packet_not_retransmitted_witness:
  "let f = \<lparr>cp_PathID = 1, cp_LargestAcked = 1, cp_LowestAcked = 1, cp_AckRanges = []\<rparr>;
       h = snd (SentPacket cubicAlgorithm 7 ((run_packet 1)\<lparr>pk_Frames := [FClosePath f]\<rparr>) run_start)
   in map pk_Frames (sp_packetHistory h) = [[FClosePath f]] \<and> GetBytesInFlight h = 100
      \<and> fold (\<lambda>(cb, t). sentPacketHandler_OnAlarm cubicAlgorithm cb t) [(None, 9), (None, 11)] h = h\<lparr>sp_alarm := 0\<rparr>"
proof -
  let ?f = "\<lparr>cp_PathID = 1, cp_LargestAcked = 1, cp_LowestAcked = 1, cp_AckRanges = []\<rparr>"
  let ?p = "(run_packet 1)\<lparr>pk_Frames := [FClosePath ?f]\<rparr>"
  have e: "sp_packetHistory run_start = []" "GetBytesInFlight run_start = 0" "\<not> hasOutstandingRetransmittablePacket run_start"
    by (simp_all add: run_start_def NewSentPacketHandler_def GetBytesInFlight_def hasOutstandingRetransmittablePacket_def)
  have "SentPacket cubicAlgorithm 7 ?p run_start = (None, snd (SentPacket cubicAlgorithm 7 ?p run_start))"
    by (rule SentPacket_accepted)
      (simp_all add: run_start_def NewSentPacketHandler_def run_packet_def MaxTrackedSentPackets_def DefaultMaxCongestionWindow_def)
  from close_path_packet_not_retransmitted [OF _ _ this e(3), of "[?f]" "[(None, 9), (None, 11)]"] show ?thesis
    by (simp add: Let_def e stripNonRetransmittableFrames_def IsFrameRetransmittable_def run_packet_def del: fold_simps)
qed

end
