(* ===== verification/StreamFramer.thy ===== *)
theory StreamFramer
  imports StreamsMap SentSafety
begin

text \<open>
  The stream framer (\<^verbatim>\<open>stream_framer.go\<close>): it hands out STREAM frames for a packet, first those that are retransmitted,
  split if they do not fit, then new ones from the streams in the order of the round robin or of the scheduler; and it
  keeps the queues of BLOCKED, ADD_ADDRESS, CLOSE_PATH and PATHS frames.
\<close>

section \<open>State and queues\<close>

record streamFramer =
  fr_retransmissionQueue :: "StreamFrame list"
  fr_blockedFrameQueue :: "BlockedFrame list"
  fr_addAddressFrameQueue :: "AddAddressFrame list"
  fr_closePathFrameQueue :: "ClosePathFrame list"
  fr_pathsFrame :: "PathsFrame option"

definition newStreamFramer :: streamFramer where
  "newStreamFramer = \<lparr>fr_retransmissionQueue = [], fr_blockedFrameQueue = [], fr_addAddressFrameQueue = [],
     fr_closePathFrameQueue = [], fr_pathsFrame = None\<rparr>"

definition AddFrameForRetransmission :: "StreamFrame \<Rightarrow> streamFramer \<Rightarrow> streamFramer" where
  "AddFrameForRetransmission frame fr = fr\<lparr>fr_retransmissionQueue := fr_retransmissionQueue fr @ [frame]\<rparr>"

definition PopBlockedFrame :: "streamFramer \<Rightarrow> BlockedFrame option \<times> streamFramer" where
  "PopBlockedFrame fr = (case fr_blockedFrameQueue fr of [] \<Rightarrow> (None, fr) | b # bs \<Rightarrow> (Some b, fr\<lparr>fr_blockedFrameQueue := bs\<rparr>))"

definition AddAddressForTransmission :: "byte \<Rightarrow> UDPAddr \<Rightarrow> streamFramer \<Rightarrow> streamFramer" where
  "AddAddressForTransmission ipVersion addr fr =
     fr\<lparr>fr_addAddressFrameQueue := fr_addAddressFrameQueue fr @ [\<lparr>aa_IPVersion = ipVersion, aa_Addr = addr\<rparr>]\<rparr>"

definition PopAddAddressFrame :: "streamFramer \<Rightarrow> AddAddressFrame option \<times> streamFramer" where
  "PopAddAddressFrame fr =
     (case fr_addAddressFrameQueue fr of [] \<Rightarrow> (None, fr) | a # as \<Rightarrow> (Some a, fr\<lparr>fr_addAddressFrameQueue := as\<rparr>))"

text \<open>The paths of the session: their IDs, whether they may have failed, and their smoothed round trip times.\<close>

definition AddPathsFrameForTransmission :: "(PathID \<times> bool \<times> int) list \<Rightarrow> streamFramer \<Rightarrow> streamFramer" where
  "AddPathsFrameForTransmission paths fr =
     fr\<lparr>fr_pathsFrame := Some \<lparr>pf_MaxNumPaths = 255, pf_NumPaths = of_nat (length paths), pf_PathIDs = map fst paths,
          pf_RemoteRTTs = map (\<lambda>(_, failed, rtt). if failed then 3600 * Second else rtt) paths\<rparr>\<rparr>"

definition PopPathsFrame :: "streamFramer \<Rightarrow> PathsFrame option \<times> streamFramer" where
  "PopPathsFrame fr = (case fr_pathsFrame fr of None \<Rightarrow> (None, fr) | Some p \<Rightarrow> (Some p, fr\<lparr>fr_pathsFrame := None\<rparr>))"

definition AddClosePathFrameForTransmission :: "ClosePathFrame \<Rightarrow> streamFramer \<Rightarrow> streamFramer" where
  "AddClosePathFrameForTransmission frame fr = fr\<lparr>fr_closePathFrameQueue := fr_closePathFrameQueue fr @ [frame]\<rparr>"

definition PopClosePathFrame :: "streamFramer \<Rightarrow> ClosePathFrame option \<times> streamFramer" where
  "PopClosePathFrame fr =
     (case fr_closePathFrameQueue fr of [] \<Rightarrow> (None, fr) | c # cs \<Rightarrow> (Some c, fr\<lparr>fr_closePathFrameQueue := cs\<rparr>))"

definition HasFramesForRetransmission :: "streamFramer \<Rightarrow> bool" where
  "HasFramesForRetransmission fr \<longleftrightarrow> fr_retransmissionQueue fr \<noteq> []"

section \<open>The crypto stream\<close>

text \<open>The crypto stream, opened if need be; the code follows the pointer without asking whether it is nil.\<close>

definition cryptoStream :: "streams_state \<Rightarrow> StreamID result \<times> streams_state" where
  "cryptoStream t =
     (case GetOrOpenStream 1 t of
        Some (Inr (Some i), t') \<Rightarrow> (Inr i, t')
      | Some (_, t') \<Rightarrow> (Inl errNilFrame, t')
      | None \<Rightarrow> (Inl errStackOverflow, t))"

definition HasCryptoStreamFrame :: "streams_state \<Rightarrow> bool result \<times> streams_state" where
  "HasCryptoStreamFrame t =
     (case cryptoStream t of
        (Inl e, t') \<Rightarrow> (Inl e, t')
      | (Inr i, t') \<Rightarrow> (Inr (lenOfDataForWriting (sm_heap (fst t') i) > 0), t'))"

definition PopCryptoStreamFrame :: "ByteCount \<Rightarrow> streams_state \<Rightarrow> StreamFrame option result \<times> streams_state" where
  "PopCryptoStreamFrame maxLen t =
     (case HasCryptoStreamFrame t of
        (Inl e, t') \<Rightarrow> (Inl e, t')
      | (Inr False, t') \<Rightarrow> (Inr None, t')
      | (Inr True, (m, f)) \<Rightarrow>
          (let frame = \<lparr>sf_StreamID = 1, sf_FinBit = False, sf_DataLenPresent = False,
                         sf_Offset = st_writeOffset (sm_heap m 1), sf_Data = []\<rparr>;
               (bytes, s) = getDataForWriting (maxLen - frameHeaderBytes frame) (sm_heap m 1)
           in (Inr (Some (frame\<lparr>sf_Data := (case bytes of None \<Rightarrow> [] | Some d \<Rightarrow> d)\<rparr>)),
               (m\<lparr>sm_heap := (sm_heap m)(1 := s)\<rparr>, f))))"

section \<open>Frames that are retransmitted\<close>

text \<open>The first \<open>n\<close> bytes as a frame of their own, and what remains of the frame.\<close>

definition maybeSplitOffFrame :: "StreamFrame \<Rightarrow> ByteCount \<Rightarrow> (StreamFrame \<times> StreamFrame) option" where
  "maybeSplitOffFrame frame n =
     (if n \<ge> StreamFrame_DataLen frame then None
      else Some (frame\<lparr>sf_FinBit := False, sf_Data := take (unat n) (sf_Data frame)\<rparr>,
                 frame\<lparr>sf_Data := drop (unat n) (sf_Data frame), sf_Offset := sf_Offset frame + n\<rparr>))"

definition addRetrans :: "StreamFrame \<Rightarrow> flowControlManager \<Rightarrow> flowControlManager" where
  "addRetrans frame f = snd (flowControlManager_AddBytesRetrans (sf_StreamID frame) (StreamFrame_DataLen frame) f)"

fun popRetransmissions :: "ByteCount \<Rightarrow> ByteCount \<Rightarrow> StreamFrame list \<Rightarrow> flowControlManager
    \<Rightarrow> StreamFrame list \<times> ByteCount \<times> StreamFrame list \<times> flowControlManager" where
  "popRetransmissions maxLen currentLen [] f = ([], currentLen, [], f)"
| "popRetransmissions maxLen currentLen (q # qs) f =
     (let frame = q\<lparr>sf_DataLenPresent := True\<rparr>; headerLen = frameHeaderBytes frame in
      if currentLen + headerLen \<ge> maxLen then ([], currentLen, frame # qs, f)
      else
        let len1 = currentLen + headerLen in
        case maybeSplitOffFrame frame (maxLen - len1) of
          Some (split, rest) \<Rightarrow> ([split], len1 + StreamFrame_DataLen split, rest # qs, addRetrans split f)
        | None \<Rightarrow>
            (let (res, len, qs', f') = popRetransmissions maxLen (len1 + StreamFrame_DataLen frame) qs (addRetrans frame f)
             in (frame # res, len, qs', f')))"

definition maybePopFramesForRetransmission :: "ByteCount \<Rightarrow> streamFramer \<Rightarrow> flowControlManager
    \<Rightarrow> StreamFrame list \<times> ByteCount \<times> streamFramer \<times> flowControlManager" where
  "maybePopFramesForRetransmission maxLen fr f =
     (let (res, len, qs, f') = popRetransmissions maxLen 0 (fr_retransmissionQueue fr) f
      in (res, len, fr\<lparr>fr_retransmissionQueue := qs\<rparr>, f'))"

section \<open>New frames\<close>

text \<open>The state of the function that the round robin applies: the length so far, the frames, flow control, BLOCKED frames.\<close>

type_synonym popping = "ByteCount \<times> StreamFrame list \<times> flowControlManager \<times> BlockedFrame list"

definition popNormal :: "ByteCount \<Rightarrow> popping streamLambda" where
  "popNormal maxBytes s = (\<lambda>(currentLen, res, f, blocked).
     let ((frame, len, cont), s', f', blocked') = takeFrame currentLen maxBytes s f blocked
     in (cont, None, s', (len, res @ (case frame of None \<Rightarrow> [] | Some x \<Rightarrow> [x]), f', blocked')))"

definition popRoundRobin :: "ByteCount \<Rightarrow> streamFramer \<Rightarrow> streams_state
    \<Rightarrow> (StreamFrame list \<times> streamFramer \<times> streams_state) result" where
  "popRoundRobin maxBytes fr = (\<lambda>(m, f).
     case RoundRobinIterate (popNormal maxBytes) m (0, [], f, fr_blockedFrameQueue fr) of
       (Some (Panic e), _) \<Rightarrow> Inl (Panic e)
     | (_, m', (_, res, f', blocked)) \<Rightarrow> Inr (res, fr\<lparr>fr_blockedFrameQueue := blocked\<rparr>, (m', f')))"

definition popScheduled :: "ByteCount \<Rightarrow> streamScheduler \<Rightarrow> streamFramer \<Rightarrow> streams_state
    \<Rightarrow> (StreamFrame list \<times> streamFramer \<times> streams_state) result" where
  "popScheduled maxBytes sch fr = (\<lambda>(m, f).
     rbind (case sch_toSend sch of
              None \<Rightarrow> schedule (sm_heap m) f sch
            | Some n \<Rightarrow> Inr (Some n, sch)) (\<lambda>(n, sch').
       let m1 = m\<lparr>sm_streamScheduler := Some sch'\<rparr> in
       case (case n of None \<Rightarrow> None | Some a \<Rightarrow> nd_stream (sch_nodes sch' a)) of
         None \<Rightarrow> Inr ([], fr, (m1, f))
       | Some i \<Rightarrow>
           let ((frame, _), s, f', blocked) = send maxBytes (sm_heap m1 i) f (fr_blockedFrameQueue fr)
           in Inr (case frame of None \<Rightarrow> [] | Some x \<Rightarrow> [x], fr\<lparr>fr_blockedFrameQueue := blocked\<rparr>,
                   (m1\<lparr>sm_heap := (sm_heap m1)(i := s)\<rparr>, f'))))"

definition maybePopNormalFrames :: "ByteCount \<Rightarrow> streamFramer \<Rightarrow> streams_state
    \<Rightarrow> (StreamFrame list \<times> streamFramer \<times> streams_state) result" where
  "maybePopNormalFrames maxBytes fr t =
     (case sm_streamScheduler (fst t) of
        None \<Rightarrow> popRoundRobin maxBytes fr t
      | Some sch \<Rightarrow> popScheduled maxBytes sch fr t)"

definition PopStreamFrames :: "ByteCount \<Rightarrow> streamFramer \<Rightarrow> streams_state
    \<Rightarrow> (StreamFrame list \<times> streamFramer \<times> streams_state) result" where
  "PopStreamFrames maxLen fr = (\<lambda>(m, f).
     let (fs, currentLen, fr1, f1) = maybePopFramesForRetransmission maxLen fr f in
     rbind (maybePopNormalFrames (maxLen - currentLen) fr1 (m, f1))
       (\<lambda>(fs', fr2, t). Inr (fs @ fs', fr2, t)))"

section \<open>What is sent is what was written\<close>

text \<open>
  The sending half of a stream into which \<open>a\<close> has been written: what the framer has taken is the beginning of \<open>a\<close>, and the
  buffer holds the rest.
\<close>

definition pending :: "stream \<Rightarrow> byte list" where
  "pending s = (case st_dataForWriting s of None \<Rightarrow> [] | Some d \<Rightarrow> d)"

definition sending_ok :: "stream \<Rightarrow> byte list \<Rightarrow> bool" where
  "sending_ok s a \<longleftrightarrow> unat (st_writeOffset s) \<le> length a \<and> pending s = drop (unat (st_writeOffset s)) a
     \<and> length a < 2 ^ 64 - 1 \<and> st_dataForWriting s \<noteq> Some []"

text \<open>A frame that carries bytes of \<open>a\<close> at its place, and FIN only at the end.\<close>

definition slice_of :: "byte list \<Rightarrow> StreamFrame \<Rightarrow> bool" where
  "slice_of a fr \<longleftrightarrow> unat (sf_Offset fr) + length (sf_Data fr) \<le> length a
     \<and> sf_Data fr = take (length (sf_Data fr)) (drop (unat (sf_Offset fr)) a)
     \<and> (sf_FinBit fr \<longrightarrow> unat (sf_Offset fr) + length (sf_Data fr) = length a) \<and> (sf_Data fr = [] \<longrightarrow> sf_FinBit fr)"

lemma unat_of_nat_64: "n < 2 ^ 64 \<Longrightarrow> unat (of_nat n :: u64) = n"
  by (simp add: unat_of_nat)

lemma lenOfDataForWriting_pending:
  assumes "sending_ok s a" "lenOfDataForWriting s \<noteq> 0"
  shows "st_err s = None" "st_dataForWriting s = Some (pending s)" "unat (lenOfDataForWriting s) = length (pending s)"
proof -
  show e: "st_err s = None" using assms(2) by (auto simp: lenOfDataForWriting_def split: if_splits)
  show d: "st_dataForWriting s = Some (pending s)"
    using assms(2) by (auto simp: lenOfDataForWriting_def pending_def split: option.splits if_splits)
  have "length (pending s) < 2 ^ 64" using assms(1) by (auto simp: sending_ok_def)
  then show "unat (lenOfDataForWriting s) = length (pending s)" using d e by (simp add: lenOfDataForWriting_def unat_of_nat_64)
qed

lemma getDataForWriting_ok:
  assumes ok: "sending_ok s a" and e: "st_err s = None" "st_dataForWriting s = Some (pending s)" and m: "0 < maxLen"
    and g: "getDataForWriting maxLen s = (bytes, s')"
  shows "\<exists>d. bytes = Some d \<and> d \<noteq> [] \<and> d = take (unat maxLen) (pending s) \<and> sending_ok s' a \<and> same_receiving s s'
    \<and> unat (st_writeOffset s') = unat (st_writeOffset s) + length d \<and> st_finishedWriting s' = st_finishedWriting s
    \<and> st_finSent s' = st_finSent s \<and> st_err s' = None \<and> pending s = d @ pending s'"
proof -
  have l: "length (pending s) + unat (st_writeOffset s) = length a" "length a < 2 ^ 64 - 1"
    "pending s = drop (unat (st_writeOffset s)) a" "pending s \<noteq> []"
    using ok e(2) by (auto simp: sending_ok_def)
  have u: "unat (of_nat (length (pending s)) :: u64) = length (pending s)" using l(1,2) by (intro unat_of_nat_64) linarith
  define d where "d = take (unat maxLen) (pending s)"
  have m0: "0 < unat maxLen" using m by (simp add: word_less_nat_alt)
  have wo: "unat (st_writeOffset s + of_nat (length d)) = unat (st_writeOffset s) + length d"
    using l(1,2) by (subst unat_plus_less) (simp_all add: d_def unat_of_nat_64)
  have dr: "drop (unat (st_writeOffset s) + length d) a = drop (length d) (pending s)" by (simp add: l(3) add.commute)
  have d1: "d \<noteq> []" using m0 l(4) by (simp add: d_def)
  show ?thesis
  proof (cases "of_nat (length (pending s)) > maxLen")
    case True
    then have ld: "length d = unat maxLen" "unat maxLen < length (pending s)" using u by (simp_all add: d_def word_less_nat_alt)
    have gd: "bytes = Some d" "s' = s\<lparr>st_dataForWriting := Some (drop (length d) (pending s)), st_writeOffset := st_writeOffset s + of_nat (length d)\<rparr>"
      using g True e ld(1) by (auto simp: getDataForWriting_def d_def)
    have p': "pending s' = drop (length d) (pending s)" "unat (st_writeOffset s') = unat (st_writeOffset s) + length d"
      by (simp_all add: gd pending_def wo)
    have so: "sending_ok s' a" unfolding sending_ok_def p' dr using l(1,2) ld by (simp add: gd d_def)
    have pe: "pending s = d @ pending s'" unfolding p' using ld(1) by (simp add: d_def)
    show ?thesis
      by (intro exI [of _ d] conjI pe so d1 d_def) (simp_all add: gd wo e)
  next
    case False
    then have ds: "d = pending s" using u by (simp add: d_def word_less_nat_alt)
    have gd: "bytes = Some d" "s' = (signalWrite (s\<lparr>st_dataForWriting := None\<rparr>))\<lparr>st_writeOffset := st_writeOffset s + of_nat (length d)\<rparr>"
      using g False e ds by (simp_all add: getDataForWriting_def)
    have p': "pending s' = []" "unat (st_writeOffset s') = unat (st_writeOffset s) + length d"
      by (simp_all add: gd pending_def wo signalWrite_def)
    have so: "sending_ok s' a" unfolding sending_ok_def p' using l(1,2) ds by (simp add: gd signalWrite_def)
    have pe: "pending s = d @ pending s'" unfolding p' using ds by simp
    show ?thesis
      by (intro exI [of _ d] conjI pe so d1 d_def) (simp_all add: gd wo e signalWrite_def)
  qed
qed

text \<open>A frame taken from a stream.\<close>

definition takes :: "byte list \<Rightarrow> stream \<Rightarrow> StreamFrame option \<Rightarrow> stream \<Rightarrow> bool" where
  "takes a s fo s' \<longleftrightarrow> sending_ok s' a \<and> same_receiving s s' \<and> st_finishedWriting s' = st_finishedWriting s
     \<and> (case fo of
          None \<Rightarrow> True
        | Some fr \<Rightarrow> slice_of a fr \<and> sf_StreamID fr = st_streamID s \<and> sf_DataLenPresent fr \<and> sf_Offset fr = st_writeOffset s
            \<and> (sf_FinBit fr \<longrightarrow> st_finishedWriting s))"

lemma takeData_ok:
  assumes ok: "sending_ok s a" and m: "0 < maxLen" and len: "len = lenOfDataForWriting s"
    and t: "takeData len maxLen w s f bl = (fo, s', f', bl')"
  shows "takes a s fo s' \<and> (\<forall>fr. fo = Some fr \<longrightarrow> length (sf_Data fr) \<le> unat maxLen)"
proof (cases "len = 0")
  case True
  have fin: "sending_ok (sentFin s) a" using ok by (simp add: sending_ok_def sentFin_def pending_def)
  show ?thesis
  proof (cases "shouldSendFin s")
    case f: True
    then have "length a = unat (st_writeOffset s)" using ok by (auto simp: sending_ok_def pending_def shouldSendFin_def)
    then show ?thesis
      using t True f fin
      by (auto simp: takeData_def Let_def takes_def slice_of_def emptyStreamFrame_def sentFin_def shouldSendFin_def)
  next
    case False
    then show ?thesis using t True ok by (auto simp: takeData_def Let_def takes_def)
  qed
next
  case False
  note e = lenOfDataForWriting_pending [OF ok False [unfolded len]]
  obtain bytes s1 where g: "getDataForWriting maxLen s = (bytes, s1)" by (cases "getDataForWriting maxLen s") auto
  obtain d where d: "bytes = Some d" "d \<noteq> []" "d = take (unat maxLen) (pending s)" "sending_ok s1 a" "same_receiving s s1"
    "unat (st_writeOffset s1) = unat (st_writeOffset s) + length d" "st_finishedWriting s1 = st_finishedWriting s"
    "st_err s1 = None" "pending s = d @ pending s1"
    using getDataForWriting_ok [OF ok e(1,2) m g] by blast
  have sl: "unat (st_writeOffset s) + length d \<le> length a" "d = take (length d) (drop (unat (st_writeOffset s)) a)"
  proof -
    have "drop (unat (st_writeOffset s)) a = d @ pending s1" using ok d(9) by (simp add: sending_ok_def)
    then show "d = take (length d) (drop (unat (st_writeOffset s)) a)" by simp
    show "unat (st_writeOffset s) + length d \<le> length a" using d(4,6) by (simp add: sending_ok_def)
  qed
  have fin: "sending_ok (sentFin s1) a" using d(4) by (simp add: sending_ok_def sentFin_def pending_def)
  have last: "unat (st_writeOffset s) + length d = length a" if "shouldSendFin s1"
    using that d(4,6) by (auto simp: sending_ok_def shouldSendFin_def pending_def)
  have t': "fo = Some ((emptyStreamFrame s)\<lparr>sf_FinBit := shouldSendFin s1, sf_Data := d\<rparr>)"
    "s' = (if shouldSendFin s1 then sentFin s1 else s1)"
    using t False g d(1) by (auto simp: takeData_def Let_def)
  have "takes a s fo s'"
    using d(2,4,5,7) sl(1) sl(2) [symmetric] fin last
    by (auto simp: takes_def t' slice_of_def emptyStreamFrame_def sentFin_def shouldSendFin_def)
  then show ?thesis using d(3) by (simp add: t')
qed

text \<open>
  A frame that is taken fits: it brings the length so far, its header and its data to at most \<open>maxBytes\<close>.
\<close>

definition frame_room :: "StreamFrame \<Rightarrow> nat" where
  "frame_room fr = unat (frameHeaderBytes fr) + length (sf_Data fr)"

lemma frameHeaderBytes_value:
  "frameHeaderBytes fr = 1 + ucast (calculateStreamIDLength fr) + getOffsetLength fr + (if sf_DataLenPresent fr then 2 else 0)"
  by (simp add: frameHeaderBytes_def StreamFrame_MinLength_def Let_def)

lemma frameHeaderBytes_le: "unat (frameHeaderBytes fr) \<le> 15"
proof -
  have "calculateStreamIDLength fr \<in> {1, 2, 3, 4}" by (auto simp: calculateStreamIDLength_def)
  moreover have "getOffsetLength fr \<in> {0, 2, 3, 4, 5, 6, 7, 8}" by (auto simp: getOffsetLength_def)
  ultimately show ?thesis by (auto simp: frameHeaderBytes_value)
qed

lemma takeFrame_ok:
  assumes ok: "sending_ok s a" and cm: "unat cur \<le> unat maxBytes" "unat maxBytes < 2 ^ 63"
    and t: "takeFrame cur maxBytes s f bl = ((fo, len, cont), s', f', bl')"
  shows "takes a s fo s' \<and> unat len = unat cur + (case fo of None \<Rightarrow> 0 | Some fr \<Rightarrow> frame_room fr) \<and> unat len \<le> unat maxBytes"
proof -
  let ?h = "frameHeaderBytes (emptyStreamFrame s)"
  have same: "takes a s None s" using ok by (simp add: takes_def)
  have hb: "unat (cur + ?h) = unat cur + unat ?h" using cm frameHeaderBytes_le [of "emptyStreamFrame s"] by (subst unat_plus_less) simp_all
  define room where "room = maxBytes - cur - ?h"
  define sl where "sl = lenOfDataForWriting s"
  define w where "w = (if sl \<noteq> 0 then streamWindow f (Some (st_streamID s)) else 0)"
  define ml where "ml = (if sl \<noteq> 0 then MinByteCount room w else room)"
  show ?thesis
  proof (cases "st_streamID s = 1 \<or> cur + ?h > maxBytes \<or> ml = 0")
    case True
    then have "fo = None \<and> len = cur \<and> s' = s"
      using t unfolding takeFrame_def Let_def room_def [symmetric] sl_def [symmetric] w_def [symmetric] ml_def [symmetric]
      by (auto split: if_splits)
    then show ?thesis using same cm by simp
  next
    case False
    then have fit: "unat cur + unat ?h \<le> unat maxBytes" using hb by (simp add: word_less_nat_alt)
    have rm: "unat room = unat maxBytes - unat cur - unat ?h"
      using fit by (simp add: room_def unat_minus_le word_le_nat_alt)
    obtain fo1 s1 f1 bl1 where td: "takeData sl ml w s f bl = (fo1, s1, f1, bl1)" by (cases "takeData sl ml w s f bl") auto
    have ml0: "0 < ml" using False by (simp add: word_neq_0_conv)
    have mlr: "unat ml \<le> unat room" by (simp add: ml_def unat_min)
    note tk = takeData_ok [OF ok ml0 sl_def td]
    have r: "s' = s1" "fo = fo1" "case fo1 of None \<Rightarrow> len = cur | Some fr \<Rightarrow> len = cur + (?h + StreamFrame_DataLen fr)"
      using t False td unfolding takeFrame_def Let_def room_def [symmetric] sl_def [symmetric] w_def [symmetric] ml_def [symmetric]
      by (auto split: option.splits)
    show ?thesis
    proof (cases fo1)
      case None
      then show ?thesis using r tk cm by simp
    next
      case (Some fr)
      have fr: "length (sf_Data fr) \<le> unat ml" "sf_StreamID fr = st_streamID s" "sf_Offset fr = st_writeOffset s" "sf_DataLenPresent fr"
        using tk Some by (auto simp: takes_def)
      have h: "frameHeaderBytes fr = ?h"
        by (simp add: frameHeaderBytes_value emptyStreamFrame_def calculateStreamIDLength_def getOffsetLength_def fr)
      have d: "unat (StreamFrame_DataLen fr) = length (sf_Data fr)"
        using fr(1) mlr rm cm by (simp add: StreamFrame_DataLen_def unat_of_nat_64)
      have "unat len = unat cur + frame_room fr"
        using r(3) Some fit fr(1) mlr rm cm d h by (simp add: frame_room_def unat_plus_less)
      then show ?thesis using r(1,2) Some tk fr(1) mlr rm fit h by (simp add: frame_room_def)
    qed
  qed
qed

section \<open>Frames that are popped\<close>

text \<open>What was written into every stream, and the streams that were closed: only they have frames with FIN.\<close>

record written =
  wr_data :: "StreamID \<Rightarrow> byte list"
  wr_closed :: "StreamID set"

definition good_frame :: "written \<Rightarrow> StreamFrame \<Rightarrow> bool" where
  "good_frame A fr \<longleftrightarrow> slice_of (wr_data A (sf_StreamID fr)) fr \<and> length (wr_data A (sf_StreamID fr)) < 2 ^ 64 - 1
     \<and> (sf_FinBit fr \<longrightarrow> sf_StreamID fr \<in> wr_closed A)"

definition streams_ok :: "written \<Rightarrow> (StreamID \<Rightarrow> stream) \<Rightarrow> bool" where
  "streams_ok A h \<longleftrightarrow> (\<forall>i. sending_ok (h i) (wr_data A i) \<and> st_streamID (h i) = i
     \<and> (st_finishedWriting (h i) \<longleftrightarrow> i \<in> wr_closed A))"

definition frames_ok :: "written \<Rightarrow> StreamFrame list \<Rightarrow> bool" where
  "frames_ok A frs \<longleftrightarrow> (\<forall>fr\<in>set frs. good_frame A fr \<and> sf_DataLenPresent fr)"

abbreviation rooms :: "StreamFrame list \<Rightarrow> nat" where
  "rooms frs \<equiv> sum_list (map frame_room frs)"

lemma good_frame_len:
  assumes "good_frame A fr" shows "unat (StreamFrame_DataLen fr) = length (sf_Data fr)"
proof -
  have "length (sf_Data fr) < 2 ^ 64" using assms by (auto simp: good_frame_def slice_of_def)
  then show ?thesis by (simp add: StreamFrame_DataLen_def unat_of_nat_64)
qed

lemma split_good:
  assumes g: "good_frame A fr" and s: "maybeSplitOffFrame fr n = Some (sp, rest)" and n: "0 < n"
  shows "good_frame A sp" "good_frame A rest" "length (sf_Data sp) = unat n" "sf_DataLenPresent sp = sf_DataLenPresent fr"
    "frameHeaderBytes sp = frameHeaderBytes fr"
proof -
  let ?a = "wr_data A (sf_StreamID fr)" and ?o = "unat (sf_Offset fr)" and ?l = "length (sf_Data fr)"
  have nl: "unat n < ?l" using s good_frame_len [OF g] by (auto simp: maybeSplitOffFrame_def word_le_nat_alt split: if_splits)
  have sp: "sp = fr\<lparr>sf_FinBit := False, sf_Data := take (unat n) (sf_Data fr)\<rparr>"
    and rest: "rest = fr\<lparr>sf_Data := drop (unat n) (sf_Data fr), sf_Offset := sf_Offset fr + n\<rparr>"
    using s by (auto simp: maybeSplitOffFrame_def split: if_splits)
  have a: "?o + ?l \<le> length ?a" "length ?a < 2 ^ 64 - 1" and d: "sf_Data fr = take ?l (drop ?o ?a)"
    using g by (auto simp: good_frame_def slice_of_def)
  have n0: "0 < unat n" using n by (simp add: word_less_nat_alt)
  have off: "unat (sf_Offset fr + n) = ?o + unat n" using nl a by (subst unat_plus_less) simp_all
  have t: "take (unat n) (sf_Data fr) = take (unat n) (drop ?o ?a)" by (subst d) (use nl in \<open>simp add: min_def\<close>)
  have r: "drop (unat n) (sf_Data fr) = take (?l - unat n) (drop (?o + unat n) ?a)"
    by (subst d) (simp add: drop_take add.commute)
  show "length (sf_Data sp) = unat n" using nl by (simp add: sp)
  show "good_frame A sp" using a nl n0 t by (auto simp: good_frame_def slice_of_def sp min_def)
  show "good_frame A rest" using g a nl r by (auto simp: good_frame_def slice_of_def rest off)
  show "sf_DataLenPresent sp = sf_DataLenPresent fr" "frameHeaderBytes sp = frameHeaderBytes fr"
    by (simp_all add: sp frameHeaderBytes_value calculateStreamIDLength_def getOffsetLength_def)
qed

lemma popRetransmissions_ok:
  assumes "\<forall>q\<in>set qs. good_frame A q" "unat cur \<le> unat maxLen" "unat maxLen < 2 ^ 63"
    and "popRetransmissions maxLen cur qs f = (res, len, qs', f')"
  shows "frames_ok A res \<and> (\<forall>q\<in>set qs'. good_frame A q) \<and> unat len = unat cur + rooms res \<and> unat len \<le> unat maxLen"
  using assms
proof (induction maxLen cur qs f arbitrary: res len qs' f' rule: popRetransmissions.induct)
  case (2 maxLen cur q qs f)
  define fr where "fr = q\<lparr>sf_DataLenPresent := True\<rparr>"
  define h where "h = frameHeaderBytes fr"
  have g: "good_frame A fr" using 2(2) by (simp add: fr_def good_frame_def slice_of_def)
  have ch: "unat (cur + h) = unat cur + unat h" using 2(3,4) frameHeaderBytes_le [of fr] by (subst unat_plus_less) (simp_all add: h_def)
  show ?case
  proof (cases "cur + h \<ge> maxLen")
    case True
    then have "res = []" "len = cur" "qs' = fr # qs" using 2(5) by (simp_all add: fr_def h_def)
    then show ?thesis using 2(2,3) g by (simp add: frames_ok_def)
  next
    case False
    then have lt: "unat cur + unat h < unat maxLen" using ch by (simp add: word_le_nat_alt)
    define n where "n = maxLen - (cur + h)"
    have n: "unat n = unat maxLen - (unat cur + unat h)" using lt ch by (simp add: n_def unat_minus_le word_le_nat_alt)
    then have n0: "0 < n" using lt by (simp add: word_less_nat_alt)
    show ?thesis
    proof (cases "maybeSplitOffFrame fr n")
      case (Some p)
      obtain sp rest where p: "p = (sp, rest)" by (cases p)
      note sg = split_good [OF g Some [unfolded p] n0]
      have v: "res = [sp]" "len = cur + h + StreamFrame_DataLen sp" "qs' = rest # qs"
        using 2(5) False Some p by (simp_all add: fr_def h_def n_def)
      have "unat len = unat cur + unat h + unat n"
        using ch good_frame_len [OF sg(1)] sg(3) n lt by (simp add: v unat_plus_less)
      then show ?thesis using 2(2) sg n lt by (simp add: v frames_ok_def frame_room_def h_def fr_def)
    next
      case None
      then have dl: "length (sf_Data fr) \<le> unat n"
        using good_frame_len [OF g] by (auto simp: maybeSplitOffFrame_def word_le_nat_alt split: if_splits)
      have c2: "unat (cur + h + StreamFrame_DataLen fr) = unat cur + frame_room fr"
        using ch good_frame_len [OF g] dl n lt 2(4) by (subst unat_plus_less) (simp_all add: frame_room_def h_def)
      have fit: "unat cur + frame_room fr \<le> unat maxLen" using dl n lt by (simp add: frame_room_def h_def)
      obtain res1 where v: "res = fr # res1"
        "popRetransmissions maxLen (cur + h + StreamFrame_DataLen fr) qs (addRetrans fr f) = (res1, len, qs', f')"
        using 2(5) False None by (auto simp: fr_def h_def n_def Let_def split: prod.splits)
      have "frames_ok A res1 \<and> (\<forall>q\<in>set qs'. good_frame A q) \<and> unat len = unat cur + frame_room fr + rooms res1 \<and> unat len \<le> unat maxLen"
        using 2(1) [OF fr_def h_def False refl None [unfolded n_def] _ _ _ v(2)] 2(2-4) c2 fit by simp
      then show ?thesis using g by (simp add: v(1) frames_ok_def fr_def)
    qed
  qed
qed (auto simp: frames_ok_def)

text \<open>What taking a frame leaves alone: the receiving half of every stream, and how the stream ended.\<close>

abbreviation same_status :: "stream \<Rightarrow> stream \<Rightarrow> bool" where
  "same_status s s' \<equiv> st_err s' = st_err s \<and> st_cancelled s' = st_cancelled s \<and> st_resetLocally s' = st_resetLocally s"

definition kept :: "(StreamID \<Rightarrow> stream) \<Rightarrow> (StreamID \<Rightarrow> stream) \<Rightarrow> bool" where
  "kept h h' \<longleftrightarrow> (\<forall>i. same_receiving (h i) (h' i) \<and> same_status (h i) (h' i) \<and> (h i = newStream i \<longrightarrow> h' i = newStream i))"

lemma getDataForWriting_status: "same_status s (snd (getDataForWriting m s))"
  by (simp add: getDataForWriting_def signalWrite_def split: option.splits)

lemma takeFrame_status:
  assumes "takeFrame cur maxBytes s f bl = (r, s', f', bl')" shows "same_status s s'"
proof -
  have "same_status s s1" if "getDataForWriting m s = (d, s1)" for m d s1 using getDataForWriting_status [of m s] that by simp
  then show ?thesis using assms
    by (auto simp: takeFrame_def takeData_def Let_def sentFin_def split: if_splits prod.splits option.splits)
qed

lemma kept_refl: "kept h h"
  by (simp add: kept_def)

lemma takeFrame_new: "takeFrame cur maxBytes (newStream i) f bl = (r, s', f', bl') \<Longrightarrow> s' = newStream i"
  by (auto simp: takeFrame_def takeData_def Let_def lenOfDataForWriting_def shouldSendFin_def newStream_def split: if_splits)

lemma kept_takeFrame:
  assumes "kept h0 h" "takes a (h i) fo s" "takeFrame cur maxBytes (h i) f bl = (r, s, f', bl')"
  shows "kept h0 (h(i := s))"
proof -
  have "s = newStream i" if "h i = newStream i" by (rule takeFrame_new [OF assms(3) [unfolded that]])
  moreover have "same_receiving (h i) s" using assms(2) by (simp add: takes_def)
  ultimately show ?thesis using assms(1) takeFrame_status [OF assms(3)] by (simp add: kept_def)
qed

text \<open>The function of the round robin keeps this: an instance of the contract of iteration.\<close>

definition popping_ok :: "written \<Rightarrow> (StreamID \<Rightarrow> stream) \<Rightarrow> ByteCount \<Rightarrow> (StreamID \<Rightarrow> stream) \<Rightarrow> popping \<Rightarrow> bool" where
  "popping_ok A h0 maxBytes h = (\<lambda>(len, res, f, blocked). unat maxBytes < 2 ^ 63 \<and> streams_ok A h \<and> kept h0 h \<and> frames_ok A res
     \<and> unat len = rooms res \<and> unat len \<le> unat maxBytes)"

lemma takes_good:
  assumes "streams_ok A h" "takes (wr_data A i) (h i) fo s"
  shows "streams_ok A (h(i := s)) \<and> frames_ok A (case fo of None \<Rightarrow> [] | Some fr \<Rightarrow> [fr])"
proof -
  have i: "sending_ok (h i) (wr_data A i)" "st_streamID (h i) = i" using assms(1) by (auto simp: streams_ok_def)
  then show ?thesis
    using assms by (auto simp: streams_ok_def takes_def frames_ok_def good_frame_def sending_ok_def split: option.splits)
qed

interpretation popped: stream_iteration "popNormal maxBytes" "popping_ok A h0 maxBytes" live for A h0 maxBytes live
proof
  fix i h t cont err s t'
  assume Q: "popping_ok A h0 maxBytes h t" and f: "popNormal maxBytes (h i) t = (cont, err, s, t')"
  obtain len res fm bl where t: "t = (len, res, fm, bl)" by (cases t)
  obtain fo len' c s1 f1 bl1 where tk: "takeFrame len maxBytes (h i) fm bl = ((fo, len', c), s1, f1, bl1)"
    by (cases "takeFrame len maxBytes (h i) fm bl") auto
  have ok: "sending_ok (h i) (wr_data A i)" using Q by (simp add: t popping_ok_def streams_ok_def)
  have r: "err = None" "s = s1" "t' = (len', res @ (case fo of None \<Rightarrow> [] | Some x \<Rightarrow> [x]), f1, bl1)"
    using f tk by (auto simp: t popNormal_def)
  note tf = takeFrame_ok [OF ok _ _ tk]
  have len: "unat len \<le> unat maxBytes" "unat maxBytes < 2 ^ 63" "streams_ok A h" using Q by (simp_all add: t popping_ok_def)
  then show "err = None \<and> popping_ok A h0 maxBytes (h(i := s)) t'"
    using Q tf takes_good [OF len(3), of i fo s1] r kept_takeFrame [where h = h and i = i, OF _ _ tk]
    by (auto simp: t popping_ok_def frames_ok_def split: option.splits)
qed

text \<open>Of the map, only the streams, the position of the round robin and the tree of the scheduler change.\<close>

definition same_map :: "streamsMap \<Rightarrow> streamsMap \<Rightarrow> bool" where
  "same_map m m' \<longleftrightarrow> (\<exists>h k sch. m' = m\<lparr>sm_heap := h, sm_roundRobinIndex := k, sm_streamScheduler := sch\<rparr>)"

lemma same_map_refl: "same_map m m"
  unfolding same_map_def by (intro exI [of _ "sm_heap m"] exI [of _ "sm_roundRobinIndex m"] exI [of _ "sm_streamScheduler m"]) simp

lemma only_streams_same_map:
  assumes "only_streams m m'" shows "same_map m m'"
proof -
  have "m' = (m'\<lparr>sm_heap := sm_heap m, sm_roundRobinIndex := sm_roundRobinIndex m\<rparr>)
    \<lparr>sm_heap := sm_heap m', sm_roundRobinIndex := sm_roundRobinIndex m', sm_streamScheduler := sm_streamScheduler m'\<rparr>" by simp
  then show ?thesis using assms unfolding only_streams_def same_map_def by metis
qed

lemma same_map_inv:
  assumes "same_map m m'" "sm_inv m" "\<And>i. st_streamID (sm_heap m' i) = i"
  shows "sm_inv m'"
proof -
  obtain h k sch where m': "m' = m\<lparr>sm_heap := h, sm_roundRobinIndex := k, sm_streamScheduler := sch\<rparr>"
    using assms(1) unfolding same_map_def by blast
  show ?thesis by (rule sm_inv_cong [OF assms(2)]) (use assms(3) in \<open>simp_all add: m'\<close>)
qed

lemma same_map_unused:
  assumes "same_map m m'" "unused_new m" "kept (sm_heap m) (sm_heap m')"
  shows "unused_new m'"
proof -
  obtain h k sch where m': "m' = m\<lparr>sm_heap := h, sm_roundRobinIndex := k, sm_streamScheduler := sch\<rparr>"
    using assms(1) unfolding same_map_def by blast
  then have "unused m' = unused m" by (simp add: fun_eq_iff unused_def is_local_def)
  then show ?thesis using assms(2,3) by (simp add: unused_new_def kept_def)
qed

text \<open>All frames that are popped for a packet are parts of what was written, and together they fit.\<close>

lemma PopStreamFrames_ok:
  assumes cons: "sm_consistent m" "length (sm_streams m) < 2 ^ 32" and st: "streams_ok A (sm_heap m)"
    and q: "\<forall>q\<in>set (fr_retransmissionQueue fr). good_frame A q" and max: "unat maxLen < 2 ^ 63"
    and pop: "PopStreamFrames maxLen fr (m, f) = Inr (fs, fr', (m', f'))"
  shows "frames_ok A fs \<and> rooms fs \<le> unat maxLen \<and> streams_ok A (sm_heap m') \<and> kept (sm_heap m) (sm_heap m')
    \<and> (\<forall>q\<in>set (fr_retransmissionQueue fr'). good_frame A q) \<and> same_map m m'"
proof -
  obtain rs cur fr1 f1 where r: "maybePopFramesForRetransmission maxLen fr f = (rs, cur, fr1, f1)"
    by (cases "maybePopFramesForRetransmission maxLen fr f") auto
  then obtain qs where qs: "popRetransmissions maxLen 0 (fr_retransmissionQueue fr) f = (rs, cur, qs, f1)" "fr1 = fr\<lparr>fr_retransmissionQueue := qs\<rparr>"
    by (auto simp: maybePopFramesForRetransmission_def split: prod.splits)
  note rt = popRetransmissions_ok [OF q _ max qs(1)]
  let ?room = "maxLen - cur"
  have room: "unat ?room = unat maxLen - rooms rs" "unat ?room < 2 ^ 63" using rt max by (simp_all add: unat_minus_le word_le_nat_alt)
  obtain ns where n: "maybePopNormalFrames ?room fr1 (m, f1) = Inr (ns, fr', (m', f'))" "fs = rs @ ns"
    using pop r by (auto simp: PopStreamFrames_def)
  have "frames_ok A ns \<and> rooms ns \<le> unat ?room \<and> streams_ok A (sm_heap m') \<and> kept (sm_heap m) (sm_heap m') \<and> fr_retransmissionQueue fr' = qs
    \<and> same_map m m'"
  proof (cases "sm_streamScheduler m")
    case None
    obtain e t2 where rr: "RoundRobinIterate (popNormal ?room) m (0, [], f1, fr_blockedFrameQueue fr1) = (e, m', t2)"
      and t2: "fst (snd t2) = ns" "fr_retransmissionQueue fr' = qs"
      using n(1) None qs(2) by (auto simp: maybePopNormalFrames_def popRoundRobin_def split: prod.splits option.splits gerror.splits)
    have "popping_ok A (sm_heap m) ?room (sm_heap m) (0, [], f1, fr_blockedFrameQueue fr1)"
      using st room(2) by (simp add: popping_ok_def frames_ok_def kept_def)
    note it = popped.round_robin [OF cons(1) refl this cons(2) rr]
    then show ?thesis using t2 only_streams_same_map by (auto simp: popping_ok_def split: prod.splits)
  next
    case (Some sch)
    obtain n sch' where sc: "(case sch_toSend sch of None \<Rightarrow> schedule (sm_heap m) f1 sch | Some n \<Rightarrow> Inr (Some n, sch)) = Inr (n, sch')"
      using n(1) Some by (auto simp: maybePopNormalFrames_def popScheduled_def rbind_def split: sum.splits)
    let ?m1 = "m\<lparr>sm_streamScheduler := Some sch'\<rparr>"
    have map: "same_map m (m\<lparr>sm_streamScheduler := Some sch', sm_heap := h\<rparr>)" for h
      unfolding same_map_def by (intro exI [of _ h] exI [of _ "sm_roundRobinIndex m"] exI [of _ "Some sch'"]) simp
    have m1: "same_map m ?m1" using map [of "sm_heap m"] by simp
    show ?thesis
    proof (cases "case n of None \<Rightarrow> None | Some a \<Rightarrow> nd_stream (sch_nodes sch' a)")
      case None
      then show ?thesis using n(1) Some sc st qs(2) m1
        by (auto simp: maybePopNormalFrames_def popScheduled_def frames_ok_def kept_def)
    next
      case i: (Some i)
      obtain fo len c s f2 bl where sd: "send ?room (sm_heap m i) f1 (fr_blockedFrameQueue fr1) = ((fo, len, c), s, f2, bl)"
        by (cases "send ?room (sm_heap m i) f1 (fr_blockedFrameQueue fr1)") auto
      have r: "ns = (case fo of None \<Rightarrow> [] | Some x \<Rightarrow> [x])" "m' = ?m1\<lparr>sm_heap := (sm_heap m)(i := s)\<rparr>"
        "fr_retransmissionQueue fr' = qs"
        using n(1) Some sc i sd qs(2) by (auto simp: maybePopNormalFrames_def popScheduled_def)
      have ok: "sending_ok (sm_heap m i) (wr_data A i)" using st by (simp add: streams_ok_def)
      note tf = takeFrame_ok [OF ok _ room(2) sd [unfolded send_def]]
      have g: "streams_ok A ((sm_heap m)(i := s))" "frames_ok A ns" using takes_good [OF st, of i fo s] tf r(1) by auto
      have "same_map m m'" using map r(2) by simp
      moreover have "kept (sm_heap m) (sm_heap m')"
        using tf kept_takeFrame [where h = "sm_heap m" and i = i, OF kept_refl _ sd [unfolded send_def]] by (auto simp: r)
      ultimately show ?thesis using tf g r by (auto split: option.splits)
    qed
  qed
  then show ?thesis using rt room n(2) qs(2) by (auto simp: frames_ok_def)
qed

end
