(* ===== verification/Packer.thy ===== *)
theory Packer
  imports Handshake
begin

text \<open>
  The header the packet packer puts on a packet, \<^verbatim>\<open>getPublicHeader\<close> of \<^verbatim>\<open>packet_packer.go\<close>, and what
  \<^verbatim>\<open>handlePacketImpl\<close> of \<^verbatim>\<open>path.go\<close> makes of it at the other end: the peer finds the header that was meant.
  The crypto setup, the packet number generator and the session are read only through the values
  \<^verbatim>\<open>DiversificationNonce()\<close>, \<^verbatim>\<open>Peek()\<close> and \<^verbatim>\<open>handshakeComplete\<close>.
\<close>

section \<open>The header of a packet\<close>

record packetPacker =
  pp_connectionID :: ConnectionID
  pp_perspective :: Perspective
  pp_version :: VersionNumber
  pp_connectionParameters :: connectionParametersManager
  pp_diversificationNonce :: "byte list"

text \<open>What the packer reads of a path; the session may be \<^verbatim>\<open>nil\<close>.\<close>

record packedPath =
  pth_pathID :: PathID
  pth_leastUnacked :: PacketNumber
  pth_peekNumber :: PacketNumber
  pth_handshakeComplete :: "bool option"

definition getPublicHeader :: "packetPacker \<Rightarrow> EncryptionLevel \<Rightarrow> packedPath \<Rightarrow> PublicHeader" where
  "getPublicHeader p encLevel pth =
     (let pnum = pth_peekNumber pth;
          packetNumberLen = GetPacketNumberLengthForPublicHeader pnum (pth_leastUnacked pth);
          publicHeader = PublicHeader_zero\<lparr>ph_ConnectionID := pp_connectionID p, ph_PacketNumber := pnum,
            ph_PacketNumberLen := packetNumberLen,
            ph_TruncateConnectionID := TruncateConnectionID (pp_connectionParameters p)\<rparr>;
          publicHeader = (if pp_perspective p = PerspectiveServer \<and> encLevel = EncryptionSecure
            then publicHeader\<lparr>ph_DiversificationNonce := pp_diversificationNonce p\<rparr> else publicHeader);
          publicHeader = (if pp_perspective p = PerspectiveClient \<and> encLevel \<noteq> EncryptionForwardSecure
            then publicHeader\<lparr>ph_VersionFlag := True, ph_VersionNumber := pp_version p\<rparr> else publicHeader)
      in if pth_handshakeComplete pth = Some True \<and> pp_version p \<ge> VersionMP
         then publicHeader\<lparr>ph_MultipathFlag := True, ph_PathID := pth_pathID pth, ph_TruncateConnectionID := False\<rparr>
         else publicHeader)"

text \<open>The packet number \<^verbatim>\<open>handlePacketImpl\<close> goes on with.\<close>

definition inferredHeader :: "PacketNumber \<Rightarrow> PublicHeader \<Rightarrow> PublicHeader" where
  "inferredHeader largestRcvdPacketNumber hdr = hdr\<lparr>ph_PacketNumber :=
     InferPacketNumber (ph_PacketNumberLen hdr) largestRcvdPacketNumber (ph_PacketNumber hdr)\<rparr>"

section \<open>The peer finds the header that was meant\<close>

text \<open>
  What the rest of the code gives the packer: a random connection ID, a version that is sent as a tag, connection
  parameters of the same end, and a nonce of 32 bytes from the crypto setup of a server (or none).
\<close>

definition packer_ok :: "packetPacker \<Rightarrow> bool" where
  "packer_ok p \<longleftrightarrow> pp_connectionID p \<noteq> 0 \<and> 0 \<le> pp_version p \<and> pp_version p < 1000
     \<and> cpm_perspective (pp_connectionParameters p) = pp_perspective p
     \<and> length (pp_diversificationNonce p) \<in> {0, 32}"

lemma publicHeader_number:
  "ph_PacketNumberLen (getPublicHeader p encLevel pth)
     = GetPacketNumberLengthForPublicHeader (pth_peekNumber pth) (pth_leastUnacked pth)"
  "ph_PacketNumber (getPublicHeader p encLevel pth) = pth_peekNumber pth"
  by (simp_all add: getPublicHeader_def Let_def)

lemma length_bits: "l \<in> {2, 4, 6} \<Longrightarrow> 8 * unat (l :: byte) = unat (l * 8)"
  by auto

lemma GetPacketNumberLengthForPublicHeader_range: "GetPacketNumberLengthForPublicHeader n u \<in> {2, 4, 6}"
  by (simp add: GetPacketNumberLengthForPublicHeader_def Let_def)

lemma packed_header_ok:
  assumes "packer_ok p" shows "header_ok (getPublicHeader p encLevel pth) (pp_perspective p) (pp_version p)"
proof -
  have l: "dl_ok (GetPacketNumberLengthForPublicHeader n u)" for n u
    using GetPacketNumberLengthForPublicHeader_range [of n u] by (auto simp: dl_ok_def)
  have nonce: "pp_diversificationNonce p \<noteq> [] \<Longrightarrow> length (pp_diversificationNonce p) = 32"
    using assms by (auto simp: packer_ok_def)
  show ?thesis
    using assms nonce
    by (cases "pp_perspective p")
      (simp_all add: packer_ok_def header_ok_def getPublicHeader_def Let_def hasPacketNumber_def l PublicHeader_zero_def
        TruncateConnectionID_def VersionUnknown_def)
qed

text \<open>
  C38: The header of every packet arrives. For every encryption level and path, the header \<^verbatim>\<open>getPublicHeader\<close> makes is
  written without an error, in as many bytes as \<^verbatim>\<open>GetLength\<close> said, and the peer, after it has parsed it and inferred the
  packet number from the largest it has received on the path, has the header that was made, with the full packet
  number, but for a connection ID that was left out and reads 0. The peer has received all packets below the least
  unacknowledged one (or at least the one before), and is not ahead of the packet by half the range of the number.
\<close>

theorem packed_header_recovered:
  assumes "packer_ok p"
    and "pth_leastUnacked pth \<le> pth_peekNumber pth" "uint (pth_peekNumber pth) - uint (pth_leastUnacked pth) < 2 ^ 47"
    and "uint (pth_leastUnacked pth) \<le> uint largestRcvd + 1"
    and "uint largestRcvd + 1 < uint (pth_peekNumber pth)
           + 2 ^ (unat (GetPacketNumberLengthForPublicHeader (pth_peekNumber pth) (pth_leastUnacked pth) * 8) - 1)"
    and "uint (pth_peekNumber pth) < 2 ^ 62" "uint largestRcvd < 2 ^ 62"
  shows "let h = getPublicHeader p encLevel pth in
    \<exists>bs hdr. PublicHeader_Write h (pp_version p) (pp_perspective p) = Inr bs
      \<and> PublicHeader_GetLength h (pp_perspective p) = Inr (of_nat (length bs))
      \<and> ParsePublicHeader (pp_perspective p) (pp_version p) (bs @ r) = Inr (hdr, r)
      \<and> inferredHeader largestRcvd hdr
          = h\<lparr>ph_ConnectionID := (if ph_TruncateConnectionID h then 0 else pp_connectionID p)\<rparr>"
proof -
  let ?h = "getPublicHeader p encLevel pth"
  have c: "ph_ConnectionID ?h = pp_connectionID p" by (simp add: getPublicHeader_def Let_def)
  note n = publicHeader_number [of p encLevel pth]
  have "take_bit (8 * unat (ph_PacketNumberLen ?h)) (ph_PacketNumber ?h)
      = take_bit (unat (GetPacketNumberLengthForPublicHeader (pth_peekNumber pth) (pth_leastUnacked pth) * 8))
          (pth_peekNumber pth)"
    unfolding n length_bits [OF GetPacketNumberLengthForPublicHeader_range] ..
  then have "inferredHeader largestRcvd (header_received ?h)
      = ?h\<lparr>ph_ConnectionID := (if ph_TruncateConnectionID ?h then 0 else pp_connectionID p)\<rparr>"
    using truncated_number_inferred [OF assms(2-7)] n by (simp add: inferredHeader_def header_received_def c)
  then show ?thesis
    using header_over_wire [OF packed_header_ok [OF assms(1)], of encLevel pth r] by (auto simp: Let_def)
qed

theorem packed_header_recovered_witness:
  "let p = \<lparr>pp_connectionID = 77, pp_perspective = PerspectiveServer, pp_version = 512, pp_connectionParameters =
         (NewConnectionParamatersManager PerspectiveServer 512 1048576 1572864 (30 * Second))\<lparr>cpm_truncateConnectionID := True\<rparr>,
       pp_diversificationNonce = replicate 32 7\<rparr>;
       pth = \<lparr>pth_pathID = 1, pth_leastUnacked = 40001, pth_peekNumber = 70000, pth_handshakeComplete = Some False\<rparr>;
       h = getPublicHeader p EncryptionSecure pth in
    ph_TruncateConnectionID h \<and> ph_PacketNumberLen h = 2
    \<and> (\<exists>bs hdr. PublicHeader_Write h 512 PerspectiveServer = Inr bs
      \<and> ParsePublicHeader PerspectiveServer 512 (bs @ [5]) = Inr (hdr, [5])
      \<and> inferredHeader 40000 hdr = h\<lparr>ph_ConnectionID := 0\<rparr>)"
proof -
  let ?p = "\<lparr>pp_connectionID = 77, pp_perspective = PerspectiveServer, pp_version = 512, pp_connectionParameters =
         (NewConnectionParamatersManager PerspectiveServer 512 1048576 1572864 (30 * Second))\<lparr>cpm_truncateConnectionID := True\<rparr>,
       pp_diversificationNonce = replicate 32 7\<rparr>"
  let ?pth = "\<lparr>pth_pathID = 1, pth_leastUnacked = 40001, pth_peekNumber = 70000, pth_handshakeComplete = Some False\<rparr>"
  have h: "ph_TruncateConnectionID (getPublicHeader ?p EncryptionSecure ?pth)"
      "ph_PacketNumberLen (getPublicHeader ?p EncryptionSecure ?pth) = 2"
    by (simp_all add: getPublicHeader_def Let_def TruncateConnectionID_def NewConnectionParamatersManager_def
        GetPacketNumberLengthForPublicHeader_def)
  have "packer_ok ?p" by (simp add: packer_ok_def NewConnectionParamatersManager_def)
  from packed_header_recovered [OF this, of ?pth 40000 EncryptionSecure "[5]"] h show ?thesis
    by (auto simp: Let_def GetPacketNumberLengthForPublicHeader_def)
qed

end
