(* ===== verification/Spec2Isabelle.thy ===== *)
theory Spec2Isabelle
  imports StreamFramer Packer
begin

text \<open>
  A verification development for the multipath QUIC implementation in \<^verbatim>\<open>src/src/sa-ecf\<close>, a Go program. All
  file names below are relative to that directory.

  \<^bold>\<open>The program.\<close> A session splits the data of many streams into packets, sends them over several paths, and
  puts the data together again at the other end. Bytes that arrive are parsed as a public header
  (\<^verbatim>\<open>internal/wire\<close>), the payload is opened and split into frames (\<^verbatim>\<open>packet_unpacker.go\<close>). The packet number is
  entered into the history of the path, which decides when an ACK frame is due (\<^verbatim>\<open>ackhandler\<close>). A STREAM frame
  passes flow control (\<^verbatim>\<open>internal/flowcontrol\<close>) and goes to the sorter of its stream (\<^verbatim>\<open>stream_frame_sorter.go\<close>),
  from which \<^verbatim>\<open>Read\<close> takes the bytes in order (\<^verbatim>\<open>stream.go\<close>). \<^verbatim>\<open>Write\<close> leaves data in the stream; the framer
  (\<^verbatim>\<open>stream_framer.go\<close>) makes frames of it, visiting the streams of the map (\<^verbatim>\<open>streams_map.go\<close>) in turn or as the stream
  scheduler says (\<^verbatim>\<open>stream_scheduler.go\<close>). The handler of sent packets keeps what is in flight, detects losses and asks the
  congestion controller how much may be sent (\<^verbatim>\<open>congestion\<close>). The limits both ends obey are agreed on in the
  handshake (\<^verbatim>\<open>internal/handshake\<close>).

  \<^bold>\<open>Conventions.\<close> A Go \<^verbatim>\<open>uintN\<close> is an \<open>N word\<close>, with the wrap-around of \<open>+\<close> and \<open>-\<close>; a signed integer is an
  \<open>int\<close> with \<open>i64\<close> where it can leave its range; a \<^verbatim>\<open>time.Time\<close> is its nanoseconds, 0 the zero time, and the clock is
  an argument of the operations that read it. A reader is a function from the bytes that are left to an error or
  a value and the bytes after it; a writer gives an error or the bytes written. Errors are values of \<open>gerror\<close>:
  end of input, a formatted error, an error with a QUIC code, or a panic, so that the absence of panics can be
  stated. A method that changes its receiver and may fail is an \<open>outcome\<close>: the error, if any, and the state it leaves
  behind. Go maps are association lists, linked lists are lists, and a Go interface is a record of its methods.
  Floating point results are rounded exactly, as rational numbers. Streams and the nodes of the scheduler's tree live in
  heaps addressed by stream ID. A call that blocks is modelled by its phases between two waits. STREAM frames are values:
  that a frame in flight and the frame in the retransmission queue are one object in Go is not modelled.

  \<^bold>\<open>The theories\<close>, in the order of their imports:

  \<^item> \<open>Prelude\<close>, \<open>Protocol\<close>, \<open>ByteOrder\<close>, \<open>Utils\<close>: words, parsers and writers; \<^verbatim>\<open>internal/protocol\<close> (versions, packet
    number truncation and inference); \<^verbatim>\<open>internal/utils\<close> (byte orders, the 16-bit float, minimum and maximum).
  \<^item> \<open>Frames\<close>, \<open>StreamFrames\<close>, \<open>AckFrames\<close>, \<open>AckCodec\<close>, \<open>PublicHeaders\<close>: \<^verbatim>\<open>internal/wire\<close>. The locale \<open>frame_codec\<close>
    states what the packet code relies on for one type of frame: writing succeeds on sendable frames, \<^verbatim>\<open>MinLength\<close> is the
    number of bytes written, and parsing gives the frame back. It is interpreted on every frame type.
  \<^item> \<open>Unpacker\<close>: \<^verbatim>\<open>packet_unpacker.go\<close>. The locale \<open>frame_loop\<close> lifts the codec laws to payloads.
  \<^item> \<open>Handshake\<close>: \<^verbatim>\<open>handshake_message.go\<close>, \<^verbatim>\<open>connection_parameters_manager.go\<close>, \<^verbatim>\<open>public_reset.go\<close>.
  \<^item> \<open>Packer\<close>: the header \<^verbatim>\<open>packet_packer.go\<close> puts on a packet (\<^verbatim>\<open>getPublicHeader\<close>) and the packet number \<^verbatim>\<open>path.go\<close>
    infers from it at the other end.
  \<^item> \<open>ReceivedPackets\<close>: the receiving half of \<^verbatim>\<open>ackhandler\<close>. The locale \<open>packet_set\<close> is the contract of the history of
    received packets: a set of packet numbers; it is interpreted on \<open>receivedPacketHistory\<close>.
  \<^item> \<open>Congestion\<close>, \<open>Cubic\<close>: \<^verbatim>\<open>congestion\<close>: round trip times, hybrid slow start, rate reduction, Cubic and its sender. The
    locale \<open>send_algorithm\<close> is the contract of a congestion controller, interpreted on the Cubic sender.
  \<^item> \<open>SentPackets\<close>, \<open>SentSafety\<close>: the sending half of \<^verbatim>\<open>ackhandler\<close> and the reachable states of its handler.
  \<^item> \<open>StreamSorter\<close>, \<open>Streams\<close>: \<^verbatim>\<open>stream_frame_sorter.go\<close> and \<^verbatim>\<open>stream.go\<close>.
  \<^item> \<open>FlowControl\<close>, \<open>FlowSafety\<close>: \<^verbatim>\<open>internal/flowcontrol\<close>, and the step relation of a sender and a receiver that exchange
    STREAM, RST_STREAM and WINDOW_UPDATE frames over a network that delays, reorders, duplicates and loses them, while
    streams are opened, reset and removed and the round trip times change. Auxiliary fields of the system keep the
    controllers of removed streams, since what they added to the connection's counters stays there.
  \<^item> \<open>StreamScheduler\<close>, \<open>StreamsMap\<close>, \<open>StreamFramer\<close>: the files of these names, and the functions of \<^verbatim>\<open>session.go\<close> that
    open, close and feed streams. The locale \<open>stream_iteration\<close> is the contract of a function that the map applies to
    its streams; it is interpreted on the function with which the framer collects frames.

  \<^bold>\<open>What is shown.\<close> On the wire: what is written is parsed back, a header up to what is truncated in it, whatever
  bytes arrive the parsers end without a panic, what is accepted satisfies the checks of the draft, and the
  truncated packet number of the packer's headers is recovered. In the handshake: after the two hello messages the send windows
  of each end are the receive windows of the other. For flow control: a conforming sender is never accused of a violation, the
  connection's counters are the sums over the streams that are open or were removed, and windows are kept open. For acknowledgements: the history is a set, an ACK frame acknowledges exactly that set, also after
  it went over the wire, a retransmittable packet is acknowledged in time, and the sender accepts what an honest receiver
  says unless the packet that carries it is out of order. For sending: no packet is forgotten, the bytes in flight are exact and bounded by the congestion window, losses are
  retransmitted, and the windows of Cubic keep their bounds. For streams: the sorter delivers a prefix of the stream
  whatever the order and overlap of the frames, so does \<^verbatim>\<open>Read\<close>; the map is consistent and keeps its limits; what the
  framer pops is what was written, and fits. A few theorems pin down where the code fails: an ACK frame that cannot be
  written, a window that shrinks, a backoff that overflows, a CLOSE_PATH frame that the alarms do not retransmit, a stream
  that ends early.

  \<^bold>\<open>Bounds.\<close> Recursions are structural or have a termination proof, with these exceptions. The loop that estimates the
  window of TCP in \<open>Cubic\<close> has fuel, and \<open>cubic_estimate_loop_terminates\<close> shows that it ends by its own condition. The
  loop of \<^verbatim>\<open>Read\<close> has the room in the buffer and the number of queued frames as fuel: every round copies a byte or
  takes a frame (\<open>Read_loop_ok\<close>). Recursion along the scheduler's tree is bounded by the number of nodes, beyond which it is
  a stack overflow. The loop of \<^verbatim>\<open>GetOrOpenStream\<close> may run forever for the last stream IDs and is a partial function;
  \<open>openRemote_loop_inv\<close> shows that it returns for all others. Counters are words, so statements about sums carry the
  hypothesis that the sum is below \<open>2 ^ 64\<close> where the code relies on it.

  \<^bold>\<open>Not modelled.\<close> Cryptography (an AEAD is a parameter of \<open>Unpack\<close>), sockets, timers and goroutines, logging, HTTP, the
  generated mocks and linked lists, and the second copy of the tree. The packet packer beyond the headers, the paths with their manager and
  scheduler, the run loop of the session and the OLIA controller are not modelled: they connect the modelled components
  with sockets, clocks and random choices. Mutexes are left out: the operations are atomic steps.
\<close>

section \<open>Acknowledgements between two ends\<close>

text \<open>
  C4: The acknowledgement loop is sound. Let a receiver hold only packets that a sender has sent, with numbers that fit the
  48 bits of the format. If the gap below the highest range of its ACK frame is 64771 packets or more, \<^verbatim>\<open>Write\<close> fails.
  Otherwise the frame can be written and parsed; the sender, in whatever reachable state it is in, accepts the
  result, except that it returns \<^verbatim>\<open>ErrDuplicateOrOutOfOrderAck\<close> when the packet that carries it is not newer
  than the last one with an ACK; and the packets it determines to be newly acknowledged are packets the receiver has seen.
\<close>

theorem ack_loop_sound:
  assumes "rh_reachable v now r" "GetAckFrame now r = (Inr (Some f), r')" "unat (ack_LargestAcked f) < 2 ^ 48"
    and "sp_reachable A I h N T X D" "history_set (rh_packetHistory r) \<subseteq> unat ` N"
  shows "if 64771 \<le> first_gap (ack_AckRanges f)
    then fst (AckFrame_Write t f v') = Inl (Errorf ''BUG: Inconsistent number of ACK ranges written'')
    else \<exists>bs f' acked. fst (AckFrame_Write t f v') = Inr bs \<and> ParseAckFrame v' (bs @ rest) = Inr (f', rest)
      \<and> fst (ReceivedAck A t' f' n rcvTime h)
          = (if n \<le> sp_largestReceivedPacketWithAck h then Some ErrDuplicateOrOutOfOrderAck else None)
      \<and> determineNewlyAckedPackets f' h = Inr acked
      \<and> (\<forall>p\<in>set acked. unat (pk_PacketNumber p) \<in> history_set (rh_packetHistory r))"
proof (cases "64771 \<le> first_gap (ack_AckRanges f)")
  case True
  then show ?thesis using long_gap_write_fails [OF returned_ack_frame(1) [OF assms(1,2)] assms(3)
    returned_ack_frame(2) [OF assms(1,2)]] by simp
next
  case False
  then have ok: "ack_ok f"
    using ack_ok_gap [OF returned_ack_frame(1) [OF assms(1,2)] assms(3) returned_ack_frame(2) [OF assms(1,2)]] by simp
  obtain bs where w: "fst (AckFrame_Write t f v') = Inr bs"
    and p: "ParseAckFrame v' (bs @ rest) = Inr (ack_received t f, rest)"
    using ack.write_total [OF ok] ack.parse_write [OF ok] by blast
  let ?f = "ack_received t f"
  have sound: "unat q \<in> history_set (rh_packetHistory r)" if "AckFrame_AcksPacket ?f q" for q
    by (rule wire_ack_sound [OF assms(1,2) ok w p that])
  have wf: "ranges_wf (ack_LargestAcked ?f) (ack_LowestAcked ?f) (ack_AckRanges ?f)"
    by (rule ParseAckFrame_wf [OF p])
  have "q \<in> N" if "AckFrame_AcksPacket ?f q" for q
    using sound [OF that] assms(5) by (auto dest: word_unat_eq_iff [THEN iffD2])
  note honest_ack [OF assms(4) wf this]
  moreover have "determineNewlyAckedPackets ?f h = Inr (filter (\<lambda>p. AckFrame_AcksPacket ?f (pk_PacketNumber p)) (sp_packetHistory h))"
    using sp_reachable_inv [OF assms(4)] determineNewlyAcked_eq wf by blast
  ultimately show ?thesis using w p sound False by auto
qed

theorem ack_loop_sound_witness:
  "\<exists>f r' bs f'. GetAckFrame 100 run_handler = (Inr (Some f), r') \<and> fst (AckFrame_Write 200 f VersionMP) = Inr bs
     \<and> ParseAckFrame VersionMP (bs @ []) = Inr (f', []) \<and> fst (ReceivedAck cubicAlgorithm 3000 f' 1 3000 run_two)
        = (if 1 \<le> sp_largestReceivedPacketWithAck run_two then Some ErrDuplicateOrOutOfOrderAck else None)"
proof -
  let ?f = "\<lparr>ack_PathID = 0, ack_LargestAcked = 3, ack_LowestAcked = 1,
    ack_AckRanges = [\<lparr>ar_First = 3, ar_Last = 3\<rparr>, \<lparr>ar_First = 1, ar_Last = 1\<rparr>],
    ack_PacketReceivedTime = 100, ack_DelayTime = 0\<rparr>"
  have g: "GetAckFrame 100 run_handler = (Inr (Some ?f), snd (GetAckFrame 100 run_handler))"
    by (simp add: run_handler_value GetAckFrame_def GetAckRanges_def toAckRange_def Let_def)
  have ok: "unat (ack_LargestAcked ?f) < 2 ^ 48" "\<not> 64771 \<le> first_gap (ack_AckRanges ?f)"
    by (simp_all add: first_gap_def gap_nat_def)
  have "history_set (rh_packetHistory run_handler) \<subseteq> unat ` {3, 1 :: PacketNumber}"
    by (simp add: run_handler_value history_set_def)
  from ack_loop_sound [OF run_handler_reachable g ok(1) run_sent_reachable(3) this, of 200 VersionMP "[]" 3000 1 3000] g
  show ?thesis unfolding if_not_P [OF ok(2)] by blast
qed

end
